(* ===== verification/Xv6_Prelude.thy ===== *)
theory Xv6_Prelude
  imports Main "HOL-Library.Word"
begin

text \<open>
  The vocabulary shared by every component of the development:
  \<^item> the machine types of \<open>kernel/types.h\<close> as words, physical memory as a map from addresses
    to bytes, and the little-endian encoding of words as byte lists;
  \<^item> the identities of kernel objects (locks, sleep locks, wait channels), which stand for the
    addresses the C code compares;
  \<^item> the outcome type of a kernel operation: a normal return, a \<open>panic\<close>, a thread that went to
    sleep, or a loop that never ends, with its sequential composition and the total-correctness
    predicate \<open>returns\<close> used in every component.
\<close>

unbundle bit_operations_syntax

named_theorems outcome_simps \<open>outcomes of operations, as rewrite rules\<close>
named_theorems mem_simps \<open>reads of memory after writes\<close>
named_theorems frame_simps \<open>fields an operation leaves alone\<close>

type_synonym u8 = "8 word"
type_synonym u16 = "16 word"
type_synonym u32 = "32 word"
type_synonym u64 = "64 word"
type_synonym mem = "u64 \<Rightarrow> u8"

section \<open>Bytes\<close>

text \<open>Little-endian encoding of a word in \<open>k\<close> bytes, and back.\<close>

definition le_word :: "u8 list \<Rightarrow> 'a::len word" where
  "le_word bs = word_of_int (horner_sum uint 256 bs)"

definition word_le :: "nat \<Rightarrow> 'a::len word \<Rightarrow> u8 list" where
  "word_le k w = map (\<lambda>i. ucast (drop_bit (8 * i) w)) [0..<k]"

lemma length_word_le [simp]: "length (word_le k w) = k"
  by (simp add: word_le_def)

lemma bit_le_word:
  "bit (le_word bs :: 'a::len word) n \<longleftrightarrow>
     n < LENGTH('a) \<and> n div 8 < length bs \<and> bit (bs ! (n div 8)) (n mod 8)"
  using bit_horner_sum_uint_exp_iff [of bs n]
  by (simp add: le_word_def bit_simps)

lemma le_word_word_le [simp]:
  "LENGTH('a) \<le> 8 * k \<Longrightarrow> le_word (word_le k w) = (w :: 'a::len word)"
  by (rule bit_word_eqI) (auto simp: bit_le_word word_le_def bit_simps)

lemma word_le_le_word:
  "length bs = k \<Longrightarrow> 8 * k \<le> LENGTH('a) \<Longrightarrow> word_le k (le_word bs :: 'a::len word) = bs"
  by (rule nth_equalityI) (auto intro!: bit_word_eqI simp: bit_le_word word_le_def bit_simps)

text \<open>Replacing a run of bytes inside an array.\<close>

definition bpatch :: "u8 list \<Rightarrow> nat \<Rightarrow> u8 list \<Rightarrow> u8 list" where
  "bpatch bs off xs = take off bs @ xs @ drop (off + length xs) bs"

definition bslice :: "u8 list \<Rightarrow> nat \<Rightarrow> nat \<Rightarrow> u8 list" where
  "bslice bs off n = take n (drop off bs)"

lemma length_bpatch [simp]:
  "off + length xs \<le> length bs \<Longrightarrow> length (bpatch bs off xs) = length bs"
  by (simp add: bpatch_def)

lemma length_bslice [simp]: "off + n \<le> length bs \<Longrightarrow> length (bslice bs off n) = n"
  by (simp add: bslice_def)

lemma nth_bslice: "i < n \<Longrightarrow> off + n \<le> length bs \<Longrightarrow> bslice bs off n ! i = bs ! (off + i)"
  by (simp add: bslice_def)

lemma nth_bpatch:
  "off + length xs \<le> length bs \<Longrightarrow> i < length bs \<Longrightarrow>
   bpatch bs off xs ! i = (if off \<le> i \<and> i < off + length xs then xs ! (i - off) else bs ! i)"
  by (auto simp: bpatch_def nth_append)

lemma bslice_bpatch_same [simp]:
  "off + length xs \<le> length bs \<Longrightarrow> n = length xs \<Longrightarrow> bslice (bpatch bs off xs) off n = xs"
  by (simp add: bslice_def bpatch_def)

lemma bslice_bpatch_disjoint:
  assumes "off + length xs \<le> length bs" and "o2 + n \<le> length bs"
    and "o2 + n \<le> off \<or> off + length xs \<le> o2"
  shows "bslice (bpatch bs off xs) o2 n = bslice bs o2 n"
  using assms by (intro nth_equalityI) (auto simp: nth_bslice nth_bpatch)

section \<open>Memory\<close>

definition mem_read :: "mem \<Rightarrow> u64 \<Rightarrow> nat \<Rightarrow> u8 list" where
  "mem_read m a n = map (\<lambda>i. m (a + of_nat i)) [0..<n]"

definition mem_write :: "mem \<Rightarrow> u64 \<Rightarrow> u8 list \<Rightarrow> mem" where
  "mem_write m a bs = (\<lambda>b. if unat (b - a) < length bs then bs ! unat (b - a) else m b)"

definition load64 :: "mem \<Rightarrow> u64 \<Rightarrow> u64" where
  "load64 m a = le_word (mem_read m a 8)"

definition store64 :: "mem \<Rightarrow> u64 \<Rightarrow> u64 \<Rightarrow> mem" where
  "store64 m a v = mem_write m a (word_le 8 v)"

lemma length_mem_read [simp]: "length (mem_read m a n) = n"
  by (simp add: mem_read_def)

lemma nth_mem_read [simp]: "i < n \<Longrightarrow> mem_read m a n ! i = m (a + of_nat i)"
  by (simp add: mem_read_def)

lemma unat_less64: "unat (x::u64) < 18446744073709551616"
  by (rule order_less_le_trans [OF unsigned_less]) simp

lemma unat_of_nat64: "i < 2 ^ 64 \<Longrightarrow> unat (of_nat i :: u64) = i"
  by (simp add: unsigned_of_nat take_bit_nat_eq_self)

lemma mem_write_Nil [simp]: "mem_write m a [] = m"
  by (simp add: mem_write_def)

lemma mem_read_write_same [mem_simps]:
  "length bs \<le> 2 ^ 64 \<Longrightarrow> n = length bs \<Longrightarrow> mem_read (mem_write m a bs) a n = bs"
  by (rule nth_equalityI) (auto simp: mem_write_def unat_of_nat64)

lemma mem_read_write_disjoint:
  "(\<And>i. i < n \<Longrightarrow> length bs \<le> unat (a' + of_nat i - a)) \<Longrightarrow>
   mem_read (mem_write m a bs) a' n = mem_read m a' n"
  by (rule nth_equalityI) (auto simp: mem_write_def not_less[symmetric])

lemma load64_store64_same [mem_simps]: "load64 (store64 m a v) a = v"
  by (simp add: load64_def store64_def mem_read_write_same)

lemma load64_cong: "(\<And>i. i < 8 \<Longrightarrow> m (a + of_nat i) = m' (a + of_nat i)) \<Longrightarrow> load64 m a = load64 m' a"
  unfolding load64_def by (rule arg_cong[where f = le_word]) (auto intro!: nth_equalityI)

section \<open>Identities of kernel objects\<close>

text \<open>
  The C code names locks, sleep locks and wait channels by address. Distinct objects have
  distinct addresses, so the addresses are modelled by distinct names.
\<close>

datatype slid = SL_buf nat | SL_inode nat

datatype lockid =
    L_kmem | L_pid | L_proc nat | L_tick | L_bcache | L_sleep slid | L_log | L_icache
  | L_ftable | L_pipe u64 | L_cons | L_uart | L_vdisk | L_pr

datatype chan =
    Ch_proc nat | Ch_ticks | Ch_sleep slid | Ch_log | Ch_pipe_read u64 | Ch_pipe_write u64
  | Ch_cons | Ch_uart | Ch_vdisk_free | Ch_buf nat

section \<open>Outcomes of kernel operations\<close>

text \<open>
  \<open>Done a s\<close> is a normal return, \<open>Panic msg\<close> a call of \<open>panic\<close>, \<open>Switch s\<close> a thread that
  gave up the CPU (in \<open>sched\<close>) with the kernel in state \<open>s\<close>, and \<open>Hang\<close> a loop that is never left.
\<close>

datatype ('a, 's) res = Done 'a 's | Panic string | Switch 's | Hang

fun andthen :: "('a, 's) res \<Rightarrow> ('a \<Rightarrow> 's \<Rightarrow> ('b, 's) res) \<Rightarrow> ('b, 's) res" where
  "andthen (Done a s) f = f a s"
| "andthen (Panic msg) f = Panic msg"
| "andthen (Switch s) f = Switch s"
| "andthen Hang f = Hang"

lemma andthen_assoc: "andthen (andthen m f) g = andthen m (\<lambda>a s. andthen (f a s) g)"
  by (cases m) auto

lemma andthen_Done_right [simp]: "andthen m Done = m"
  by (cases m) auto

lemma andthen_eq_Done [simp]:
  "andthen m f = Done b t \<longleftrightarrow> (\<exists>a s. m = Done a s \<and> f a s = Done b t)"
  by (cases m) auto

lemma andthen_cong [fundef_cong]:
  "m = m' \<Longrightarrow> (\<And>a s. m' = Done a s \<Longrightarrow> f a s = g a s) \<Longrightarrow> andthen m f = andthen m' g"
  by (cases m') auto

text \<open>\<open>returns m Q\<close>: the operation comes back normally, in a state and with a value of \<open>Q\<close>.\<close>

definition returns :: "('a, 's) res \<Rightarrow> ('a \<Rightarrow> 's \<Rightarrow> bool) \<Rightarrow> bool" where
  "returns m Q \<longleftrightarrow> (case m of Done a s \<Rightarrow> Q a s | _ \<Rightarrow> False)"

lemma returns_simps [simp]:
  "returns (Done a s) Q = Q a s"
  "returns (Panic msg) Q = False"
  "returns (Switch s) Q = False"
  "returns Hang Q = False"
  by (simp_all add: returns_def)

lemma returns_andthen [simp]:
  "returns (andthen m f) Q = returns m (\<lambda>a s. returns (f a s) Q)"
  by (cases m) auto

lemma returns_mono: "returns m P \<Longrightarrow> (\<And>a s. P a s \<Longrightarrow> Q a s) \<Longrightarrow> returns m Q"
  by (cases m) auto

lemma returnsE: "returns m Q \<Longrightarrow> (\<And>a s. m = Done a s \<Longrightarrow> Q a s \<Longrightarrow> thesis) \<Longrightarrow> thesis"
  by (cases m) auto

lemma returnsI: "m = Done a s \<Longrightarrow> Q a s \<Longrightarrow> returns m Q"
  by simp

lemma returns_conj: "returns m P \<Longrightarrow> returns m Q \<Longrightarrow> returns m (\<lambda>a s. P a s \<and> Q a s)"
  by (cases m) auto

text \<open>\<open>if_returns m Q\<close>: every normal return satisfies \<open>Q\<close> (partial correctness).\<close>

definition if_returns :: "('a, 's) res \<Rightarrow> ('a \<Rightarrow> 's \<Rightarrow> bool) \<Rightarrow> bool" where
  "if_returns m Q \<longleftrightarrow> (\<forall>a s. m = Done a s \<longrightarrow> Q a s)"

lemma if_returns_simps [simp]:
  "if_returns (Done a s) Q = Q a s"
  "if_returns (Panic msg) Q"
  "if_returns (Switch s) Q"
  "if_returns Hang Q"
  by (simp_all add: if_returns_def)

lemma if_returns_andthen [simp]:
  "if_returns (andthen m f) Q = if_returns m (\<lambda>a s. if_returns (f a s) Q)"
  by (cases m) auto

lemma if_returns_mono: "if_returns m P \<Longrightarrow> (\<And>a s. P a s \<Longrightarrow> Q a s) \<Longrightarrow> if_returns m Q"
  by (cases m) auto

lemma if_returnsD: "if_returns m Q \<Longrightarrow> m = Done a s \<Longrightarrow> Q a s"
  by simp

lemma returns_if_returns: "returns m Q \<Longrightarrow> if_returns m Q"
  by (cases m) auto

end
