(* ===== verification/Riscv.thy ===== *)
theory Riscv
  imports Xv6_Prelude
begin

text \<open>
  The constants and macros of \<open>kernel/param.h\<close>, \<open>kernel/memlayout.h\<close> and \<open>kernel/riscv.h\<close>:
  table sizes, the physical and virtual memory layout, the bits of \<open>sstatus\<close>, and the Sv39 page
  arithmetic (rounding, page-table entries, page-table indices), with the laws of page
  arithmetic that the allocator and the page-table code rest on.
\<close>

section \<open>Table sizes\<close>

definition NPROC :: nat where [simp]: "NPROC = 64"
definition NCPU :: nat where [simp]: "NCPU = 8"
definition NOFILE :: nat where [simp]: "NOFILE = 16"
definition NFILE :: nat where [simp]: "NFILE = 100"
definition NINODE :: nat where [simp]: "NINODE = 50"
definition NDEV :: nat where [simp]: "NDEV = 10"
definition ROOTDEV :: u32 where [simp]: "ROOTDEV = 1"
definition MAXARG :: nat where [simp]: "MAXARG = 32"
definition MAXOPBLOCKS :: nat where [simp]: "MAXOPBLOCKS = 10"
definition LOGSIZE :: nat where [simp]: "LOGSIZE = MAXOPBLOCKS * 3"
definition NBUF :: nat where [simp]: "NBUF = MAXOPBLOCKS * 3"
definition FSSIZE :: nat where [simp]: "FSSIZE = 1000"
definition MAXPATH :: nat where [simp]: "MAXPATH = 128"

section \<open>Pages and page-table entries\<close>

definition PGSIZE :: u64 where [simp]: "PGSIZE = 4096"
definition PGSHIFT :: nat where [simp]: "PGSHIFT = 12"

definition PGROUNDUP :: "u64 \<Rightarrow> u64" where
  "PGROUNDUP sz = (sz + PGSIZE - 1) AND NOT (PGSIZE - 1)"

definition PGROUNDDOWN :: "u64 \<Rightarrow> u64" where
  "PGROUNDDOWN a = a AND NOT (PGSIZE - 1)"

definition PTE_V :: u64 where "PTE_V = push_bit 0 1"
definition PTE_R :: u64 where "PTE_R = push_bit 1 1"
definition PTE_W :: u64 where "PTE_W = push_bit 2 1"
definition PTE_X :: u64 where "PTE_X = push_bit 3 1"
definition PTE_U :: u64 where "PTE_U = push_bit 4 1"

definition PA2PTE :: "u64 \<Rightarrow> u64" where "PA2PTE pa = push_bit 10 (drop_bit 12 pa)"
definition PTE2PA :: "u64 \<Rightarrow> u64" where "PTE2PA pte = push_bit 12 (drop_bit 10 pte)"
definition PTE_FLAGS :: "u64 \<Rightarrow> u64" where "PTE_FLAGS pte = pte AND 0x3FF"

definition PXMASK :: u64 where "PXMASK = 0x1FF"
definition PXSHIFT :: "nat \<Rightarrow> nat" where "PXSHIFT level = PGSHIFT + 9 * level"
definition PX :: "nat \<Rightarrow> u64 \<Rightarrow> u64" where "PX level va = drop_bit (PXSHIFT level) va AND PXMASK"

definition MAXVA :: u64 where "MAXVA = push_bit (9 + 9 + 9 + 12 - 1) 1"

definition SATP_SV39 :: u64 where "SATP_SV39 = push_bit 60 8"
definition MAKE_SATP :: "u64 \<Rightarrow> u64" where "MAKE_SATP pagetable = SATP_SV39 OR drop_bit 12 pagetable"

section \<open>Memory layout\<close>

definition UART0 :: u64 where "UART0 = 0x10000000"
definition UART0_IRQ :: nat where "UART0_IRQ = 10"
definition VIRTIO0 :: u64 where "VIRTIO0 = 0x10001000"
definition VIRTIO0_IRQ :: nat where "VIRTIO0_IRQ = 1"
definition PLIC :: u64 where "PLIC = 0x0c000000"
definition KERNBASE :: u64 where [simp]: "KERNBASE = 0x80000000"
definition PHYSTOP :: u64 where [simp]: "PHYSTOP = KERNBASE + 128 * 1024 * 1024"
definition TRAMPOLINE :: u64 where [simp]: "TRAMPOLINE = MAXVA - PGSIZE"
definition KSTACK :: "nat \<Rightarrow> u64" where "KSTACK p = TRAMPOLINE - of_nat (p + 1) * 2 * PGSIZE"
definition TRAPFRAME :: u64 where [simp]: "TRAPFRAME = TRAMPOLINE - PGSIZE"

section \<open>Supervisor status\<close>

definition SSTATUS_SPP :: u64 where "SSTATUS_SPP = push_bit 8 1"
definition SSTATUS_SPIE :: u64 where "SSTATUS_SPIE = push_bit 5 1"
definition SSTATUS_SIE :: u64 where "SSTATUS_SIE = push_bit 1 1"

section \<open>Page arithmetic\<close>

lemma unat_MAXVA: "va < MAXVA \<longleftrightarrow> unat va < 274877906944"
  by (simp add: MAXVA_def word_less_nat_alt)

lemma PGROUNDDOWN_drop_bit: "PGROUNDDOWN b = push_bit 12 (drop_bit 12 b)"
proof -
  have m: "(4095::u64) = mask 12" by (simp add: mask_eq_exp_minus_1)
  show ?thesis
    by (rule bit_word_eqI) (auto simp: PGROUNDDOWN_def m bit_simps)
qed

lemma unat_push_drop_12:
  "unat (drop_bit 12 b) = x \<Longrightarrow> x * 4096 < 2 ^ 64 \<Longrightarrow>
   unat (push_bit 12 (drop_bit 12 (b::u64))) = x * 4096"
  by (simp add: push_bit_eq_mult unat_word_ariths)

lemma unat_PGROUNDDOWN: "unat (PGROUNDDOWN b) = unat b div 4096 * 4096"
  unfolding PGROUNDDOWN_drop_bit
proof (rule unat_push_drop_12)
  show "unat (drop_bit 12 b) = unat b div 4096"
    by (simp add: drop_bit_eq_div unat_div_distrib)
  have "unat b div 4096 * 4096 \<le> unat b" by (rule div_times_less_eq_dividend)
  moreover have "unat b < 2 ^ 64" using unsigned_less [of b] by simp
  ultimately show "unat b div 4096 * 4096 < 2 ^ 64" by (rule le_less_trans)
qed

definition aligned :: "u64 \<Rightarrow> bool" where
  "aligned p \<longleftrightarrow> p mod 4096 = 0"

lemma unat_aligned: "aligned p \<longleftrightarrow> (\<exists>k. unat p = 4096 * k)"
proof -
  have "aligned p \<longleftrightarrow> p mod 4096 = 0" by (rule aligned_def)
  also have "p mod 4096 = 0 \<longleftrightarrow> unat (p mod 4096) = 0"
    by (simp add: unat_eq_0)
  also have "\<dots> \<longleftrightarrow> unat p mod 4096 = 0"
    by (simp add: unat_mod_distrib)
  finally show ?thesis
    by (auto simp: dvd_def mod_eq_0_iff_dvd)
qed

lemma page_div_iff:
  "4096 * k \<le> b \<Longrightarrow> b - 4096 * k < 4096 \<longleftrightarrow> b div 4096 * 4096 = 4096 * (k::nat)"
proof -
  assume le: "4096 * k \<le> b"
  define q where "q = b div 4096"
  define r where "r = b mod 4096"
  have "b = q * 4096 + r" "r < 4096" by (simp_all add: q_def r_def)
  with le have "b - 4096 * k < 4096 \<longleftrightarrow> q = k" by linarith
  then show ?thesis by (simp add: q_def mult.commute)
qed

lemma page_wrap_iff:
  "\<not> 4096 * k \<le> b \<Longrightarrow> 4096 * k < 18446744073709551616 \<Longrightarrow>
   b + 18446744073709551616 - 4096 * k < 4096 \<longleftrightarrow> b div 4096 * 4096 = 4096 * (k::nat)"
proof -
  assume "\<not> 4096 * k \<le> b" and "4096 * k < 18446744073709551616"
  moreover have "b div 4096 * 4096 \<le> b" by simp
  moreover have "k < 4503599627370496" using calculation by simp
  ultimately show ?thesis by linarith
qed

text \<open>A byte lies in the page at \<open>p\<close> exactly when rounding it down gives \<open>p\<close>.\<close>

lemma in_page_iff:
  assumes "aligned p"
  shows "b - p < 4096 \<longleftrightarrow> PGROUNDDOWN b = p"
proof -
  from unat_aligned [THEN iffD1, OF assms] obtain k where k: "unat p = 4096 * k" ..
  have pk: "4096 * k < 18446744073709551616"
    using k unat_less64 [of p] by simp
  have "b - p < 4096 \<longleftrightarrow> unat (b - p) < 4096"
    by (simp add: word_less_nat_alt)
  also have "\<dots> \<longleftrightarrow> unat b div 4096 * 4096 = unat p"
  proof (cases "unat p \<le> unat b")
    case True
    then have "unat (b - p) = unat b - unat p" by (simp add: unat_sub_if')
    then show ?thesis using True k page_div_iff [of k "unat b"] by simp
  next
    case False
    then have "unat (b - p) = unat b + 18446744073709551616 - unat p" by (simp add: unat_sub_if')
    then show ?thesis using False k pk page_wrap_iff [of k "unat b"] by simp
  qed
  also have "\<dots> \<longleftrightarrow> PGROUNDDOWN b = p"
    by (simp add: word_unat_eq_iff unat_PGROUNDDOWN)
  finally show ?thesis .
qed

lemma PGROUNDDOWN_aligned [simp]: "aligned (PGROUNDDOWN b)"
  by (auto simp: unat_aligned unat_PGROUNDDOWN)

lemma PGROUNDDOWN_of_aligned [simp]: "aligned p \<Longrightarrow> PGROUNDDOWN p = p"
  using in_page_iff [of p p] by simp

lemma PGROUNDDOWN_offset:
  "aligned p \<Longrightarrow> x < 4096 \<Longrightarrow> PGROUNDDOWN (p + x) = p"
  using in_page_iff [of p "p + x"] by simp

lemma PGROUNDUP_PGROUNDDOWN: "PGROUNDUP a = PGROUNDDOWN (a + 4095)"
  by (simp add: PGROUNDUP_def PGROUNDDOWN_def add.commute)

lemma unat_PGROUNDUP:
  assumes "unat a + 4095 < 2 ^ 64"
  shows "unat (PGROUNDUP a) = (unat a + 4095) div 4096 * 4096"
proof -
  have "unat (a + 4095) = unat a + 4095" using assms by (simp add: unat_word_ariths)
  then show ?thesis by (simp add: PGROUNDUP_PGROUNDDOWN unat_PGROUNDDOWN)
qed

lemma aligned_PGROUNDUP [simp]: "aligned (PGROUNDUP a)"
  by (simp add: PGROUNDUP_PGROUNDDOWN)

lemma PGROUNDUP_bounds:
  assumes "unat a + 4095 < 2 ^ 64"
  shows "a \<le> PGROUNDUP a" and "aligned q \<Longrightarrow> a \<le> q \<Longrightarrow> PGROUNDUP a \<le> q"
proof -
  show "a \<le> PGROUNDUP a" using unat_PGROUNDUP [OF assms] by (simp add: word_le_nat_alt)
  show "PGROUNDUP a \<le> q" if "aligned q" "a \<le> q"
    using that unat_PGROUNDUP [OF assms] by (auto simp: word_le_nat_alt unat_aligned)
qed

end
