(* ===== verification/Spinlock.thy ===== *)
theory Spinlock
  imports Riscv
begin

text \<open>
  Spin locks, \<open>kernel/spinlock.c\<close>, at two levels.

  The detailed level is the code: each hart has its \<open>sstatus\<close> register and the \<open>noff\<close> and
  \<open>intena\<close> fields of its \<open>struct cpu\<close>; each lock has the fields of \<open>struct spinlock\<close>. The
  operations are functions of the hart that runs them, and \<open>lock_step\<close> interleaves the
  individual memory operations of \<open>acquire\<close> and \<open>release\<close> of all harts, so that mutual exclusion
  is a statement about every schedule.

  The abstract level is what the rest of the kernel relies on: the set of locks the running hart
  holds and whether interrupts were on before the first of them. \<open>lk_abs\<close> relates the two levels
  and every abstract operation is shown to be implemented by the detailed one. The other theories
  extend the record of the abstract level.
\<close>

section \<open>The detailed level\<close>

record spinlock =
  locked :: bool
  lname :: string
  lcpu :: "nat option"

text \<open>\<open>noff\<close> is a C \<open>int\<close>, kept as an integer: it counts calls of \<open>push_off\<close> that are not undone, and is the number of locks a hart
  holds or is taking (\<open>lock_inv\<close> below), so that it agrees with the C variable as long as there are fewer than \<open>2^31\<close> of them.\<close>

record hart =
  sstatus :: u64
  noff :: int
  intena :: bool

record machine =
  harts :: "nat \<Rightarrow> hart"
  locks :: "lockid \<Rightarrow> spinlock"

abbreviation upd_hart :: "nat \<Rightarrow> (hart \<Rightarrow> hart) \<Rightarrow> machine \<Rightarrow> machine" where
  "upd_hart c f m \<equiv> m\<lparr>harts := (harts m)(c := f (harts m c))\<rparr>"

abbreviation upd_lock :: "lockid \<Rightarrow> (spinlock \<Rightarrow> spinlock) \<Rightarrow> machine \<Rightarrow> machine" where
  "upd_lock l f m \<equiv> m\<lparr>locks := (locks m)(l := f (locks m l))\<rparr>"

definition intr_on :: "nat \<Rightarrow> machine \<Rightarrow> machine" where
  "intr_on c m = upd_hart c (\<lambda>h. h\<lparr>sstatus := sstatus h OR SSTATUS_SIE\<rparr>) m"

definition intr_off :: "nat \<Rightarrow> machine \<Rightarrow> machine" where
  "intr_off c m = upd_hart c (\<lambda>h. h\<lparr>sstatus := sstatus h AND NOT SSTATUS_SIE\<rparr>) m"

definition intr_get :: "nat \<Rightarrow> machine \<Rightarrow> bool" where
  "intr_get c m \<longleftrightarrow> sstatus (harts m c) AND SSTATUS_SIE \<noteq> 0"

definition initlock :: "lockid \<Rightarrow> string \<Rightarrow> machine \<Rightarrow> machine" where
  "initlock l name m = upd_lock l (\<lambda>lk. lk\<lparr>lname := name, locked := False, lcpu := None\<rparr>) m"

definition holding :: "nat \<Rightarrow> lockid \<Rightarrow> machine \<Rightarrow> bool" where
  "holding c l m \<longleftrightarrow> locked (locks m l) \<and> lcpu (locks m l) = Some c"

definition push_off :: "nat \<Rightarrow> machine \<Rightarrow> machine" where
  "push_off c m =
     (let old = intr_get c m;
          m1 = intr_off c m;
          m2 = (if noff (harts m1 c) = 0 then upd_hart c (\<lambda>h. h\<lparr>intena := old\<rparr>) m1 else m1)
      in upd_hart c (\<lambda>h. h\<lparr>noff := noff h + 1\<rparr>) m2)"

definition pop_off :: "nat \<Rightarrow> machine \<Rightarrow> (unit, machine) res" where
  "pop_off c m =
     (if intr_get c m then Panic ''pop_off - interruptible''
      else if noff (harts m c) < 1 then Panic ''pop_off''
      else let m1 = upd_hart c (\<lambda>h. h\<lparr>noff := noff h - 1\<rparr>) m
           in Done () (if noff (harts m1 c) = 0 \<and> intena (harts m1 c) then intr_on c m1 else m1))"

text \<open>
  \<open>acquire\<close> run to completion on one hart. The swap loop is left only when the lock is free; on a
  lock that another hart keeps, it spins for ever.
\<close>

definition acquire_lk :: "nat \<Rightarrow> lockid \<Rightarrow> machine \<Rightarrow> (unit, machine) res" where
  "acquire_lk c l m =
     (let m1 = push_off c m
      in if holding c l m1 then Panic ''acquire''
         else if locked (locks m1 l) then Hang
         else Done () (upd_lock l (\<lambda>lk. lk\<lparr>lcpu := Some c\<rparr>)
                        (upd_lock l (\<lambda>lk. lk\<lparr>locked := True\<rparr>) m1)))"

definition release_lk :: "nat \<Rightarrow> lockid \<Rightarrow> machine \<Rightarrow> (unit, machine) res" where
  "release_lk c l m =
     (if \<not> holding c l m then Panic ''release''
      else pop_off c (upd_lock l (\<lambda>lk. lk\<lparr>locked := False\<rparr>)
                       (upd_lock l (\<lambda>lk. lk\<lparr>lcpu := None\<rparr>) m)))"

section \<open>Interrupt bookkeeping\<close>

lemma SSTATUS_SIE_bit: "x AND SSTATUS_SIE \<noteq> 0 \<longleftrightarrow> bit x 1"
  using and_exp_eq_0_iff_not_bit [of x 1] by (simp add: SSTATUS_SIE_def)

lemma intr_get_bit: "intr_get c m \<longleftrightarrow> bit (sstatus (harts m c)) 1"
  by (simp add: intr_get_def SSTATUS_SIE_bit)

lemma intr_get_off [simp]: "intr_get d (intr_off c m) \<longleftrightarrow> d \<noteq> c \<and> intr_get d m"
  by (auto simp: intr_get_bit intr_off_def SSTATUS_SIE_def bit_simps)

lemma intr_get_on [simp]: "intr_get d (intr_on c m) \<longleftrightarrow> d = c \<or> intr_get d m"
  by (auto simp: intr_get_bit intr_on_def SSTATUS_SIE_def bit_simps)

lemma sie_or_and: "bit x 1 \<Longrightarrow> x AND NOT SSTATUS_SIE OR SSTATUS_SIE = x"
  by (rule bit_word_eqI) (auto simp: SSTATUS_SIE_def bit_simps)

lemma sie_and: "\<not> bit x 1 \<Longrightarrow> x AND NOT SSTATUS_SIE = x"
  by (rule bit_word_eqI) (auto simp: SSTATUS_SIE_def bit_simps)

lemma intr_frame [simp]:
  "locks (intr_on c m) = locks m" "locks (intr_off c m) = locks m"
  "noff (harts (intr_on c m) d) = noff (harts m d)"
  "noff (harts (intr_off c m) d) = noff (harts m d)"
  "intena (harts (intr_on c m) d) = intena (harts m d)"
  "intena (harts (intr_off c m) d) = intena (harts m d)"
  by (simp_all add: intr_on_def intr_off_def)

lemma push_off_frame [simp]:
  "locks (push_off c m) = locks m"
  "noff (harts (push_off c m) d) = noff (harts m d) + (if d = c then 1 else 0)"
  "intr_get d (push_off c m) \<longleftrightarrow> d \<noteq> c \<and> intr_get d m"
  "intena (harts (push_off c m) d) =
     (if d = c \<and> noff (harts m c) = 0 then intr_get c m else intena (harts m d))"
  by (auto simp: push_off_def Let_def intr_get_bit intr_off_def SSTATUS_SIE_def bit_simps)

lemma holding_push_off [simp]: "holding d l (push_off c m) = holding d l m"
  by (simp add: holding_def)

lemma pop_off_ok:
  assumes "\<not> intr_get c m" and "1 \<le> noff (harts m c)"
  shows "\<exists>m'. pop_off c m = Done () m' \<and> locks m' = locks m
    \<and> (\<forall>d. noff (harts m' d) = noff (harts m d) - (if d = c then 1 else 0))
    \<and> (\<forall>d. intena (harts m' d) = intena (harts m d))
    \<and> (\<forall>d. intr_get d m' \<longleftrightarrow>
          (if d = c then noff (harts m c) = 1 \<and> intena (harts m c) else intr_get d m))"
  using assms by (auto simp: pop_off_def Let_def intr_get_bit intr_on_def SSTATUS_SIE_def bit_simps)

fun pop_offs :: "nat \<Rightarrow> nat \<Rightarrow> machine \<Rightarrow> (unit, machine) res" where
  "pop_offs c 0 m = Done () m"
| "pop_offs c (Suc k) m = andthen (pop_off c m) (\<lambda>_ m'. pop_offs c k m')"

text \<open>The state of a hart with \<open>j\<close> pending calls of \<open>push_off\<close> that started from \<open>m\<close>.\<close>

definition pushed :: "nat \<Rightarrow> machine \<Rightarrow> nat \<Rightarrow> machine \<Rightarrow> bool" where
  "pushed c m j m' \<longleftrightarrow> noff (harts m' c) = int j \<and>
     (if j = 0 then sstatus (harts m' c) = sstatus (harts m c)
      else sstatus (harts m' c) = sstatus (harts m c) AND NOT SSTATUS_SIE
           \<and> intena (harts m' c) = intr_get c m)"

lemma pushed_push_off:
  "pushed c m j m' \<Longrightarrow> pushed c m (Suc j) (push_off c m')"
  by (auto simp: pushed_def push_off_def Let_def intr_off_def intr_get_def)

lemma pushed_pop_off:
  assumes "pushed c m (Suc j) m'"
  shows "returns (pop_off c m') (\<lambda>_ m''. pushed c m j m'')"
proof -
  have s: "sstatus (harts m' c) = sstatus (harts m c) AND NOT SSTATUS_SIE"
    and i: "intena (harts m' c) = intr_get c m" and n: "noff (harts m' c) = int j + 1"
    using assms by (auto simp: pushed_def)
  have off: "\<not> intr_get c m'"
    by (simp add: intr_get_bit s SSTATUS_SIE_def bit_simps)
  show ?thesis
    using off by (auto simp: pop_off_def Let_def pushed_def n s i intr_on_def intr_get_bit
        sie_or_and sie_and)
qed

lemma pushed_pushes: "noff (harts m c) = 0 \<Longrightarrow> pushed c m n ((push_off c ^^ n) m)"
  by (induction n) (auto simp: pushed_push_off, simp add: pushed_def)

lemma pushed_pops:
  "pushed c m n m' \<Longrightarrow> k \<le> n \<Longrightarrow> returns (pop_offs c k m') (\<lambda>_ m''. pushed c m (n - k) m'')"
proof (induction k arbitrary: n m')
  case (Suc k)
  then obtain j where j: "n = Suc j" by (cases n) auto
  from Suc.prems(1) have "returns (pop_off c m') (\<lambda>_ m''. pushed c m j m'')"
    unfolding j by (rule pushed_pop_off)
  then show ?case
    using Suc.IH Suc.prems(2) j by (auto elim!: returns_mono)
qed simp

text \<open>C37: \<open>push_off\<close> and \<open>pop_off\<close> are matched. After \<open>n\<close> calls of \<open>push_off\<close> from a state with
  none pending, with \<open>n\<close> below \<open>2^31\<close> so that \<open>noff\<close> fits in its C \<open>int\<close> all along, any \<open>k \<le> n\<close> calls of \<open>pop_off\<close> return
  without a panic; interrupts stay off until the last of them, which gives back the \<open>sstatus\<close>
  register of the start, so interrupts are on again exactly if they were on at the start.\<close>

theorem push_pop_matched:
  assumes "noff (harts m c) = 0" and "k \<le> n" and "n < 2 ^ 31"
  shows "(\<forall>j\<le>n. 0 \<le> noff (harts ((push_off c ^^ j) m) c) \<and> noff (harts ((push_off c ^^ j) m) c) < 2 ^ 31)
    \<and> returns (pop_offs c k ((push_off c ^^ n) m))
    (\<lambda>_ m'. noff (harts m' c) = int (n - k) \<and>
       (if k = n then sstatus (harts m' c) = sstatus (harts m c) else \<not> intr_get c m'))"
proof
  have "noff (harts ((push_off c ^^ j) m) c) = int j" for j
    using pushed_pushes [OF assms(1), of j] by (simp add: pushed_def)
  then show "\<forall>j\<le>n. 0 \<le> noff (harts ((push_off c ^^ j) m) c) \<and> noff (harts ((push_off c ^^ j) m) c) < 2 ^ 31"
    using assms(3) by auto
  show "returns (pop_offs c k ((push_off c ^^ n) m)) (\<lambda>_ m'. noff (harts m' c) = int (n - k) \<and>
       (if k = n then sstatus (harts m' c) = sstatus (harts m c) else \<not> intr_get c m'))"
  proof (rule returns_mono [OF pushed_pops [OF pushed_pushes [OF assms(1)] assms(2)]])
    fix m'
    assume "pushed c m (n - k) m'"
    then show "noff (harts m' c) = int (n - k) \<and>
        (if k = n then sstatus (harts m' c) = sstatus (harts m c) else \<not> intr_get c m')"
      using assms(2)
      by (auto simp: pushed_def intr_get_bit SSTATUS_SIE_def bit_simps split: if_splits)
  qed
qed

definition example_machine :: machine where
  "example_machine = \<lparr>harts = (\<lambda>_. \<lparr>sstatus = 2, noff = 0, intena = False\<rparr>),
     locks = (\<lambda>_. \<lparr>locked = False, lname = [], lcpu = None\<rparr>)\<rparr>"

theorem push_pop_matched_witness:
  "noff (harts example_machine 0) = 0 \<and>
   returns (pop_offs 0 3 ((push_off 0 ^^ 3) example_machine))
     (\<lambda>_ m'. noff (harts m' 0) = int (3 - 3) \<and>
        (if (3::nat) = 3 then sstatus (harts m' 0) = sstatus (harts example_machine 0)
         else \<not> intr_get 0 m'))"
proof -
  have "noff (harts example_machine 0) = 0" by (simp add: example_machine_def)
  then show ?thesis using push_pop_matched [of example_machine 0 3 3] by simp
qed

section \<open>All harts: interleaving and mutual exclusion\<close>

text \<open>
  Where each hart is inside \<open>acquire\<close> or \<open>release\<close>: spinning on the swap, past the swap but
  before \<open>lk->cpu\<close> is set, between clearing \<open>lk->cpu\<close> and clearing \<open>lk->locked\<close>, or about to
  call \<open>pop_off\<close>. \<open>crit c\<close> are the locks for which hart \<open>c\<close> has returned from \<open>acquire\<close> and has
  not yet called \<open>release\<close>.
\<close>

datatype lockpc = Out | Spinning lockid | Swapped lockid | Clearing lockid | Popping

record sys =
  mach :: machine
  pc :: "nat \<Rightarrow> lockpc"
  crit :: "nat \<Rightarrow> lockid set"

definition boot_sys :: "sys \<Rightarrow> bool" where
  "boot_sys s \<longleftrightarrow> (\<forall>c. pc s c = Out \<and> crit s c = {} \<and> noff (harts (mach s) c) = 0)
     \<and> (\<forall>l. \<not> locked (locks (mach s) l) \<and> lcpu (locks (mach s) l) = None)"

inductive lock_step :: "sys \<Rightarrow> sys \<Rightarrow> bool" where
  enter: "pc s c = Out \<Longrightarrow> m = push_off c (mach s) \<Longrightarrow> \<not> holding c l m \<Longrightarrow>
    lock_step s (s\<lparr>mach := m, pc := (pc s)(c := Spinning l)\<rparr>)"
| spin: "pc s c = Spinning l \<Longrightarrow> locked (locks (mach s) l) \<Longrightarrow> lock_step s s"
| swap: "pc s c = Spinning l \<Longrightarrow> \<not> locked (locks (mach s) l) \<Longrightarrow>
    lock_step s (s\<lparr>mach := upd_lock l (\<lambda>lk. lk\<lparr>locked := True\<rparr>) (mach s),
                   pc := (pc s)(c := Swapped l)\<rparr>)"
| set_cpu: "pc s c = Swapped l \<Longrightarrow>
    lock_step s (s\<lparr>mach := upd_lock l (\<lambda>lk. lk\<lparr>lcpu := Some c\<rparr>) (mach s),
                   pc := (pc s)(c := Out), crit := (crit s)(c := insert l (crit s c))\<rparr>)"
| begin_release: "pc s c = Out \<Longrightarrow> holding c l (mach s) \<Longrightarrow>
    lock_step s (s\<lparr>mach := upd_lock l (\<lambda>lk. lk\<lparr>lcpu := None\<rparr>) (mach s),
                   pc := (pc s)(c := Clearing l), crit := (crit s)(c := crit s c - {l})\<rparr>)"
| clear: "pc s c = Clearing l \<Longrightarrow>
    lock_step s (s\<lparr>mach := upd_lock l (\<lambda>lk. lk\<lparr>locked := False\<rparr>) (mach s),
                   pc := (pc s)(c := Popping)\<rparr>)"
| pop: "pc s c = Popping \<Longrightarrow> pop_off c (mach s) = Done () m \<Longrightarrow>
    lock_step s (s\<lparr>mach := m, pc := (pc s)(c := Out)\<rparr>)"

inductive lock_reachable :: "sys \<Rightarrow> bool" where
  boot: "boot_sys s \<Longrightarrow> lock_reachable s"
| step: "lock_reachable s \<Longrightarrow> lock_step s t \<Longrightarrow> lock_reachable t"

text \<open>Hart \<open>c\<close> is the one whose swap took lock \<open>l\<close> and has not been undone.\<close>

definition owns :: "sys \<Rightarrow> nat \<Rightarrow> lockid \<Rightarrow> bool" where
  "owns s c l \<longleftrightarrow> l \<in> crit s c \<or> pc s c = Swapped l \<or> pc s c = Clearing l"

definition pending :: "lockpc \<Rightarrow> nat" where
  "pending p = (if p = Out then 0 else 1)"

definition lock_inv :: "sys \<Rightarrow> bool" where
  "lock_inv s \<longleftrightarrow>
     (\<forall>l c. owns s c l \<longrightarrow> locked (locks (mach s) l))
     \<and> (\<forall>l c d. owns s c l \<longrightarrow> owns s d l \<longrightarrow> c = d)
     \<and> (\<forall>l c. lcpu (locks (mach s) l) = Some c \<longleftrightarrow> l \<in> crit s c)
     \<and> (\<forall>c l. pc s c = Swapped l \<or> pc s c = Clearing l \<longrightarrow> l \<notin> crit s c)
     \<and> (\<forall>c. finite (crit s c) \<and> noff (harts (mach s) c) = int (card (crit s c) + pending (pc s c)))
     \<and> (\<forall>c. 0 < noff (harts (mach s) c) \<longrightarrow> \<not> intr_get c (mach s))"

lemma lock_inv_boot: "boot_sys s \<Longrightarrow> lock_inv s"
  by (simp add: boot_sys_def lock_inv_def owns_def pending_def)

named_theorems lock_inv_simps \<open>unfolding of the lock invariant\<close>

lemmas [lock_inv_simps] = lock_inv_def owns_def pending_def intr_get_def holding_def

lemma lock_inv_enter:
  "lock_inv s \<Longrightarrow> pc s c = Out \<Longrightarrow>
   lock_inv (s\<lparr>mach := push_off c (mach s), pc := (pc s)(c := Spinning l)\<rparr>)"
  by (auto simp: lock_inv_def owns_def pending_def)

lemma lock_inv_swap:
  "lock_inv s \<Longrightarrow> pc s c = Spinning l \<Longrightarrow> \<not> locked (locks (mach s) l) \<Longrightarrow>
   lock_inv (s\<lparr>mach := upd_lock l (\<lambda>lk. lk\<lparr>locked := True\<rparr>) (mach s),
               pc := (pc s)(c := Swapped l)\<rparr>)"
  by (auto simp: lock_inv_simps)

lemma lock_inv_set_cpu:
  "lock_inv s \<Longrightarrow> pc s c = Swapped l \<Longrightarrow>
   lock_inv (s\<lparr>mach := upd_lock l (\<lambda>lk. lk\<lparr>lcpu := Some c\<rparr>) (mach s),
               pc := (pc s)(c := Out), crit := (crit s)(c := insert l (crit s c))\<rparr>)"
  by (auto simp: lock_inv_simps)

lemma lock_inv_begin_release:
  assumes "lock_inv s" and "pc s c = Out" and "holding c l (mach s)"
  shows "lock_inv (s\<lparr>mach := upd_lock l (\<lambda>lk. lk\<lparr>lcpu := None\<rparr>) (mach s),
                     pc := (pc s)(c := Clearing l), crit := (crit s)(c := crit s c - {l})\<rparr>)"
proof -
  have "finite (crit s c)" and "l \<in> crit s c"
    using assms by (auto simp: lock_inv_def holding_def)
  then have "0 < card (crit s c)" by (auto simp: card_gt_0_iff)
  then show ?thesis using assms by (auto simp: lock_inv_simps)
qed

lemma lock_inv_clear:
  "lock_inv s \<Longrightarrow> pc s c = Clearing l \<Longrightarrow>
   lock_inv (s\<lparr>mach := upd_lock l (\<lambda>lk. lk\<lparr>locked := False\<rparr>) (mach s),
               pc := (pc s)(c := Popping)\<rparr>)"
  by (auto simp: lock_inv_simps)

lemma lock_inv_pop:
  "lock_inv s \<Longrightarrow> pc s c = Popping \<Longrightarrow> pop_off c (mach s) = Done () m \<Longrightarrow>
   lock_inv (s\<lparr>mach := m, pc := (pc s)(c := Out)\<rparr>)"
  using pop_off_ok [of c "mach s"] by (auto simp: lock_inv_def owns_def pending_def)

lemma lock_step_inv: "lock_step s t \<Longrightarrow> lock_inv s \<Longrightarrow> lock_inv t"
  by (induction rule: lock_step.induct)
     (auto intro: lock_inv_enter lock_inv_swap lock_inv_set_cpu lock_inv_begin_release
        lock_inv_clear lock_inv_pop)

lemma lock_reachable_inv: "lock_reachable s \<Longrightarrow> lock_inv s"
  by (induction rule: lock_reachable.induct) (auto intro: lock_inv_boot lock_step_inv)

text \<open>A run of hart 0 that takes and gives back one lock, for the witnesses.\<close>

definition run0 :: sys where
  "run0 = \<lparr>mach = example_machine, pc = (\<lambda>_. Out), crit = (\<lambda>_. {})\<rparr>"

definition run1 :: sys where
  "run1 = run0\<lparr>mach := push_off 0 (mach run0), pc := (pc run0)(0 := Spinning L_kmem)\<rparr>"

definition run2 :: sys where
  "run2 = run1\<lparr>mach := upd_lock L_kmem (\<lambda>lk. lk\<lparr>locked := True\<rparr>) (mach run1),
               pc := (pc run1)(0 := Swapped L_kmem)\<rparr>"

definition run3 :: sys where
  "run3 = run2\<lparr>mach := upd_lock L_kmem (\<lambda>lk. lk\<lparr>lcpu := Some 0\<rparr>) (mach run2),
               pc := (pc run2)(0 := Out), crit := (crit run2)(0 := insert L_kmem (crit run2 0))\<rparr>"

definition run4 :: sys where
  "run4 = run3\<lparr>mach := upd_lock L_kmem (\<lambda>lk. lk\<lparr>lcpu := None\<rparr>) (mach run3),
               pc := (pc run3)(0 := Clearing L_kmem), crit := (crit run3)(0 := crit run3 0 - {L_kmem})\<rparr>"

definition run5 :: sys where
  "run5 = run4\<lparr>mach := upd_lock L_kmem (\<lambda>lk. lk\<lparr>locked := False\<rparr>) (mach run4),
               pc := (pc run4)(0 := Popping)\<rparr>"

lemma run0_reachable: "lock_reachable run0"
  by (rule lock_reachable.boot) (simp add: boot_sys_def run0_def example_machine_def)

lemma run1_reachable: "lock_reachable run1"
  by (rule lock_reachable.step [OF run0_reachable], unfold run1_def, rule lock_step.enter)
     (simp_all add: run0_def example_machine_def holding_def)

lemma run2_reachable: "lock_reachable run2"
  by (rule lock_reachable.step [OF run1_reachable], unfold run2_def, rule lock_step.swap)
     (simp_all add: run1_def run0_def example_machine_def)

lemma run3_reachable: "lock_reachable run3"
  by (rule lock_reachable.step [OF run2_reachable], unfold run3_def, rule lock_step.set_cpu)
     (simp add: run2_def)

lemma run4_reachable: "lock_reachable run4"
  by (rule lock_reachable.step [OF run3_reachable], unfold run4_def, rule lock_step.begin_release)
     (simp_all add: run3_def run2_def holding_def)

lemma run5_reachable: "lock_reachable run5"
  by (rule lock_reachable.step [OF run4_reachable], unfold run5_def, rule lock_step.clear)
     (simp add: run4_def)

text \<open>C27: Mutual exclusion. In every state that any interleaving of the harts reaches, two harts that
  are both between the return of \<open>acquire\<close> and the call of \<open>release\<close> for the same lock are the
  same hart, and while a hart is inside such a section its interrupts are off.\<close>

theorem mutual_exclusion:
  assumes "lock_reachable s" and "l \<in> crit s c"
  shows "(\<forall>d. l \<in> crit s d \<longrightarrow> d = c) \<and> \<not> intr_get c (mach s) \<and> holding c l (mach s)"
proof -
  have inv: "lock_inv s" using assms(1) by (rule lock_reachable_inv)
  have "card (crit s c) \<noteq> 0" using inv assms(2) by (auto simp: lock_inv_def)
  then have "0 < noff (harts (mach s) c)" using inv by (simp add: lock_inv_def)
  then show ?thesis using inv assms(2) by (auto simp: lock_inv_def owns_def holding_def)
qed

theorem mutual_exclusion_witness:
  "lock_reachable run3 \<and> L_kmem \<in> crit run3 0 \<and> \<not> intr_get 0 (mach run3)
     \<and> holding 0 L_kmem (mach run3)"
  using mutual_exclusion [OF run3_reachable, of L_kmem 0] run3_reachable
  by (simp add: run3_def)

text \<open>C38: The code of \<open>release\<close> never trips over its own bookkeeping: in every reachable state, a hart
  that has cleared the lock and is about to call \<open>pop_off\<close> returns from it without a panic.\<close>

theorem release_pop_off_no_panic:
  assumes "lock_reachable s" and "pc s c = Popping"
  shows "\<exists>m. pop_off c (mach s) = Done () m \<and> noff (harts m c) = int (card (crit s c))"
proof -
  have "lock_inv s" using assms(1) by (rule lock_reachable_inv)
  then have "\<not> intr_get c (mach s)" and n: "noff (harts (mach s) c) = int (card (crit s c)) + 1"
    using assms(2) by (auto simp: lock_inv_def pending_def)
  then show ?thesis using pop_off_ok [of c "mach s"] by auto
qed

theorem release_pop_off_no_panic_witness:
  "lock_reachable run5 \<and> pc run5 0 = Popping \<and>
   (\<exists>m. pop_off 0 (mach run5) = Done () m \<and> noff (harts m 0) = int (card (crit run5 0)))"
  using release_pop_off_no_panic [OF run5_reachable, of 0] run5_reachable
  by (simp add: run5_def)

section \<open>The abstract level\<close>

text \<open>
  What the rest of the kernel sees of spin locks: the locks the running hart holds, and whether
  interrupts are enabled when it holds none. The kernel state of every other theory extends this
  record. A critical section of the code runs without interleaving here; \<open>mutual_exclusion\<close> is
  what justifies it.
\<close>

record lk_state =
  held :: "lockid set"
  ien :: bool

definition acquire :: "lockid \<Rightarrow> 'a lk_state_scheme \<Rightarrow> (unit, 'a lk_state_scheme) res" where
  "acquire l s = (if l \<in> held s then Panic ''acquire'' else Done () (s\<lparr>held := insert l (held s)\<rparr>))"

definition release :: "lockid \<Rightarrow> 'a lk_state_scheme \<Rightarrow> (unit, 'a lk_state_scheme) res" where
  "release l s = (if l \<in> held s then Done () (s\<lparr>held := held s - {l}\<rparr>) else Panic ''release'')"

definition intr_enabled :: "'a lk_state_scheme \<Rightarrow> bool" where
  "intr_enabled s \<longleftrightarrow> held s = {} \<and> ien s"

text \<open>Hart \<open>c\<close> of the detailed machine \<open>m\<close> implements the abstract state \<open>s\<close>.\<close>

definition lk_abs :: "nat \<Rightarrow> machine \<Rightarrow> 'a lk_state_scheme \<Rightarrow> bool" where
  "lk_abs c m s \<longleftrightarrow> finite (held s) \<and> noff (harts m c) = int (card (held s))
     \<and> (\<forall>l. holding c l m \<longleftrightarrow> l \<in> held s)
     \<and> (intr_get c m \<longleftrightarrow> intr_enabled s)
     \<and> (held s \<noteq> {} \<longrightarrow> intena (harts m c) = ien s)"

text \<open>
  The contract of a lock implementation, and what its clients get from it. \<open>good\<close> is the
  implementation's invariant, \<open>free l\<close> says that no other hart has the lock.
\<close>

locale lock_contract =
  fixes good :: "'s \<Rightarrow> bool" and free :: "lockid \<Rightarrow> 's \<Rightarrow> bool" and mine :: "'s \<Rightarrow> lockid set"
    and acq rel :: "lockid \<Rightarrow> 's \<Rightarrow> (unit, 's) res"
  assumes acq_ok: "good s \<Longrightarrow> l \<notin> mine s \<Longrightarrow> free l s \<Longrightarrow>
      returns (acq l s) (\<lambda>_ t. good t \<and> mine t = insert l (mine s))"
    and acq_again: "good s \<Longrightarrow> l \<in> mine s \<Longrightarrow> acq l s = Panic ''acquire''"
    and rel_ok: "good s \<Longrightarrow> l \<in> mine s \<Longrightarrow>
      returns (rel l s) (\<lambda>_ t. good t \<and> mine t = mine s - {l} \<and> free l t)"
    and rel_none: "good s \<Longrightarrow> l \<notin> mine s \<Longrightarrow> rel l s = Panic ''release''"
begin

lemma section_restores:
  assumes "good s" and "l \<notin> mine s" and "free l s"
  shows "returns (andthen (acq l s) (\<lambda>_ t. rel l t)) (\<lambda>_ t. good t \<and> mine t = mine s \<and> free l t)"
proof -
  obtain t where t: "acq l s = Done () t" "good t" "mine t = insert l (mine s)"
    using acq_ok [OF assms] by (auto elim: returnsE)
  then have "returns (rel l t) (\<lambda>_ u. good u \<and> mine u = mine t - {l} \<and> free l u)"
    by (intro rel_ok) auto
  then show ?thesis using assms(2) by (simp add: t)
qed

lemma double_acquire_panics:
  assumes "good s" and "l \<notin> mine s" and "free l s"
  shows "andthen (acq l s) (\<lambda>_ t. acq l t) = Panic ''acquire''"
  using acq_ok [OF assms] by (auto elim!: returnsE simp: acq_again)

end

interpretation abs_lock: lock_contract "\<lambda>_. True" "\<lambda>_ _. True" held acquire release
  by unfold_locales (auto simp: acquire_def release_def)

text \<open>The detailed operations on hart \<open>c\<close>, as long as its bookkeeping is consistent.\<close>

definition hart_ok :: "nat \<Rightarrow> machine \<Rightarrow> bool" where
  "hart_ok c m \<longleftrightarrow> finite {l. holding c l m} \<and> noff (harts m c) = int (card {l. holding c l m})
     \<and> ({l. holding c l m} \<noteq> {} \<longrightarrow> \<not> intr_get c m)"

lemma lk_abs_holding: "lk_abs c m s \<Longrightarrow> {l. holding c l m} = held s"
  by (auto simp: lk_abs_def)

lemma lk_abs_hart_ok: "lk_abs c m s \<Longrightarrow> hart_ok c m"
  using lk_abs_holding [of c m s] by (auto simp: hart_ok_def lk_abs_def intr_enabled_def)

lemma intr_get_locks [simp]: "intr_get d (m\<lparr>locks := x\<rparr>) = intr_get d m"
  by (simp add: intr_get_def)

lemma acquire_lk_refines:
  assumes "lk_abs c m s" and "\<not> locked (locks m l)"
  shows "\<exists>m'. acquire_lk c l m = Done () m' \<and> lk_abs c m' (s\<lparr>held := insert l (held s)\<rparr>)"
proof -
  have "\<not> holding c l m" "l \<notin> held s"
    using assms by (auto simp: lk_abs_def holding_def)
  then show ?thesis
    using assms by (auto simp: acquire_lk_def Let_def lk_abs_def holding_def intr_enabled_def)
qed

lemma release_lk_refines:
  assumes "lk_abs c m s" and "l \<in> held s"
  shows "\<exists>m'. release_lk c l m = Done () m' \<and> lk_abs c m' (s\<lparr>held := held s - {l}\<rparr>)
           \<and> \<not> locked (locks m' l)"
proof -
  define m1 where "m1 = upd_lock l (\<lambda>lk. lk\<lparr>locked := False\<rparr>) (upd_lock l (\<lambda>lk. lk\<lparr>lcpu := None\<rparr>) m)"
  have pos: "0 < card (held s)" using assms by (auto simp: lk_abs_def card_gt_0_iff)
  then have n: "int (card (held s) - 1) = int (card (held s)) - 1" by auto
  have "\<not> intr_get c m1" "1 \<le> noff (harts m1 c)"
    using assms pos by (auto simp: lk_abs_def m1_def intr_enabled_def)
  from pop_off_ok [OF this] obtain m' where m': "pop_off c m1 = Done () m'" "locks m' = locks m1"
    "noff (harts m' c) = noff (harts m c) - 1" "intena (harts m' c) = intena (harts m c)"
    "intr_get c m' \<longleftrightarrow> noff (harts m c) = 1 \<and> intena (harts m c)"
    by (auto simp: m1_def)
  have "card (held s) = 1 \<longleftrightarrow> held s - {l} = {}"
    using assms by (auto simp: card_1_singleton_iff lk_abs_def)
  then have "lk_abs c m' (s\<lparr>held := held s - {l}\<rparr>)"
    using assms n m' by (auto simp: lk_abs_def holding_def m1_def intr_enabled_def)
  moreover have "release_lk c l m = pop_off c m1"
    using assms by (simp add: release_lk_def m1_def lk_abs_def)
  moreover have "\<not> locked (locks m' l)"
    by (simp add: m'(2)) (simp add: m1_def)
  ultimately show ?thesis using m'(1) by simp
qed

text \<open>Any hart with consistent bookkeeping is related to the abstract state read off its locks.\<close>

definition lk_of :: "nat \<Rightarrow> machine \<Rightarrow> lk_state" where
  "lk_of c m = \<lparr>held = {l. holding c l m},
     ien = (if noff (harts m c) = 0 then intr_get c m else intena (harts m c))\<rparr>"

lemma lk_abs_lk_of: "hart_ok c m \<Longrightarrow> lk_abs c m (lk_of c m)"
  by (auto simp: hart_ok_def lk_abs_def lk_of_def intr_enabled_def)

lemma acquire_lk_again: "lk_abs c m s \<Longrightarrow> l \<in> held s \<Longrightarrow> acquire_lk c l m = Panic ''acquire''"
  by (auto simp: acquire_lk_def Let_def lk_abs_def)

lemma release_lk_none: "lk_abs c m s \<Longrightarrow> l \<notin> held s \<Longrightarrow> release_lk c l m = Panic ''release''"
  by (auto simp: release_lk_def lk_abs_def)

interpretation hart_lock: lock_contract "hart_ok c" "\<lambda>l m. \<not> locked (locks m l)"
  "\<lambda>m. {l. holding c l m}" "acquire_lk c" "release_lk c" for c
proof unfold_locales
  fix s :: machine and l
  assume ok: "hart_ok c s"
  have h: "held (lk_of c s) = {l. holding c l s}" by (simp add: lk_of_def)
  note abs = lk_abs_lk_of [OF ok]
  { assume "\<not> locked (locks s l)"
    from acquire_lk_refines [OF abs this] obtain m' where
      m': "acquire_lk c l s = Done () m'" "lk_abs c m' (lk_of c s\<lparr>held := insert l (held (lk_of c s))\<rparr>)"
      by blast
    show "returns (acquire_lk c l s)
        (\<lambda>_ t. hart_ok c t \<and> {la. holding c la t} = insert l {l. holding c l s})"
      using h m'(1) lk_abs_hart_ok [OF m'(2)] lk_abs_holding [OF m'(2)] by simp }
  { assume "l \<in> {l. holding c l s}"
    then show "acquire_lk c l s = Panic ''acquire''" using acquire_lk_again [OF abs] h by simp }
  { assume "l \<in> {l. holding c l s}"
    then have "l \<in> held (lk_of c s)" using h by simp
    from release_lk_refines [OF abs this] obtain m' where
      m': "release_lk c l s = Done () m'" "lk_abs c m' (lk_of c s\<lparr>held := held (lk_of c s) - {l}\<rparr>)"
        "\<not> locked (locks m' l)"
      by blast
    show "returns (release_lk c l s)
        (\<lambda>_ t. hart_ok c t \<and> {la. holding c la t} = {l. holding c l s} - {l} \<and> \<not> locked (locks t l))"
      using h m'(1,3) lk_abs_hart_ok [OF m'(2)] lk_abs_holding [OF m'(2)] by simp }
  { assume "l \<notin> {l. holding c l s}"
    then show "release_lk c l s = Panic ''release''" using release_lk_none [OF abs] h by simp }
qed

text \<open>C31: The detailed spin locks implement the abstract ones. From related states, an abstract
  \<open>acquire\<close> or \<open>release\<close> that returns is matched by the code, which returns in a related state,
  provided no other hart has the lock; and the code panics whenever the abstract operation
  does, with the same message.\<close>

theorem spinlock_refinement:
  assumes "lk_abs c m s" and "l \<in> held s \<or> \<not> locked (locks m l)"
  shows "(case acquire l s of
            Done _ s' \<Rightarrow> \<exists>m'. acquire_lk c l m = Done () m' \<and> lk_abs c m' s'
          | Panic msg \<Rightarrow> acquire_lk c l m = Panic msg | _ \<Rightarrow> False)
       \<and> (case release l s of
            Done _ s' \<Rightarrow> \<exists>m'. release_lk c l m = Done () m' \<and> lk_abs c m' s'
          | Panic msg \<Rightarrow> release_lk c l m = Panic msg | _ \<Rightarrow> False)"
proof (cases "l \<in> held s")
  case True
  then show ?thesis
    using assms(1) release_lk_refines [OF assms(1) True]
    by (auto simp: acquire_def release_def acquire_lk_again)
next
  case False
  then have "\<not> locked (locks m l)" using assms(2) by simp
  from acquire_lk_refines [OF assms(1) this] show ?thesis
    using assms(1) False by (auto simp: acquire_def release_def release_lk_none)
qed

theorem spinlock_refinement_witness:
  "lk_abs 0 example_machine (lk_of 0 example_machine) \<and> \<not> locked (locks example_machine L_log) \<and>
   (case acquire L_log (lk_of 0 example_machine) of
      Done _ s' \<Rightarrow> \<exists>m'. acquire_lk 0 L_log example_machine = Done () m' \<and> lk_abs 0 m' s'
    | Panic msg \<Rightarrow> acquire_lk 0 L_log example_machine = Panic msg | _ \<Rightarrow> False)"
proof -
  have "hart_ok 0 example_machine" by (simp add: hart_ok_def holding_def example_machine_def)
  then have a: "lk_abs 0 example_machine (lk_of 0 example_machine)" by (rule lk_abs_lk_of)
  have f: "\<not> locked (locks example_machine L_log)" by (simp add: example_machine_def)
  show ?thesis using a f spinlock_refinement [OF a, of L_log] by simp
qed

text \<open>C39: A critical section is transparent: on a hart with consistent bookkeeping, \<open>acquire\<close> followed by
  \<open>release\<close> of a lock that is free returns, leaves the set of locks the hart holds as it was and
  the lock free; and taking a lock twice panics instead of deadlocking silently.\<close>

theorem critical_section:
  assumes "hart_ok c m" and "\<not> locked (locks m l)"
  shows "returns (andthen (acquire_lk c l m) (\<lambda>_ t. release_lk c l t))
           (\<lambda>_ t. hart_ok c t \<and> {k. holding c k t} = {k. holding c k m} \<and> \<not> locked (locks t l))
       \<and> andthen (acquire_lk c l m) (\<lambda>_ t. acquire_lk c l t) = Panic ''acquire''"
proof -
  have "l \<notin> {k. holding c k m}" using assms(2) by (simp add: holding_def)
  then show ?thesis
    using hart_lock.section_restores [OF assms(1) _ assms(2)]
      hart_lock.double_acquire_panics [OF assms(1) _ assms(2)] by simp
qed

theorem critical_section_witness:
  "hart_ok 0 example_machine \<and> \<not> locked (locks example_machine L_log) \<and>
   andthen (acquire_lk 0 L_log example_machine) (\<lambda>_ t. acquire_lk 0 L_log t) = Panic ''acquire''"
proof -
  have a: "hart_ok 0 example_machine" by (simp add: hart_ok_def holding_def example_machine_def)
  have f: "\<not> locked (locks example_machine L_log)" by (simp add: example_machine_def)
  show ?thesis using a f critical_section [OF a f] by simp
qed

end
