(* ===== verification/Cstring.thy ===== *)
theory Cstring
  imports Riscv
begin

text \<open>
  The memory and string routines of \<open>kernel/string.c\<close>. The routines that write through a
  pointer into physical memory (\<open>memset\<close>, \<open>memmove\<close>, \<open>memcpy\<close>) work on the byte memory; the ones
  that only read take each pointer as the bytes found from it on, a function of the index
  (\<open>p i\<close> is \<open>p[i]\<close>); the ones that fill an array take and return the array.
\<close>

type_synonym ptr = "nat \<Rightarrow> u8"

section \<open>Blocks of memory\<close>

fun memset_loop :: "mem \<Rightarrow> u64 \<Rightarrow> u8 \<Rightarrow> nat \<Rightarrow> nat \<Rightarrow> mem" where
  "memset_loop m dst c i 0 = m"
| "memset_loop m dst c i (Suc k) = memset_loop (m(dst + of_nat i := c)) dst c (Suc i) k"

definition memset :: "mem \<Rightarrow> u64 \<Rightarrow> u8 \<Rightarrow> nat \<Rightarrow> mem" where
  "memset m dst c n = memset_loop m dst c 0 n"

fun copy_up :: "mem \<Rightarrow> u64 \<Rightarrow> u64 \<Rightarrow> nat \<Rightarrow> mem" where
  "copy_up m d s 0 = m"
| "copy_up m d s (Suc n) = copy_up (m(d := m s)) (d + 1) (s + 1) n"

fun copy_down :: "mem \<Rightarrow> u64 \<Rightarrow> u64 \<Rightarrow> nat \<Rightarrow> mem" where
  "copy_down m d s 0 = m"
| "copy_down m d s (Suc n) = copy_down (m(d - 1 := m (s - 1))) (d - 1) (s - 1) n"

definition memmove :: "mem \<Rightarrow> u64 \<Rightarrow> u64 \<Rightarrow> nat \<Rightarrow> mem" where
  "memmove m dst src n =
     (if src < dst \<and> src + of_nat n > dst
      then copy_down m (dst + of_nat n) (src + of_nat n) n
      else copy_up m dst src n)"

definition memcpy :: "mem \<Rightarrow> u64 \<Rightarrow> u64 \<Rightarrow> nat \<Rightarrow> mem" where
  "memcpy m dst src n = memmove m dst src n"

fun memcmp :: "ptr \<Rightarrow> ptr \<Rightarrow> nat \<Rightarrow> int" where
  "memcmp s1 s2 0 = 0"
| "memcmp s1 s2 (Suc n) =
     (if s1 0 \<noteq> s2 0 then uint (s1 0) - uint (s2 0)
      else memcmp (\<lambda>i. s1 (Suc i)) (\<lambda>i. s2 (Suc i)) n)"

section \<open>Strings\<close>

fun strncmp :: "ptr \<Rightarrow> ptr \<Rightarrow> nat \<Rightarrow> int" where
  "strncmp p q 0 = 0"
| "strncmp p q (Suc n) =
     (if p 0 \<noteq> 0 \<and> p 0 = q 0 then strncmp (\<lambda>i. p (Suc i)) (\<lambda>i. q (Suc i)) n
      else uint (p 0) - uint (q 0))"

fun strncpy_pad :: "u8 list \<Rightarrow> nat \<Rightarrow> nat \<Rightarrow> u8 list" where
  "strncpy_pad s i 0 = s"
| "strncpy_pad s i (Suc n) = strncpy_pad (s[i := 0]) (Suc i) n"

fun strncpy_loop :: "u8 list \<Rightarrow> ptr \<Rightarrow> nat \<Rightarrow> nat \<Rightarrow> u8 list" where
  "strncpy_loop s t i 0 = s"
| "strncpy_loop s t i (Suc n) =
     (let s' = s[i := t i]
      in if t i \<noteq> 0 then strncpy_loop s' t (Suc i) n else strncpy_pad s' (Suc i) n)"

definition strncpy :: "u8 list \<Rightarrow> ptr \<Rightarrow> nat \<Rightarrow> u8 list" where
  "strncpy s t n = strncpy_loop s t 0 n"

fun safestrcpy_loop :: "u8 list \<Rightarrow> ptr \<Rightarrow> nat \<Rightarrow> nat \<Rightarrow> u8 list" where
  "safestrcpy_loop s t i 0 = s[i := 0]"
| "safestrcpy_loop s t i (Suc n) =
     (let s' = s[i := t i]
      in if t i \<noteq> 0 then safestrcpy_loop s' t (Suc i) n else s'[Suc i := 0])"

text \<open>\<open>--n > 0\<close> admits \<open>n - 1\<close> copied bytes; the last byte is always the terminator.\<close>

definition safestrcpy :: "u8 list \<Rightarrow> ptr \<Rightarrow> int \<Rightarrow> u8 list" where
  "safestrcpy s t n = (if n \<le> 0 then s else safestrcpy_loop s t 0 (nat (n - 1)))"

text \<open>Without a terminator the loop does not end: \<open>None\<close>.\<close>

partial_function (option) strlen_from :: "ptr \<Rightarrow> nat \<Rightarrow> nat option" where
  "strlen_from s n = (if s n \<noteq> 0 then strlen_from s (Suc n) else Some n)"

definition strlen :: "ptr \<Rightarrow> nat option" where
  "strlen s = strlen_from s 0"

text \<open>The bytes of an array, as a pointer to its start, and the string it holds.\<close>

definition arr :: "u8 list \<Rightarrow> ptr" where
  "arr xs = (\<lambda>i. if i < length xs then xs ! i else 0)"

definition cstr :: "u8 list \<Rightarrow> u8 list" where
  "cstr xs = takeWhile (\<lambda>b. b \<noteq> 0) xs"

text \<open>A name padded to its field with NUL bytes.\<close>

definition nul_pad :: "nat \<Rightarrow> u8 list \<Rightarrow> u8 list" where
  "nul_pad n xs = xs @ replicate (n - length xs) 0"

section \<open>Filling and moving memory\<close>

lemma unat_minus_one64: "unat (- 1 :: u64) = 18446744073709551615"
  by (simp add: unsigned_minus_1_eq_mask mask_eq_exp_minus_1)

lemma mem_write_Cons:
  assumes "length xs < 2 ^ 64"
  shows "mem_write (m(a := x)) (a + 1) xs = mem_write m a (x # xs)"
proof
  fix b
  show "mem_write (m(a := x)) (a + 1) xs b = mem_write m a (x # xs) b"
  proof (cases "b = a")
    case True
    then show ?thesis using assms by (auto simp: mem_write_def unat_minus_one64)
  next
    case False
    then have "unat (b - (a + 1)) = unat (b - a) - 1" "unat (b - a) \<noteq> 0"
      using unat_minus_one [of "b - a"] by (auto simp: algebra_simps unat_eq_0)
    then show ?thesis using False by (auto simp: mem_write_def nth_Cons')
  qed
qed

lemma offset_eq_iff: "k < 2 ^ 64 \<Longrightarrow> b = a + of_nat k \<longleftrightarrow> unat (b - a) = k" for a b :: u64
proof -
  assume k: "k < 2 ^ 64"
  have "b = a + of_nat k \<longleftrightarrow> b - a = of_nat k" by (auto simp: algebra_simps)
  also have "\<dots> \<longleftrightarrow> unat (b - a) = k" using k by (auto simp: word_unat_eq_iff unat_of_nat64)
  finally show ?thesis .
qed

lemma mem_write_snoc:
  assumes "length xs < 2 ^ 64"
  shows "mem_write (m(a + of_nat (length xs) := x)) a xs = mem_write m a (xs @ [x])"
  using offset_eq_iff [OF assms] by (auto simp: fun_eq_iff mem_write_def nth_append)

lemma memset_loop_write: "i + k \<le> 2 ^ 64 \<Longrightarrow> memset_loop m dst c i k = mem_write m (dst + of_nat i) (replicate k c)"
proof (induction k arbitrary: m i)
  case (Suc k)
  have "memset_loop m dst c i (Suc k) = memset_loop (m(dst + of_nat i := c)) dst c (Suc i) k"
    by (simp only: memset_loop.simps)
  also have "\<dots> = mem_write (m(dst + of_nat i := c)) (dst + of_nat (Suc i)) (replicate k c)"
    using Suc.prems by (intro Suc.IH) simp
  also have "dst + of_nat (Suc i) = (dst + of_nat i) + 1" by simp
  also have "mem_write (m(dst + of_nat i := c)) (dst + of_nat i + 1) (replicate k c)
      = mem_write m (dst + of_nat i) (replicate (Suc k) c)"
    using Suc.prems by (subst mem_write_Cons) simp_all
  finally show ?case .
qed simp

lemma mem_read_Suc: "mem_read m s (Suc n) = m s # mem_read m (s + 1) n"
  by (rule nth_equalityI) (auto simp: nth_Cons' algebra_simps of_nat_diff)

lemma mem_read_snoc: "mem_read m s (Suc n) = mem_read m s n @ [m (s + of_nat n)]"
  by (simp add: mem_read_def)

lemma copy_up_write:
  "unat s + n < 2 ^ 64 \<Longrightarrow> unat d + n < 2 ^ 64 \<Longrightarrow> unat d \<le> unat s \<or> unat s + n \<le> unat d \<Longrightarrow>
   copy_up m d s n = mem_write m d (mem_read m s n)"
proof (induction n arbitrary: m d s)
  case (Suc n)
  have s1: "unat (s + 1) = unat s + 1" and d1: "unat (d + 1) = unat d + 1"
    using Suc.prems by (simp_all add: unat_word_ariths)
  have "copy_up m d s (Suc n) = copy_up (m(d := m s)) (d + 1) (s + 1) n"
    by (simp only: copy_up.simps)
  also have "\<dots> = mem_write (m(d := m s)) (d + 1) (mem_read (m(d := m s)) (s + 1) n)"
    using Suc.prems s1 d1 by (intro Suc.IH) auto
  also have "mem_read (m(d := m s)) (s + 1) n = mem_read m (s + 1) n"
  proof (rule nth_equalityI)
    fix i assume "i < length (mem_read (m(d := m s)) (s + 1) n)"
    then have i: "i < n" by simp
    then have "unat (s + 1 + of_nat i) = unat s + 1 + i"
      using Suc.prems s1 by (simp add: unat_word_ariths unat_of_nat64)
    then have "s + 1 + of_nat i \<noteq> d" using Suc.prems i by auto
    then show "mem_read (m(d := m s)) (s + 1) n ! i = mem_read m (s + 1) n ! i" using i by simp
  qed simp
  also have "mem_write (m(d := m s)) (d + 1) (mem_read m (s + 1) n) = mem_write m d (mem_read m s (Suc n))"
    using Suc.prems by (subst mem_write_Cons) (simp_all add: mem_read_Suc)
  finally show ?case .
qed (simp add: mem_read_def)

lemma copy_down_write:
  "unat s + n < 2 ^ 64 \<Longrightarrow> unat d + n < 2 ^ 64 \<Longrightarrow> unat s < unat d \<Longrightarrow>
   copy_down m (d + of_nat n) (s + of_nat n) n = mem_write m d (mem_read m s n)"
proof (induction n arbitrary: m)
  case (Suc n)
  let ?m = "m(d + of_nat n := m (s + of_nat n))"
  have "copy_down m (d + of_nat (Suc n)) (s + of_nat (Suc n)) (Suc n)
      = copy_down ?m (d + of_nat n) (s + of_nat n) n"
    by (simp add: algebra_simps)
  also have "\<dots> = mem_write ?m d (mem_read ?m s n)"
    using Suc.prems by (intro Suc.IH) auto
  also have "mem_read ?m s n = mem_read m s n"
  proof (rule nth_equalityI)
    fix i assume "i < length (mem_read ?m s n)"
    then have i: "i < n" by simp
    have "unat (s + of_nat i) = unat s + i" "unat (d + of_nat n) = unat d + n"
      using Suc.prems i by (simp_all add: unat_word_ariths unat_of_nat64)
    then have "s + of_nat i \<noteq> d + of_nat n" using Suc.prems i by (metis add.commute add_less_mono nat_neq_iff)
    then show "mem_read ?m s n ! i = mem_read m s n ! i" using i by simp
  qed simp
  also have "mem_write ?m d (mem_read m s n) = mem_write m d (mem_read m s (Suc n))"
    using Suc.prems mem_write_snoc [of "mem_read m s n" m d] by (simp add: mem_read_snoc)
  finally show ?case .
qed (simp add: mem_read_def)

lemma memset_write: "n \<le> 2 ^ 64 \<Longrightarrow> memset m dst c n = mem_write m dst (replicate n c)"
  by (simp add: memset_def memset_loop_write)

lemma memmove_write:
  assumes "unat s + n < 2 ^ 64" and "unat d + n < 2 ^ 64"
  shows "memmove m d s n = mem_write m d (mem_read m s n)"
proof -
  have e: "unat (s + of_nat n) = unat s + n"
    using assms by (simp add: unat_word_ariths unat_of_nat64)
  show ?thesis
    using assms e by (auto simp: memmove_def word_less_nat_alt intro: copy_down_write copy_up_write)
qed

section \<open>Comparing and copying strings\<close>

lemma map_upt_shift: "map f [0..<Suc n] = f 0 # map (\<lambda>i. f (Suc i)) [0..<n]"
  by (simp add: upt_conv_Cons map_Suc_upt [symmetric] del: upt_Suc)

lemma memcmp_zero: "memcmp p q n = 0 \<longleftrightarrow> map p [0..<n] = map q [0..<n]"
proof (induction p q n rule: memcmp.induct)
  case (2 p q n)
  then show ?case by (auto simp: map_upt_shift simp flip: word_uint_eq_iff simp del: upt_Suc)
qed simp

lemma strncmp_zero:
  "strncmp p q n = 0 \<longleftrightarrow> cstr (map p [0..<n]) = cstr (map q [0..<n])"
proof (induction p q n rule: strncmp.induct)
  case (2 p q n)
  then show ?case
    by (auto simp: map_upt_shift cstr_def simp flip: word_uint_eq_iff simp del: upt_Suc)
      (simp_all add: unsigned_eq_0_iff)
qed simp

lemma bpatch_upd: "i < length s \<Longrightarrow> bpatch (s[i := x]) (Suc i) xs = bpatch s i (x # xs)"
  by (simp add: bpatch_def take_Suc_conv_app_nth)

lemma bpatch_Nil [simp]: "bpatch s i [] = s"
  by (simp add: bpatch_def)

lemma strncpy_pad_bpatch: "i + n \<le> length s \<Longrightarrow> strncpy_pad s i n = bpatch s i (replicate n 0)"
  by (induction s i n rule: strncpy_pad.induct) (auto simp: bpatch_upd)

lemma strncpy_loop_bpatch:
  "i + n \<le> length s \<Longrightarrow>
   strncpy_loop s t i n = bpatch s i (nul_pad n (cstr (map (\<lambda>j. t (i + j)) [0..<n])))"
proof (induction s t i n rule: strncpy_loop.induct)
  case (2 s t i n)
  then show ?case
    by (auto simp: map_upt_shift cstr_def nul_pad_def bpatch_upd strncpy_pad_bpatch Let_def simp del: upt_Suc)
qed (simp add: nul_pad_def cstr_def)

lemma strncpy_bpatch:
  "n \<le> length s \<Longrightarrow> strncpy s t n = bpatch s 0 (nul_pad n (cstr (map t [0..<n])))"
  by (simp add: strncpy_def strncpy_loop_bpatch)

lemma length_cstr_map: "length (cstr (map t [0..<n])) \<le> n"
  using length_takeWhile_le [of "\<lambda>b. b \<noteq> 0" "map t [0..<n]"] by (simp add: cstr_def)

lemma length_nul_pad: "length xs \<le> n \<Longrightarrow> length (nul_pad n xs) = n"
  by (simp add: nul_pad_def)

lemma cstr_no_nul: "cstr (cstr xs @ ys) = cstr xs @ cstr ys"
  unfolding cstr_def by (subst takeWhile_append2) (auto dest: set_takeWhileD)

lemma cstr_nul_pad [simp]: "cstr (nul_pad n (cstr xs)) = cstr xs"
  by (simp add: nul_pad_def cstr_no_nul) (simp add: cstr_def)

lemma map_arr: "n \<le> length xs \<Longrightarrow> map (arr xs) [0..<n] = take n xs"
  by (rule nth_equalityI) (auto simp: arr_def)

lemma strncmp_strncpy:
  "n \<le> length s \<Longrightarrow> strncmp t (arr (strncpy s t n)) n = 0"
  by (simp add: strncmp_zero strncpy_bpatch map_arr length_cstr_map length_nul_pad bpatch_def)

lemma safestrcpy_loop_bpatch:
  "i + n < length s \<Longrightarrow> safestrcpy_loop s t i n =
     (let c = cstr (map (\<lambda>j. t (i + j)) [0..<n])
      in bpatch s i (c @ (if length c < n then [0, 0] else [0])))"
proof (induction s t i n rule: safestrcpy_loop.induct)
  case (2 s t i n)
  then show ?case
    by (auto simp: map_upt_shift cstr_def bpatch_upd Let_def simp del: upt_Suc)
      (auto simp: bpatch_def upd_conv_take_nth_drop take_Suc_conv_app_nth nth_append Cons_nth_drop_Suc [symmetric])
qed (simp add: cstr_def bpatch_def upd_conv_take_nth_drop)

lemma safestrcpy_bpatch:
  assumes "0 < n" and "n \<le> int (length s)"
  shows "safestrcpy s t n = 
     (let c = cstr (map t [0..<nat (n - 1)])
      in bpatch s 0 (c @ (if length c < nat (n - 1) then [0, 0] else [0])))"
  using assms by (simp add: safestrcpy_def safestrcpy_loop_bpatch)

lemma safestrcpy_terminated_nat:
  assumes "Suc k \<le> length s"
  shows "length (safestrcpy s t (int (Suc k))) = length s \<and> 
    cstr (safestrcpy s t (int (Suc k))) = cstr (map t [0..<k]) \<and>
    drop (Suc k) (safestrcpy s t (int (Suc k))) = drop (Suc k) s"
  using assms length_cstr_map [of t k]
  by (auto simp: safestrcpy_bpatch Let_def bpatch_def cstr_no_nul) (auto simp: cstr_def)

lemma strlen_from_Some: 
  "(\<forall>i. k \<le> i \<and> i < n \<longrightarrow> s i \<noteq> 0) \<Longrightarrow> k \<le> n \<Longrightarrow> s n = 0 \<Longrightarrow> strlen_from s k = Some n"
proof (induction "n - k" arbitrary: k)
  case 0
  then show ?case by (subst strlen_from.simps) simp
next
  case (Suc d)
  from Suc.hyps(2) have k: "d = n - Suc k" "Suc k \<le> n" by simp_all
  have "strlen_from s (Suc k) = Some n"
    using Suc.prems k by (intro Suc.hyps(1)) simp_all
  moreover have "s k \<noteq> 0" using Suc.prems(1) k by simp
  ultimately show ?case by (subst strlen_from.simps) simp
qed

lemma strlen_from_sound:
  assumes "strlen_from s k = Some n"
  shows "(\<forall>i. k \<le> i \<and> i < n \<longrightarrow> s i \<noteq> 0) \<and> k \<le> n \<and> s n = 0"
proof (rule strlen_from.raw_induct [where P = "\<lambda>s k n. (\<forall>i. k \<le> i \<and> i < n \<longrightarrow> s i \<noteq> 0) \<and> k \<le> n \<and> s n = 0", OF _ assms])
  fix f :: "ptr \<Rightarrow> nat \<Rightarrow> nat option" and s :: ptr and k n
  assume IH: "\<And>s k n. f s k = Some n \<Longrightarrow> (\<forall>i. k \<le> i \<and> i < n \<longrightarrow> s i \<noteq> 0) \<and> k \<le> n \<and> s n = 0"
    and eq: "(if s k \<noteq> 0 then f s (Suc k) else Some k) = Some n"
  show "(\<forall>i. k \<le> i \<and> i < n \<longrightarrow> s i \<noteq> 0) \<and> k \<le> n \<and> s n = 0"
  proof (cases "s k = 0")
    case False
    with eq IH [of s "Suc k" n]
    have *: "\<And>i. Suc k \<le> i \<Longrightarrow> i < n \<Longrightarrow> s i \<noteq> 0" "Suc k \<le> n" "s n = 0" by auto
    have "s i \<noteq> 0" if "k \<le> i" "i < n" for i
      using that * (1) [of i] False by (cases "i = k") auto
    with * show ?thesis by simp
  qed (use eq in auto)
qed

lemma strlen_iff: "strlen s = Some n \<longleftrightarrow> s n = 0 \<and> (\<forall>i<n. s i \<noteq> 0)"
  using strlen_from_Some [of 0 n s] strlen_from_sound [of s 0 n] by (auto simp: strlen_def)

section \<open>What the routines promise\<close>

text \<open>C36: \<open>memmove\<close> copies correctly also when source and destination overlap: as long as neither
  range runs past the end of the address space, the destination afterwards holds the \<open>n\<close> bytes
  the source held before, and no other byte changes.\<close>

theorem memmove_correct:
  assumes "unat src + n < 2 ^ 64" and "unat dst + n < 2 ^ 64"
  shows "memmove m dst src n =
    (\<lambda>b. if unat (b - dst) < n then m (src + (b - dst)) else m b)"
proof
  fix b
  show "memmove m dst src n b = (if unat (b - dst) < n then m (src + (b - dst)) else m b)"
    unfolding memmove_write [OF assms] by (simp add: mem_write_def)
qed

theorem memmove_correct_witness:
  "memmove (\<lambda>a. ucast a) 102 100 8 =
     (\<lambda>b. if unat (b - 102) < 8 then ucast (100 + (b - (102::u64))) else ucast b)"
  using memmove_correct [of 100 8 102 "\<lambda>a. ucast a"] by simp

text \<open>C40: \<open>safestrcpy\<close> with a positive bound that fits the array keeps the array's length, leaves it
  NUL-terminated within the bound, holding the source string cut to \<open>n - 1\<close> bytes, and touches
  nothing beyond the first \<open>n\<close> bytes.\<close>

theorem safestrcpy_terminated:
  assumes "0 < n" and "n \<le> int (length s)"
  shows "length (safestrcpy s t n) = length s \<and>
    cstr (safestrcpy s t n) = cstr (map t [0..<nat (n - 1)]) \<and>
    length (cstr (safestrcpy s t n)) < nat n \<and>
    drop (nat n) (safestrcpy s t n) = drop (nat n) s"
proof -
  obtain k where k: "n = int (Suc k)"
    using assms(1) by (metis gr0_conv_Suc pos_int_cases)
  then have nat: "nat n = Suc k" "nat (n - 1) = k" "Suc k \<le> length s"
    using assms(2) by simp_all
  show ?thesis
    using safestrcpy_terminated_nat [OF nat(3), of t] length_cstr_map [of t k]
    unfolding nat k [symmetric] by simp
qed

theorem safestrcpy_terminated_witness:
  "cstr (safestrcpy [9, 9, 9, 9, 7] (\<lambda>i. 5) 4) = cstr (map (\<lambda>i. 5) [0..<nat (4 - 1)]) \<and>
   drop (nat 4) (safestrcpy [9, 9, 9, 9, 7] (\<lambda>i. 5) 4) = [7]"
  using safestrcpy_terminated [of 4 "[9, 9, 9, 9, 7]" "\<lambda>i. 5"] by simp

end
