(* ===== verification/Pages.thy ===== *)
theory Pages
  imports Cstring
begin

text \<open>
  Physical memory seen as 4096-byte pages of 512 slots: what a 64-bit store or a page-sized
  \<open>memset\<close> changes, and what a 64-bit load from a page depends on.
\<close>

text \<open>The page at \<open>p\<close> has the same bytes in both memories.\<close>

definition page_eq :: "mem \<Rightarrow> mem \<Rightarrow> u64 \<Rightarrow> bool" where
  "page_eq m m' p \<longleftrightarrow> (\<forall>b. PGROUNDDOWN b = p \<longrightarrow> m' b = m b)"

lemma page_eq_refl [simp]: "page_eq m m p"
  by (simp add: page_eq_def)

lemma page_eq_sym: "page_eq m m' p \<Longrightarrow> page_eq m' m p"
  by (simp add: page_eq_def)

lemma page_eq_trans [trans]: "page_eq m m' p \<Longrightarrow> page_eq m' m'' p \<Longrightarrow> page_eq m m'' p"
  by (simp add: page_eq_def)

text \<open>Slot \<open>i\<close> of the page at \<open>p\<close> is the 64-bit word at \<open>p + 8 * i\<close>.\<close>

lemma slot_offset:
  assumes "i < 512" and "k < 8"
  shows "unat (8 * i + of_nat k :: u64) = 8 * unat i + k" and "8 * i + of_nat k < (4096 :: u64)"
proof -
  have i: "unat i < 512" using assms(1) by (simp add: word_less_nat_alt)
  then show u: "unat (8 * i + of_nat k :: u64) = 8 * unat i + k"
    using assms(2) by (simp add: unat_word_ariths unat_of_nat64)
  show "8 * i + of_nat k < (4096 :: u64)"
    using i assms(2) by (simp add: word_less_nat_alt u)
qed

lemma slot_page:
  "aligned p \<Longrightarrow> i < 512 \<Longrightarrow> k < 8 \<Longrightarrow> PGROUNDDOWN (p + 8 * i + of_nat k) = p"
  using PGROUNDDOWN_offset [of p "8 * i + of_nat k"] slot_offset(2) [of i k] by (simp add: add.assoc)

lemma load64_page_eq:
  "page_eq m m' p \<Longrightarrow> aligned p \<Longrightarrow> i < 512 \<Longrightarrow> load64 m' (p + 8 * i) = load64 m (p + 8 * i)"
  by (rule load64_cong) (simp add: page_eq_def slot_page)

lemma store64_bytes:
  "unat (b - a) < 8 \<or> store64 m a v b = m b"
  by (auto simp: store64_def mem_write_def)

lemma store64_other_page:
  assumes "aligned p" and "i < 512" and "q \<noteq> p"
  shows "page_eq m (store64 m (p + 8 * i) v) q"
  unfolding page_eq_def
proof (intro allI impI)
  fix b assume b: "PGROUNDDOWN b = q"
  have "\<not> unat (b - (p + 8 * i)) < 8"
  proof
    assume k: "unat (b - (p + 8 * i)) < 8"
    have "b = p + 8 * i + of_nat (unat (b - (p + 8 * i)))" by simp
    then have "PGROUNDDOWN b = p" using slot_page [OF assms(1,2) k] by simp
    with b assms(3) show False by simp
  qed
  then show "store64 m (p + 8 * i) v b = m b" using store64_bytes [of b "p + 8 * i"] by blast
qed

lemma load64_store64_slot:
  assumes "aligned p" and "i < 512" and "j < 512"
  shows "load64 (store64 m (p + 8 * i) v) (p + 8 * j) = (if i = j then v else load64 m (p + 8 * j))"
proof (cases "i = j")
  case False
  have "store64 m (p + 8 * i) v (p + 8 * j + of_nat k) = m (p + 8 * j + of_nat k)" if k: "k < 8" for k
  proof -
    let ?a = "8 * j + of_nat k :: u64" and ?b = "8 * i :: u64"
    have u: "unat ?a = 8 * unat j + k" "unat ?b = 8 * unat i"
      using slot_offset(1) [OF assms(3) k] slot_offset(1) [OF assms(2), of 0] by simp_all
    have ne: "unat i \<noteq> unat j" using False by (simp add: word_unat_eq_iff)
    have lt: "unat i < 512" "unat j < 512" using assms by (simp_all add: word_less_nat_alt)
    have "\<not> unat (?a - ?b) < 8"
    proof (cases "unat i < unat j")
      case True
      then show ?thesis using u by (simp add: unat_sub_if')
    next
      case f: False
      then have "\<not> unat ?b \<le> unat ?a" using u ne k by simp
      then have "unat (?a - ?b) = unat ?a + 18446744073709551616 - unat ?b"
        by (simp add: unat_sub_if')
      then show ?thesis using u lt by simp
    qed
    moreover have "p + 8 * j + of_nat k - (p + 8 * i) = ?a - ?b" by simp
    ultimately show ?thesis using store64_bytes [of "p + 8 * j + of_nat k" "p + 8 * i" m v] by argo
  qed
  then show ?thesis using False by (simp add: load64_cong [of "store64 m (p + 8 * i) v" _ m])
qed (simp add: mem_simps)

lemma memset_page:
  "aligned p \<Longrightarrow> memset m p c 4096 b = (if PGROUNDDOWN b = p then c else m b)"
  using in_page_iff [of p b]
  by (auto simp: memset_write mem_write_def word_less_nat_alt)

lemma memset_other_page: "aligned p \<Longrightarrow> q \<noteq> p \<Longrightarrow> page_eq m (memset m p c 4096) q"
  by (simp add: page_eq_def memset_page)

lemma le_word_zeros: "le_word (replicate n 0) = (0 :: 'a::len word)"
  by (rule bit_word_eqI) (simp add: bit_le_word)

lemma load64_zero_page:
  assumes "\<And>b. PGROUNDDOWN b = p \<Longrightarrow> m b = 0" and "aligned p" and "i < 512"
  shows "load64 m (p + 8 * i) = 0"
proof -
  have "mem_read m (p + 8 * i) 8 = replicate 8 0"
    by (rule nth_equalityI) (auto simp: assms slot_page)
  then show ?thesis unfolding load64_def by (simp only: le_word_zeros)
qed

end
