(* ===== verification/Kalloc.thy ===== *)
theory Kalloc
  imports Spinlock Pages
begin

text \<open>
  The physical page allocator of \<open>kernel/kalloc.c\<close>. The state adds physical memory, the head of
  the free list (\<open>kmem.freelist\<close>, whose links \<open>r->next\<close> live in the free pages themselves) and
  the address \<open>end\<close> that the linker script sets to the end of the kernel image. The refinement
  lemmas show that \<open>kalloc\<close> and \<open>kfree\<close> pop and push an abstract list of free pages; the locale
  \<open>page_allocator\<close> is the contract the clients of the allocator rely on.
\<close>

section \<open>Model\<close>

record kmem_state = lk_state +
  mem :: mem
  freelist :: u64
  kend :: u64

definition kfree :: "u64 \<Rightarrow> 'a kmem_state_scheme \<Rightarrow> (unit, 'a kmem_state_scheme) res" where
  "kfree pa s =
     (if pa mod PGSIZE \<noteq> 0 \<or> pa < kend s \<or> pa \<ge> PHYSTOP then Panic ''kfree''
      else andthen (acquire L_kmem (s\<lparr>mem := memset (mem s) pa 1 (unat PGSIZE)\<rparr>)) (\<lambda>_ s.
        release L_kmem (s\<lparr>mem := store64 (mem s) pa (freelist s), freelist := pa\<rparr>)))"

definition kalloc :: "'a kmem_state_scheme \<Rightarrow> (u64, 'a kmem_state_scheme) res" where
  "kalloc s =
     andthen (acquire L_kmem s) (\<lambda>_ s.
       let r = freelist s;
           s = (if r \<noteq> 0 then s\<lparr>freelist := load64 (mem s) r\<rparr> else s)
       in andthen (release L_kmem s) (\<lambda>_ s.
            Done r (if r \<noteq> 0 then s\<lparr>mem := memset (mem s) r 5 (unat PGSIZE)\<rparr> else s)))"

lemma kfree_Done_bounds: "kfree pa s = Done u t \<Longrightarrow> pa < PHYSTOP"
  by (auto simp: kfree_def split: if_splits)

function freerange_loop :: "u64 \<Rightarrow> u64 \<Rightarrow> 'a kmem_state_scheme \<Rightarrow> (unit, 'a kmem_state_scheme) res" where
  "freerange_loop p pa_end s =
     (if p + PGSIZE \<le> pa_end
      then andthen (kfree p s) (\<lambda>_ s. freerange_loop (p + PGSIZE) pa_end s)
      else Done () s)"
  by pat_completeness auto

termination
proof (relation "measure (\<lambda>(p, e, s). 2 ^ 64 - unat p)")
  fix p e :: u64 and s t :: "'a kmem_state_scheme" and u
  assume "kfree p s = Done u t"
  then have "unat p < unat (PHYSTOP)" by (auto dest: kfree_Done_bounds simp: word_less_nat_alt)
  then have "unat p < 2281701376" by simp
  then have "unat (p + PGSIZE) = unat p + 4096" by (simp add: unat_word_ariths)
  then show "((p + PGSIZE, e, t), p, e, s) \<in> measure (\<lambda>(p, e, s). 2 ^ 64 - unat p)"
    using \<open>unat p < 2281701376\<close> by simp
qed simp

declare freerange_loop.simps [simp del]

definition freerange :: "u64 \<Rightarrow> u64 \<Rightarrow> 'a kmem_state_scheme \<Rightarrow> (unit, 'a kmem_state_scheme) res" where
  "freerange pa_start pa_end s = freerange_loop (PGROUNDUP pa_start) pa_end s"

definition kinit :: "'a kmem_state_scheme \<Rightarrow> (unit, 'a kmem_state_scheme) res" where
  "kinit s = freerange (kend s) PHYSTOP (s\<lparr>held := held s - {L_kmem}\<rparr>)"

section \<open>The list of free pages\<close>

text \<open>The links of the free list, followed from \<open>p\<close>, spell \<open>xs\<close>.\<close>

fun free_chain :: "mem \<Rightarrow> u64 \<Rightarrow> u64 list \<Rightarrow> bool" where
  "free_chain m p [] \<longleftrightarrow> p = 0"
| "free_chain m p (x # xs) \<longleftrightarrow> p = x \<and> x \<noteq> 0 \<and> free_chain m (load64 m x) xs"

definition page_ok :: "'a kmem_state_scheme \<Rightarrow> u64 \<Rightarrow> bool" where
  "page_ok s p \<longleftrightarrow> aligned p \<and> kend s \<le> p \<and> p < PHYSTOP"

definition free_pages :: "'a kmem_state_scheme \<Rightarrow> u64 list \<Rightarrow> bool" where
  "free_pages s fl \<longleftrightarrow> 0 < kend s \<and> L_kmem \<notin> held s \<and> free_chain (mem s) (freelist s) fl
     \<and> distinct fl \<and> (\<forall>p\<in>set fl. page_ok s p)"

lemma load64_page_eq0: "page_eq m m' p \<Longrightarrow> aligned p \<Longrightarrow> load64 m' p = load64 m p"
  using load64_page_eq [of m m' p 0] by simp

lemma free_chain_page_eq:
  "(\<forall>x\<in>set xs. page_eq m m' x \<and> aligned x) \<Longrightarrow> free_chain m' p xs = free_chain m p xs"
  by (induction xs arbitrary: p) (auto simp: load64_page_eq0)

lemma free_chain_unique: "free_chain m p xs \<Longrightarrow> free_chain m p ys \<Longrightarrow> xs = ys"
  by (induction xs arbitrary: p ys) (case_tac ys, auto)+

lemma page_ok_aligned: "page_ok s p \<Longrightarrow> aligned p"
  by (simp add: page_ok_def)

lemma page_ok_nonzero: "page_ok s p \<Longrightarrow> 0 < kend s \<Longrightarrow> p \<noteq> 0"
  by (auto simp: page_ok_def)

lemma page_ok_cong [simp]:
  "page_ok (s\<lparr>mem := m\<rparr>) p = page_ok s p" "page_ok (s\<lparr>freelist := f\<rparr>) p = page_ok s p"
  "page_ok (s\<lparr>held := h\<rparr>) p = page_ok s p"
  by (simp_all add: page_ok_def)

text \<open>Writing to pages that are not free leaves the free list alone.\<close>

lemma free_pages_write:
  "free_pages s fl \<Longrightarrow> (\<And>p. p \<in> set fl \<Longrightarrow> page_eq (mem s) m p) \<Longrightarrow> free_pages (s\<lparr>mem := m\<rparr>) fl"
  using free_chain_page_eq [of fl "mem s" m "freelist s"] page_ok_aligned [of s]
  by (auto simp: free_pages_def)

lemma kalloc_empty: "free_pages s [] \<Longrightarrow> kalloc s = Done 0 s"
  by (auto simp: free_pages_def kalloc_def acquire_def release_def)

lemma kalloc_Cons:
  assumes "free_pages s (p # fl)"
  shows "kalloc s = Done p (s\<lparr>freelist := load64 (mem s) p, mem := memset (mem s) p 5 4096\<rparr>)"
  using assms by (auto simp: free_pages_def kalloc_def acquire_def release_def)

lemma free_pages_alloc:
  assumes "free_pages s (p # fl)"
  shows "free_pages (s\<lparr>freelist := load64 (mem s) p, mem := memset (mem s) p 5 4096\<rparr>) fl"
proof -
  have "free_pages (s\<lparr>freelist := load64 (mem s) p\<rparr>) fl"
    using assms by (auto simp: free_pages_def)
  then have "free_pages (s\<lparr>freelist := load64 (mem s) p\<rparr>\<lparr>mem := memset (mem s) p 5 4096\<rparr>) fl"
    using assms by (intro free_pages_write)
      (auto simp: free_pages_def page_ok_aligned intro!: memset_other_page)
  then show ?thesis by simp
qed

lemma kfree_ok:
  assumes "page_ok s p" and "L_kmem \<notin> held s"
  shows "kfree p s = Done () (s\<lparr>mem := store64 (memset (mem s) p 1 4096) p (freelist s), freelist := p\<rparr>)"
  using assms by (auto simp: kfree_def page_ok_def aligned_def acquire_def release_def)

lemma kfree_bad: "\<not> page_ok s p \<Longrightarrow> kfree p s = Panic ''kfree''"
  unfolding kfree_def page_ok_def aligned_def by (rule if_P) (simp add: not_less not_le)

lemma kfree_other_page:
  "aligned p \<Longrightarrow> q \<noteq> p \<Longrightarrow> page_eq m (store64 (memset m p 1 4096) p v) q"
  using store64_other_page [of p 0 q] memset_other_page [of p q m 1]
  by (auto intro: page_eq_trans)

lemma free_pages_free:
  assumes "free_pages s fl" and "page_ok s p" and "p \<notin> set fl"
  shows "free_pages (s\<lparr>mem := store64 (memset (mem s) p 1 4096) p (freelist s), freelist := p\<rparr>) (p # fl)"
proof -
  let ?m = "store64 (memset (mem s) p 1 4096) p (freelist s)"
  have "free_pages (s\<lparr>mem := ?m\<rparr>) fl"
    using assms by (intro free_pages_write) (auto intro!: kfree_other_page simp: page_ok_aligned)
  then show ?thesis
    using assms by (auto simp: free_pages_def mem_simps dest: page_ok_nonzero)
qed

section \<open>The contract of the allocator\<close>

text \<open>
  What the kernel expects of a page allocator: \<open>avail s fl\<close> says which pages are free.
\<close>

locale page_allocator =
  fixes avail :: "'s \<Rightarrow> u64 list \<Rightarrow> bool" and legal :: "'s \<Rightarrow> u64 \<Rightarrow> bool" and bytes :: "'s \<Rightarrow> mem"
    and alloc :: "'s \<Rightarrow> (u64, 's) res" and free :: "u64 \<Rightarrow> 's \<Rightarrow> (unit, 's) res"
  assumes avail_distinct: "avail s fl \<Longrightarrow> distinct fl"
    and avail_legal: "avail s fl \<Longrightarrow> p \<in> set fl \<Longrightarrow> legal s p \<and> p \<noteq> 0"
    and alloc_none: "avail s [] \<Longrightarrow> alloc s = Done 0 s"
    and alloc_some: "avail s (p # fl) \<Longrightarrow> returns (alloc s) (\<lambda>r t. r = p \<and> avail t fl
      \<and> legal t = legal s \<and> (\<forall>q. q \<noteq> p \<longrightarrow> page_eq (bytes s) (bytes t) q))"
    and free_ok: "avail s fl \<Longrightarrow> legal s p \<Longrightarrow> p \<notin> set fl \<Longrightarrow> returns (free p s) (\<lambda>_ t. avail t (p # fl)
      \<and> legal t = legal s \<and> (\<forall>q. q \<noteq> p \<longrightarrow> page_eq (bytes s) (bytes t) q))"
begin

text \<open>Allocating \<open>n\<close> pages, stopping at the first failure.\<close>

fun alloc_many :: "nat \<Rightarrow> 's \<Rightarrow> (u64 list, 's) res" where
  "alloc_many 0 s = Done [] s"
| "alloc_many (Suc n) s = andthen (alloc s) (\<lambda>p s.
     if p = 0 then Done [] s else andthen (alloc_many n s) (\<lambda>ps s. Done (p # ps) s))"

text \<open>A client gets distinct pages, exactly the ones that leave the free list, and as many as
  there are.\<close>

lemma alloc_many_take:
  "avail s fl \<Longrightarrow> returns (alloc_many n s) (\<lambda>ps t. ps = take n fl \<and> avail t (drop n fl)
     \<and> legal t = legal s \<and> (\<forall>q. q \<notin> set ps \<longrightarrow> page_eq (bytes s) (bytes t) q))"
proof (induction n arbitrary: s fl)
  case (Suc n)
  show ?case
  proof (cases fl)
    case Nil
    then show ?thesis using Suc.prems by (auto simp: alloc_none)
  next
    case (Cons p fl')
    then have a: "returns (alloc s) (\<lambda>r t. r = p \<and> avail t fl' \<and> legal t = legal s
        \<and> (\<forall>q. q \<noteq> p \<longrightarrow> page_eq (bytes s) (bytes t) q))" and p: "p \<noteq> 0"
      using Suc.prems alloc_some avail_legal by auto
    show ?thesis
      unfolding alloc_many.simps returns_andthen
    proof (rule returns_mono [OF a], clarify)
      fix t assume t: "avail t fl'" "legal t = legal s" and e: "\<forall>q. q \<noteq> p \<longrightarrow> page_eq (bytes s) (bytes t) q"
      show "returns (if p = 0 then Done [] t else andthen (alloc_many n t) (\<lambda>ps s. Done (p # ps) s))
          (\<lambda>ps u. ps = take (Suc n) fl \<and> avail u (drop (Suc n) fl) \<and> legal u = legal s
            \<and> (\<forall>q. q \<notin> set ps \<longrightarrow> page_eq (bytes s) (bytes u) q))"
        using returns_mono [OF Suc.IH [OF t(1)]] p e t(2)
        by (auto simp: Cons intro!: returns_mono [OF Suc.IH [OF t(1)]] intro: page_eq_trans)
    qed
  qed
qed auto

text \<open>Freeing what was just allocated gives the free list back.\<close>

lemma alloc_free:
  assumes "avail s (p # fl)"
  shows "returns (andthen (alloc s) (\<lambda>r t. free r t)) (\<lambda>_ t. avail t (p # fl)
    \<and> (\<forall>q. q \<noteq> p \<longrightarrow> page_eq (bytes s) (bytes t) q))"
proof -
  have l: "legal s p" "p \<notin> set fl" using avail_legal [OF assms] avail_distinct [OF assms] by auto
  obtain t where t: "alloc s = Done p t" "avail t fl" "legal t = legal s"
      "\<forall>q. q \<noteq> p \<longrightarrow> page_eq (bytes s) (bytes t) q"
    using alloc_some [OF assms] by (auto elim: returnsE)
  have "returns (free p t) (\<lambda>_ u. avail u (p # fl) \<and> legal u = legal t
      \<and> (\<forall>q. q \<noteq> p \<longrightarrow> page_eq (bytes t) (bytes u) q))"
    using t l by (intro free_ok) auto
  then show ?thesis
    unfolding t(1) andthen.simps by (rule returns_mono) (use t(4) in \<open>auto intro: page_eq_trans\<close>)
qed

end

interpretation kmem: page_allocator free_pages page_ok mem kalloc kfree
proof unfold_locales
  fix s :: "'a kmem_state_scheme" and p fl
  show "free_pages s fl \<Longrightarrow> distinct fl" by (simp add: free_pages_def)
  show "free_pages s fl \<Longrightarrow> p \<in> set fl \<Longrightarrow> page_ok s p \<and> p \<noteq> 0"
    by (auto simp: free_pages_def dest: page_ok_nonzero)
  show "free_pages s [] \<Longrightarrow> kalloc s = Done 0 s" by (rule kalloc_empty)
  show "free_pages s (p # fl) \<Longrightarrow> returns (kalloc s) (\<lambda>r t. r = p \<and> free_pages t fl
      \<and> page_ok t = page_ok s \<and> (\<forall>q. q \<noteq> p \<longrightarrow> page_eq (mem s) (mem t) q))"
    using free_pages_alloc [of s p fl]
    by (auto simp: kalloc_Cons fun_eq_iff free_pages_def page_ok_aligned intro!: memset_other_page)
  show "free_pages s fl \<Longrightarrow> page_ok s p \<Longrightarrow> p \<notin> set fl \<Longrightarrow> returns (kfree p s) (\<lambda>_ t.
      free_pages t (p # fl) \<and> page_ok t = page_ok s \<and> (\<forall>q. q \<noteq> p \<longrightarrow> page_eq (mem s) (mem t) q))"
    using free_pages_free [of s fl p]
    by (auto simp: kfree_ok free_pages_def fun_eq_iff page_ok_aligned intro!: kfree_other_page)
qed

section \<open>Building the free list at boot\<close>

lemma unat_add_page: "unat p < 2281701376 \<Longrightarrow> unat (p + 4096) = unat p + 4096" for p :: u64
  by (simp add: unat_word_ariths)

lemma aligned_add_page: "aligned p \<Longrightarrow> unat p < 2281701376 \<Longrightarrow> aligned (p + 4096)"
proof -
  assume p: "aligned p" "unat p < 2281701376"
  from p(1) obtain k where "unat p = 4096 * k" by (auto simp: unat_aligned)
  then have "unat (p + 4096) = 4096 * Suc k" using unat_add_page [OF p(2)] by simp
  then show ?thesis unfolding unat_aligned ..
qed

text \<open>The pages of the aligned range from \<open>p\<close> up to \<open>e\<close>.\<close>

definition pages_between :: "u64 \<Rightarrow> u64 \<Rightarrow> u64 set" where
  "pages_between p e = {q. aligned q \<and> p \<le> q \<and> unat q + 4096 \<le> unat e}"

lemma pages_between_step:
  assumes "aligned p" and "unat p + 4096 \<le> unat e" and "unat p < 2281701376"
  shows "pages_between p e = insert p (pages_between (p + 4096) e)"
proof -
  have "q = p \<or> unat p + 4096 \<le> unat q" if "aligned q" "unat p \<le> unat q" for q
  proof -
    from assms(1) that(1) obtain j k where "unat p = 4096 * j" "unat q = 4096 * k"
      by (auto simp: unat_aligned)
    with that(2) show ?thesis by (cases "j = k") (auto simp: word_unat_eq_iff)
  qed
  then show ?thesis
    using assms unat_add_page [OF assms(3)] by (auto simp: pages_between_def word_le_nat_alt)
qed

lemma freerange_loop_frees:
  assumes "free_pages s fl" and "aligned p" and "kend s \<le> p" and "e \<le> PHYSTOP" and "p \<le> PHYSTOP"
    and "\<forall>q\<in>set fl. q < p"
  shows "returns (freerange_loop p e s) (\<lambda>_ t. \<exists>gl. free_pages t (gl @ fl)
    \<and> set gl = pages_between p e \<and> kend t = kend s)"
  using assms
proof (induction p e s arbitrary: fl rule: freerange_loop.induct)
  case (1 p e s)
  let ?t = "s\<lparr>mem := store64 (memset (mem s) p 1 4096) p (freelist s), freelist := p\<rparr>"
  have pe: "unat p \<le> 2281701376" "unat e \<le> 2281701376" using 1 by (simp_all add: word_le_nat_alt)
  then have u: "unat (p + 4096) = unat p + 4096" by (simp add: unat_word_ariths)
  show ?case
  proof (cases "p + 4096 \<le> e")
    case True
    then have le: "unat p + 4096 \<le> unat e" using u by (simp add: word_le_nat_alt)
    then have lt: "unat p < 2281701376" using pe by simp
    have ok: "page_ok s p" using 1 lt by (simp add: page_ok_def word_less_nat_alt)
    have kf: "kfree p s = Done () ?t" using kfree_ok [OF ok] 1(2) by (simp add: free_pages_def)
    have fp: "free_pages ?t (p # fl)" using free_pages_free [OF 1(2) ok] 1 by auto
    have lt': "q < p + 4096" if "q < p \<or> q = p" for q
      using that u by (auto simp: word_less_nat_alt)
    have ge': "kend s \<le> p + 4096" and le': "p + 4096 \<le> PHYSTOP"
      using 1 u le pe by (simp_all add: word_le_nat_alt)
    have "returns (freerange_loop (p + 4096) e ?t) (\<lambda>_ t. \<exists>gl. free_pages t (gl @ (p # fl))
        \<and> set gl = pages_between (p + 4096) e \<and> kend t = kend ?t)"
      using 1(1) [of "()" ?t "p # fl"] True kf fp ge' le' lt' 1(5,7) aligned_add_page [OF 1(3) lt]
      by simp
    then have "returns (freerange_loop (p + 4096) e ?t) (\<lambda>_ t. \<exists>gl. free_pages t (gl @ fl)
        \<and> set gl = pages_between p e \<and> kend t = kend s)"
    proof (rule returns_mono, clarify)
      fix t gl assume "free_pages t (gl @ p # fl)" and "set gl = pages_between (p + 4096) e"
        and "kend t = kend ?t"
      then show "\<exists>gl. free_pages t (gl @ fl) \<and> set gl = pages_between p e \<and> kend t = kend s"
        using pages_between_step [OF 1(3) le lt] by (intro exI [of _ "gl @ [p]"]) auto
    qed
    then show ?thesis using True kf by (subst freerange_loop.simps) simp
  next
    case False
    then have "pages_between p e = {}"
      using u by (auto simp: pages_between_def word_le_nat_alt)
    with False 1 show ?thesis by (subst freerange_loop.simps) (auto intro: exI [of _ "[]"])
  qed
qed

text \<open>C32: a page allocator refinement. On a well-formed free list \<open>fl\<close> of pages, \<open>kalloc\<close> returns: 0
  and the unchanged state when the list is empty, otherwise the first page, filled with 5s, the
  rest of the list being what is free afterwards; the bytes of all other pages stay.\<close>

theorem kalloc_refines_pop:
  assumes "free_pages s fl"
  shows "returns (kalloc s) (\<lambda>r t. case fl of
      [] \<Rightarrow> r = 0 \<and> t = s
    | p # fl' \<Rightarrow> r = p \<and> page_ok s r \<and> free_pages t fl' \<and> held t = held s
        \<and> (\<forall>b. mem t b = (if PGROUNDDOWN b = p then 5 else mem s b)))"
proof (cases fl)
  case Nil
  then show ?thesis using assms by (simp add: kalloc_empty)
next
  case (Cons p fl')
  then have "page_ok s p" using assms by (simp add: free_pages_def)
  then show ?thesis
    using assms free_pages_alloc [of s p fl']
    by (simp add: Cons kalloc_Cons memset_page page_ok_aligned)
qed

text \<open>C33: \<open>kfree\<close> panics exactly on an address that is not a page of the allocator's range; on a legal
  page that is not already free it returns with the page pushed on the free list and all other
  pages' bytes unchanged.\<close>

theorem kfree_refines_push:
  assumes "free_pages s fl" and "p \<notin> set fl"
  shows "if page_ok s p
    then returns (kfree p s) (\<lambda>_ t. free_pages t (p # fl) \<and> held t = held s
        \<and> (\<forall>q. q \<noteq> p \<longrightarrow> page_eq (mem s) (mem t) q))
    else kfree p s = Panic ''kfree''"
proof (cases "page_ok s p")
  case True
  then show ?thesis
    using assms free_pages_free [OF assms(1) True assms(2)]
    by (auto simp: kfree_ok free_pages_def page_ok_aligned intro!: kfree_other_page)
qed (simp add: kfree_bad)

text \<open>C34: booting. \<open>kinit\<close> on an empty free list returns with a free list that holds every page
  between the end of the kernel image and \<open>PHYSTOP\<close> exactly once.\<close>

theorem kinit_frees_all:
  assumes "0 < kend s" and "kend s \<le> PHYSTOP" and "freelist s = 0"
  shows "returns (kinit s) (\<lambda>_ t. \<exists>fl. free_pages t fl \<and> set fl = {p. page_ok s p})"
proof -
  have k: "unat (kend s) \<le> 2281701376" using assms(2) by (simp add: word_le_nat_alt)
  let ?p = "PGROUNDUP (kend s)"
  have up: "unat ?p = (unat (kend s) + 4095) div 4096 * 4096"
    using k by (intro unat_PGROUNDUP) simp
  have le: "unat ?p \<le> 2281701376" unfolding up using k by simp
  have eq: "pages_between ?p PHYSTOP = {p. page_ok s p}"
  proof (rule set_eqI)
    fix q
    have "?p \<le> q \<longleftrightarrow> kend s \<le> q" if "aligned q"
      using PGROUNDUP_bounds(1) [of "kend s"] PGROUNDUP_bounds(2) [of "kend s" q] that k by auto
    moreover have "unat q + 4096 \<le> 2281701376 \<longleftrightarrow> unat q < 2281701376" if "aligned q"
      using that by (auto simp: unat_aligned)
    ultimately show "q \<in> pages_between ?p PHYSTOP \<longleftrightarrow> q \<in> {p. page_ok s p}"
      by (auto simp: pages_between_def page_ok_def word_less_nat_alt)
  qed
  have "free_pages (s\<lparr>held := held s - {L_kmem}\<rparr>) []" using assms by (simp add: free_pages_def)
  from freerange_loop_frees [OF this, of ?p PHYSTOP]
  have "returns (freerange_loop ?p PHYSTOP (s\<lparr>held := held s - {L_kmem}\<rparr>))
      (\<lambda>_ t. \<exists>gl. free_pages t gl \<and> set gl = pages_between ?p PHYSTOP \<and> kend t = kend s)"
    using k le PGROUNDUP_bounds(1) [of "kend s"] by (simp add: word_le_nat_alt)
  then show ?thesis
    unfolding kinit_def freerange_def eq [symmetric] by (rule returns_mono) blast
qed

text \<open>A small concrete state with two free pages, in which the statements above are used.\<close>

definition example_kmem :: kmem_state where
  "example_kmem = \<lparr>held = {}, ien = True, mem = store64 (\<lambda>_. 0) 0x87FFE000 0x87FFF000,
     freelist = 0x87FFE000, kend = 0x80025000\<rparr>"

lemma example_kmem_free: "free_pages example_kmem [0x87FFE000, 0x87FFF000]"
proof -
  have "load64 (store64 (\<lambda>_. 0) 0x87FFE000 0x87FFF000) 0x87FFF000 = 0"
    using load64_page_eq0 [OF store64_other_page [of "0x87FFE000" 0 "0x87FFF000"]]
      load64_zero_page [of "0x87FFF000" "\<lambda>_. 0" 0] by (simp add: aligned_def)
  then show ?thesis
    by (simp add: free_pages_def example_kmem_def mem_simps page_ok_def aligned_def)
qed

theorem kalloc_refines_pop_witness:
  "returns (kalloc example_kmem) (\<lambda>r t. r = 0x87FFE000 \<and> page_ok example_kmem r
     \<and> free_pages t [0x87FFF000] \<and> held t = {}
     \<and> (\<forall>b. mem t b = (if PGROUNDDOWN b = 0x87FFE000 then 5 else mem example_kmem b)))"
  using kalloc_refines_pop [OF example_kmem_free] by (simp add: example_kmem_def)

theorem kfree_refines_push_witness:
  "returns (kfree 0x80030000 example_kmem) (\<lambda>_ t. free_pages t [0x80030000, 0x87FFE000, 0x87FFF000])
   \<and> kfree 0x80030001 example_kmem = Panic ''kfree''"
proof -
  have "page_ok example_kmem 0x80030000" "\<not> page_ok example_kmem 0x80030001"
    by (simp_all add: page_ok_def example_kmem_def aligned_def)
  then show ?thesis
    using kfree_refines_push [OF example_kmem_free, of "0x80030000"]
      kfree_refines_push [OF example_kmem_free, of "0x80030001"]
    by (auto elim: returns_mono)
qed

theorem kinit_frees_all_witness:
  "returns (kinit (example_kmem\<lparr>freelist := 0\<rparr>))
     (\<lambda>_ t. \<exists>fl. free_pages t fl \<and> set fl = {p. page_ok example_kmem p})"
  using kinit_frees_all [of "example_kmem\<lparr>freelist := 0\<rparr>"] by (simp add: example_kmem_def page_ok_def)

end
