(* ===== verification/Proc.thy ===== *)
theory Proc
  imports Vm
begin

text \<open>
  Processes, \<open>kernel/proc.c\<close> and \<open>kernel/proc.h\<close>: the process table, allocation and freeing of
  its entries, the scheduler, \<open>sleep\<close> and \<open>wakeup\<close>, \<open>wait\<close>, \<open>kill\<close>, and copying to user or kernel
  addresses. (\<open>fork\<close>, \<open>exit\<close> and \<open>userinit\<close> also use the file system; they are in theory
  \<open>Proc_Life\<close>.) A process is named by its index in the table, \<open>cur\<close> is the running hart's \<open>c->proc\<close>.
  A thread that calls \<open>sched\<close> leaves the CPU: the outcome is \<open>Switch\<close>, and what it does when it is
  scheduled again is a definition of its own (\<open>sleep_return\<close>, \<open>wait_resume\<close>).
\<close>

section \<open>State\<close>

datatype procstate = UNUSED | SLEEPING | RUNNABLE | RUNNING | ZOMBIE

record kcontext =
  ra :: u64
  sp :: u64
  callee_saved :: "u64 list"

record mmapitem =
  used :: int
  addr :: u64
  vlength :: int
  prot :: int
  flags :: int
  vfd :: int
  vfile :: "nat option"
  voffset :: int

record proc =
  pstate :: procstate
  parent :: "nat option"
  pchan :: "chan option"
  killed :: bool
  xstate :: int
  pid :: int
  kstack :: u64
  sz :: u64
  pagetable :: u64
  trapframe :: u64
  pcontext :: kcontext
  ofile :: "nat option list"
  cwd :: "nat option"
  pname :: "u8 list"
  vma :: "mmapitem list"

record proc_state = vm_state +
  procs :: "proc list"
  cur :: "nat option"
  initproc :: "nat option"
  nextpid :: int
  forkret_pc :: u64

definition MAXMMAPITEM :: nat where [simp]: "MAXMMAPITEM = 16"

text \<open>Offsets of the saved registers in the trapframe page.\<close>

definition TF_kernel_satp :: u64 where "TF_kernel_satp = 0"

definition TF_kernel_sp :: u64 where "TF_kernel_sp = 8"

definition TF_kernel_trap :: u64 where "TF_kernel_trap = 16"

definition TF_epc :: u64 where "TF_epc = 24"

definition TF_kernel_hartid :: u64 where "TF_kernel_hartid = 32"

definition TF_sp :: u64 where "TF_sp = 48"

definition TF_a0 :: u64 where "TF_a0 = 112"

definition TF_a1 :: u64 where "TF_a1 = 120"

definition TF_a2 :: u64 where "TF_a2 = 128"

definition TF_a3 :: u64 where "TF_a3 = 136"

definition TF_a4 :: u64 where "TF_a4 = 144"

definition TF_a5 :: u64 where "TF_a5 = 152"

definition TF_a7 :: u64 where "TF_a7 = 168"

section \<open>The process table\<close>

abbreviation proc_at :: "'a proc_state_scheme \<Rightarrow> nat \<Rightarrow> proc" where
  "proc_at s p \<equiv> procs s ! p"

definition upd_proc :: "nat \<Rightarrow> (proc \<Rightarrow> proc) \<Rightarrow> 'a proc_state_scheme \<Rightarrow> 'a proc_state_scheme" where
  "upd_proc p f s = s\<lparr>procs := (procs s)[p := f (procs s ! p)]\<rparr>"

text \<open>\<open>myproc()\<close>; using a null result faults in the kernel, which \<open>kerneltrap\<close> turns into a panic.\<close>

definition with_proc :: "'a proc_state_scheme \<Rightarrow> (nat \<Rightarrow> ('b, 'a proc_state_scheme) res) \<Rightarrow> ('b, 'a proc_state_scheme) res" where
  "with_proc s f = (case cur s of None \<Rightarrow> Panic ''kerneltrap'' | Some p \<Rightarrow> f p)"

definition myproc :: "'a proc_state_scheme \<Rightarrow> nat option" where
  "myproc s = cur s"

fun procinit_loop :: "nat \<Rightarrow> nat \<Rightarrow> 'a proc_state_scheme \<Rightarrow> 'a proc_state_scheme" where
  "procinit_loop i 0 s = s"
| "procinit_loop i (Suc k) s =
     procinit_loop (Suc i) k (upd_proc i (\<lambda>p. p\<lparr>kstack := KSTACK i\<rparr>) (s\<lparr>held := held s - {L_proc i}\<rparr>))"

definition procinit :: "'a proc_state_scheme \<Rightarrow> 'a proc_state_scheme" where
  "procinit s = procinit_loop 0 NPROC (s\<lparr>held := held s - {L_pid}\<rparr>)"

definition allocpid :: "'a proc_state_scheme \<Rightarrow> (int, 'a proc_state_scheme) res" where
  "allocpid s =
     andthen (acquire L_pid s) (\<lambda>_ s.
       let p = nextpid s
       in andthen (release L_pid (s\<lparr>nextpid := nextpid s + 1\<rparr>)) (\<lambda>_ s. Done p s))"

definition proc_pagetable :: "nat \<Rightarrow> 'a proc_state_scheme \<Rightarrow> (u64, 'a proc_state_scheme) res" where
  "proc_pagetable p s =
     andthen (uvmcreate s) (\<lambda>pt s.
       if pt = 0 then Done 0 s
       else andthen (mappages pt TRAMPOLINE PGSIZE (trampoline s) (PTE_R OR PTE_X) s) (\<lambda>r s.
         if r < 0 then andthen (uvmfree pt 0 s) (\<lambda>_ s. Done 0 s)
         else andthen (mappages pt TRAPFRAME PGSIZE (trapframe (proc_at s p)) (PTE_R OR PTE_W) s) (\<lambda>r s.
           if r < 0
           then andthen (uvmunmap pt TRAMPOLINE 1 False s) (\<lambda>_ s.
                andthen (uvmfree pt 0 s) (\<lambda>_ s. Done 0 s))
           else Done pt s)))"

definition proc_freepagetable :: "u64 \<Rightarrow> u64 \<Rightarrow> 'a kmem_state_scheme \<Rightarrow> (unit, 'a kmem_state_scheme) res" where
  "proc_freepagetable pt n s =
     andthen (uvmunmap pt TRAMPOLINE 1 False s) (\<lambda>_ s.
     andthen (uvmunmap pt TRAPFRAME 1 False s) (\<lambda>_ s.
     uvmfree pt n s))"

definition freeproc :: "nat \<Rightarrow> 'a proc_state_scheme \<Rightarrow> (unit, 'a proc_state_scheme) res" where
  "freeproc p s =
     andthen (if trapframe (proc_at s p) \<noteq> 0 then kfree (trapframe (proc_at s p)) s else Done () s) (\<lambda>_ s.
     let s = upd_proc p (\<lambda>q. q\<lparr>trapframe := 0\<rparr>) s in
     andthen (if pagetable (proc_at s p) \<noteq> 0
              then proc_freepagetable (pagetable (proc_at s p)) (sz (proc_at s p)) s else Done () s) (\<lambda>_ s.
     Done () (upd_proc p (\<lambda>q. q\<lparr>pagetable := 0, sz := 0, pid := 0, parent := None,
       pname := (pname q)[0 := 0], pchan := None, killed := False, xstate := 0, pstate := UNUSED\<rparr>) s)))"

fun allocproc_scan :: "nat \<Rightarrow> nat \<Rightarrow> 'a proc_state_scheme \<Rightarrow> (nat option, 'a proc_state_scheme) res" where
  "allocproc_scan i 0 s = Done None s"
| "allocproc_scan i (Suc k) s =
     andthen (acquire (L_proc i) s) (\<lambda>_ s.
       if pstate (proc_at s i) = UNUSED then Done (Some i) s
       else andthen (release (L_proc i) s) (\<lambda>_ s. allocproc_scan (Suc i) k s))"

definition unused_mmapitem :: mmapitem where
  "unused_mmapitem = \<lparr>used = 0, addr = 0, vlength = 0, prot = 0, flags = 0, vfd = 0, vfile = None, voffset = 0\<rparr>"

definition allocproc :: "'a proc_state_scheme \<Rightarrow> (nat option, 'a proc_state_scheme) res" where
  "allocproc s =
     andthen (allocproc_scan 0 NPROC s) (\<lambda>found s.
     case found of None \<Rightarrow> Done None s
     | Some p \<Rightarrow>
       andthen (allocpid s) (\<lambda>n s.
       let s = upd_proc p (\<lambda>q. q\<lparr>pid := n\<rparr>) s in
       andthen (kalloc s) (\<lambda>tf s.
       let s = upd_proc p (\<lambda>q. q\<lparr>trapframe := tf\<rparr>) s in
       if tf = 0 then andthen (release (L_proc p) s) (\<lambda>_ s. Done None s)
       else andthen (proc_pagetable p s) (\<lambda>pt s.
       let s = upd_proc p (\<lambda>q. q\<lparr>pagetable := pt\<rparr>) s in
       if pt = 0
       then andthen (freeproc p s) (\<lambda>_ s. andthen (release (L_proc p) s) (\<lambda>_ s. Done None s))
       else Done (Some p) (upd_proc p (\<lambda>q. q\<lparr>
              pcontext := \<lparr>ra = forkret_pc s, sp = kstack q + PGSIZE, callee_saved = replicate 12 0\<rparr>,
              vma := replicate MAXMMAPITEM unused_mmapitem\<rparr>) s)))))"

text \<open>\<open>n\<close> is a C \<open>int\<close>, the local \<open>sz\<close> a 32-bit unsigned.\<close>

definition growproc :: "int \<Rightarrow> 'a proc_state_scheme \<Rightarrow> (int, 'a proc_state_scheme) res" where
  "growproc n s = with_proc s (\<lambda>p.
     let sz32 = ucast (sz (proc_at s p)) :: u32;
         pt = pagetable (proc_at s p)
     in if n > 0 then
          andthen (uvmalloc pt (ucast sz32) (ucast (sz32 + word_of_int n)) s) (\<lambda>r s.
            let sz32 = ucast r :: u32
            in if sz32 = 0 then Done (- 1) s
               else Done 0 (upd_proc p (\<lambda>q. q\<lparr>sz := ucast sz32\<rparr>) s))
        else if n < 0 then
          andthen (uvmdealloc pt (ucast sz32) (ucast (sz32 + word_of_int n)) s) (\<lambda>r s.
            Done 0 (upd_proc p (\<lambda>q. q\<lparr>sz := ucast (ucast r :: u32)\<rparr>) s))
        else Done 0 (upd_proc p (\<lambda>q. q\<lparr>sz := ucast sz32\<rparr>) s))"

section \<open>Giving up and getting the CPU\<close>

definition sched :: "'a proc_state_scheme \<Rightarrow> (unit, 'a proc_state_scheme) res" where
  "sched s = with_proc s (\<lambda>p.
     if L_proc p \<notin> held s then Panic ''sched p->lock''
     else if card (held s) \<noteq> 1 then Panic ''sched locks''
     else if pstate (proc_at s p) = RUNNING then Panic ''sched running''
     else if intr_enabled s then Panic ''sched interruptible''
     else Switch s)"

text \<open>The two halves of the scheduler's loop body for table entry \<open>i\<close>: up to the switch to the
  chosen process (which then runs with its own lock held), and from the switch back on.\<close>

definition scheduler_enter :: "nat \<Rightarrow> nat \<Rightarrow> 'a proc_state_scheme \<Rightarrow> (bool \<times> nat, 'a proc_state_scheme) res" where
  "scheduler_enter i nproc s =
     andthen (acquire (L_proc i) s) (\<lambda>_ s.
       let nproc = (if pstate (proc_at s i) \<noteq> UNUSED then nproc + 1 else nproc)
       in if pstate (proc_at s i) = RUNNABLE
          then Done (True, nproc) ((upd_proc i (\<lambda>q. q\<lparr>pstate := RUNNING\<rparr>) s)\<lparr>cur := Some i\<rparr>)
          else andthen (release (L_proc i) s) (\<lambda>_ s. Done (False, nproc) s))"

definition scheduler_leave :: "nat \<Rightarrow> 'a proc_state_scheme \<Rightarrow> (unit, 'a proc_state_scheme) res" where
  "scheduler_leave i s = release (L_proc i) (s\<lparr>cur := None\<rparr>)"

definition yield :: "'a proc_state_scheme \<Rightarrow> (unit, 'a proc_state_scheme) res" where
  "yield s = with_proc s (\<lambda>p.
     andthen (acquire (L_proc p) s) (\<lambda>_ s.
     andthen (sched (upd_proc p (\<lambda>q. q\<lparr>pstate := RUNNABLE\<rparr>) s)) (\<lambda>_ s.
     release (L_proc p) s)))"

text \<open>\<open>sleep\<close> up to its call of \<open>sched\<close>, which ends the run of the thread with \<open>Switch\<close>, and the part
  that runs when the thread is scheduled again.\<close>

definition sleep :: "chan \<Rightarrow> lockid \<Rightarrow> 'a proc_state_scheme \<Rightarrow> (unit, 'a proc_state_scheme) res" where
  "sleep c lk s = with_proc s (\<lambda>p.
     andthen (if lk \<noteq> L_proc p
              then andthen (acquire (L_proc p) s) (\<lambda>_ s. release lk s) else Done () s) (\<lambda>_ s.
     sched (upd_proc p (\<lambda>q. q\<lparr>pchan := Some c, pstate := SLEEPING\<rparr>) s)))"

definition sleep_return :: "lockid \<Rightarrow> 'a proc_state_scheme \<Rightarrow> (unit, 'a proc_state_scheme) res" where
  "sleep_return lk s = with_proc s (\<lambda>p.
     let s = upd_proc p (\<lambda>q. q\<lparr>pchan := None\<rparr>) s
     in if lk \<noteq> L_proc p
        then andthen (release (L_proc p) s) (\<lambda>_ s. acquire lk s) else Done () s)"

fun wakeup_loop :: "chan \<Rightarrow> nat \<Rightarrow> nat \<Rightarrow> 'a proc_state_scheme \<Rightarrow> (unit, 'a proc_state_scheme) res" where
  "wakeup_loop c i 0 s = Done () s"
| "wakeup_loop c i (Suc k) s =
     andthen (acquire (L_proc i) s) (\<lambda>_ s.
     andthen (release (L_proc i)
        (if pstate (proc_at s i) = SLEEPING \<and> pchan (proc_at s i) = Some c
         then upd_proc i (\<lambda>q. q\<lparr>pstate := RUNNABLE\<rparr>) s else s)) (\<lambda>_ s.
     wakeup_loop c (Suc i) k s))"

definition wakeup :: "chan \<Rightarrow> 'a proc_state_scheme \<Rightarrow> (unit, 'a proc_state_scheme) res" where
  "wakeup c s = wakeup_loop c 0 NPROC s"

definition wakeup1 :: "nat \<Rightarrow> 'a proc_state_scheme \<Rightarrow> (unit, 'a proc_state_scheme) res" where
  "wakeup1 p s =
     (if L_proc p \<notin> held s then Panic ''wakeup1''
      else Done () (if pchan (proc_at s p) = Some (Ch_proc p) \<and> pstate (proc_at s p) = SLEEPING
                    then upd_proc p (\<lambda>q. q\<lparr>pstate := RUNNABLE\<rparr>) s else s))"

fun kill_loop :: "int \<Rightarrow> nat \<Rightarrow> nat \<Rightarrow> 'a proc_state_scheme \<Rightarrow> (int, 'a proc_state_scheme) res" where
  "kill_loop n i 0 s = Done (- 1) s"
| "kill_loop n i (Suc k) s =
     andthen (acquire (L_proc i) s) (\<lambda>_ s.
       if pid (proc_at s i) = n
       then andthen (release (L_proc i)
              (upd_proc i (\<lambda>q. q\<lparr>killed := True,
                 pstate := (if pstate q = SLEEPING then RUNNABLE else pstate q)\<rparr>) s)) (\<lambda>_ s. Done 0 s)
       else andthen (release (L_proc i) s) (\<lambda>_ s. kill_loop n (Suc i) k s))"

definition kill :: "int \<Rightarrow> 'a proc_state_scheme \<Rightarrow> (int, 'a proc_state_scheme) res" where
  "kill n s = kill_loop n 0 NPROC s"

section \<open>Parents and children\<close>

fun reparent_loop :: "nat \<Rightarrow> nat \<Rightarrow> nat \<Rightarrow> 'a proc_state_scheme \<Rightarrow> (unit, 'a proc_state_scheme) res" where
  "reparent_loop p i 0 s = Done () s"
| "reparent_loop p i (Suc k) s =
     (if parent (proc_at s i) = Some p
      then andthen (acquire (L_proc i) s) (\<lambda>_ s.
           andthen (release (L_proc i) (upd_proc i (\<lambda>q. q\<lparr>parent := initproc s\<rparr>) s)) (\<lambda>_ s.
           reparent_loop p (Suc i) k s))
      else reparent_loop p (Suc i) k s)"

definition reparent :: "nat \<Rightarrow> 'a proc_state_scheme \<Rightarrow> (unit, 'a proc_state_scheme) res" where
  "reparent p s = reparent_loop p 0 NPROC s"

text \<open>The scan of \<open>wait\<close> over the table: \<open>Inl r\<close> when \<open>wait\<close> returns \<open>r\<close>, \<open>Inr havekids\<close> at the end.\<close>

fun wait_scan :: "nat \<Rightarrow> u64 \<Rightarrow> nat \<Rightarrow> nat \<Rightarrow> bool \<Rightarrow> 'a proc_state_scheme \<Rightarrow> (int + bool, 'a proc_state_scheme) res" where
  "wait_scan p a i 0 havekids s = Done (Inr havekids) s"
| "wait_scan p a i (Suc k) havekids s =
     (if parent (proc_at s i) = Some p
      then andthen (acquire (L_proc i) s) (\<lambda>_ s.
        if pstate (proc_at s i) = ZOMBIE
        then let n = pid (proc_at s i)
             in andthen (if a \<noteq> 0
                  then copyout (pagetable (proc_at s p)) a (word_le 4 (word_of_int (xstate (proc_at s i)) :: u32)) s
                  else Done 0 s) (\<lambda>r s.
                if r < 0
                then andthen (release (L_proc i) s) (\<lambda>_ s.
                     andthen (release (L_proc p) s) (\<lambda>_ s. Done (Inl (- 1)) s))
                else andthen (freeproc i s) (\<lambda>_ s.
                     andthen (release (L_proc i) s) (\<lambda>_ s.
                     andthen (release (L_proc p) s) (\<lambda>_ s. Done (Inl n) s))))
        else andthen (release (L_proc i) s) (\<lambda>_ s. wait_scan p a (Suc i) k True s))
      else wait_scan p a (Suc i) k havekids s)"

text \<open>One turn of \<open>wait\<close>'s loop, entered with \<open>p->lock\<close> held.\<close>

definition wait_turn :: "nat \<Rightarrow> u64 \<Rightarrow> 'a proc_state_scheme \<Rightarrow> (int, 'a proc_state_scheme) res" where
  "wait_turn p a s =
     andthen (wait_scan p a 0 NPROC False s) (\<lambda>x s.
       case x of Inl r \<Rightarrow> Done r s
       | Inr havekids \<Rightarrow>
         if \<not> havekids \<or> killed (proc_at s p)
         then andthen (release (L_proc p) s) (\<lambda>_ s. Done (- 1) s)
         else andthen (sleep (Ch_proc p) (L_proc p) s) (\<lambda>_ s. Done 0 s))"

definition wait :: "u64 \<Rightarrow> 'a proc_state_scheme \<Rightarrow> (int, 'a proc_state_scheme) res" where
  "wait a s = with_proc s (\<lambda>p. andthen (acquire (L_proc p) s) (\<lambda>_ s. wait_turn p a s))"

definition wait_resume :: "u64 \<Rightarrow> 'a proc_state_scheme \<Rightarrow> (int, 'a proc_state_scheme) res" where
  "wait_resume a s = with_proc s (\<lambda>p. andthen (sleep_return (L_proc p) s) (\<lambda>_ s. wait_turn p a s))"

section \<open>Copying to and from user or kernel addresses\<close>

text \<open>
  A kernel address is either a physical page (loading a program) or an object of the caller,
  given by its bytes. The result has the destination with the bytes copied into it.
\<close>

datatype kdst = UserDst u64 | PhysDst u64 | BufDst "u8 list"

definition either_copyout :: "kdst \<Rightarrow> u8 list \<Rightarrow> 'a proc_state_scheme \<Rightarrow> (int \<times> kdst, 'a proc_state_scheme) res" where
  "either_copyout dst src s =
     (case dst of
        UserDst a \<Rightarrow> with_proc s (\<lambda>p.
          andthen (copyout (pagetable (proc_at s p)) a src s) (\<lambda>r s. Done (r, UserDst (a + of_nat (length src))) s))
      | PhysDst a \<Rightarrow> Done (0, PhysDst (a + of_nat (length src))) (s\<lparr>mem := mem_write (mem s) a src\<rparr>)
      | BufDst bs \<Rightarrow> Done (0, BufDst (bs @ src)) s)"

datatype ksrc = UserSrc u64 | BufSrc "u8 list"

definition either_copyin :: "ksrc \<Rightarrow> nat \<Rightarrow> 'a proc_state_scheme \<Rightarrow> (int \<times> u8 list \<times> ksrc, 'a proc_state_scheme) res" where
  "either_copyin src len s =
     (case src of
        UserSrc a \<Rightarrow> with_proc s (\<lambda>p.
          andthen (copyin (pagetable (proc_at s p)) [] a len s) (\<lambda>(r, bs) s. Done (r, bs, UserSrc (a + of_nat len)) s))
      | BufSrc bs \<Rightarrow> Done (0, take len bs, BufSrc (drop len bs)) s)"

section \<open>Wakeup and kill\<close>

lemma acquire_free [simp]: "l \<notin> held s \<Longrightarrow> acquire l s = Done () (s\<lparr>held := insert l (held s)\<rparr>)"
  by (simp add: acquire_def)

lemma release_held [simp]: "l \<in> held s \<Longrightarrow> release l s = Done () (s\<lparr>held := held s - {l}\<rparr>)"
  by (simp add: release_def)

lemma upd_proc_simps [simp]:
  "held (upd_proc p f s) = held s" "mem (upd_proc p f s) = mem s" "freelist (upd_proc p f s) = freelist s"
  "kend (upd_proc p f s) = kend s" "cur (upd_proc p f s) = cur s" "initproc (upd_proc p f s) = initproc s"
  "procs (upd_proc p f s) = (procs s)[p := f (procs s ! p)]"
  "length (procs (upd_proc p f s)) = length (procs s)"
  "nextpid (upd_proc p f s) = nextpid s" "ien (upd_proc p f s) = ien s"
  by (simp_all add: upd_proc_def)

definition awaken :: "chan \<Rightarrow> proc \<Rightarrow> proc" where
  "awaken c q = (if pstate q = SLEEPING \<and> pchan q = Some c then q\<lparr>pstate := RUNNABLE\<rparr> else q)"

text \<open>Rewriting a run of table entries.\<close>

definition map_range :: "nat \<Rightarrow> nat \<Rightarrow> ('x \<Rightarrow> 'x) \<Rightarrow> 'x list \<Rightarrow> 'x list" where
  "map_range i k f xs = take i xs @ map f (take k (drop i xs)) @ drop (i + k) xs"

lemma map_range_0 [simp]: "map_range i 0 f xs = xs"
  by (simp add: map_range_def)

lemma map_range_Suc: "i < length xs \<Longrightarrow> map_range (Suc i) k f (xs[i := f (xs ! i)]) = map_range i (Suc k) f xs"
  by (simp add: map_range_def take_Suc_conv_app_nth Cons_nth_drop_Suc [symmetric])

lemma map_range_all: "k = length xs \<Longrightarrow> map_range 0 k f xs = map f xs"
  by (simp add: map_range_def)

lemma section_state: "l \<notin> held s \<Longrightarrow> s\<lparr>held := insert l (held s) - {l}\<rparr> = s"
  by simp

lemma wakeup_loop_Done:
  "i + k \<le> length (procs s) \<Longrightarrow> \<forall>j. L_proc j \<notin> held s \<Longrightarrow>
   wakeup_loop c i k s = Done () (s\<lparr>procs := map_range i k (awaken c) (procs s)\<rparr>)"
proof (induction k arbitrary: i s)
  case (Suc k)
  let ?s = "s\<lparr>procs := (procs s)[i := awaken c (procs s ! i)]\<rparr>"
  have "wakeup_loop c i (Suc k) s = wakeup_loop c (Suc i) k ?s"
    using Suc.prems(2) by (simp add: awaken_def upd_proc_def)
  also have "\<dots> = Done () (?s\<lparr>procs := map_range (Suc i) k (awaken c) (procs ?s)\<rparr>)"
    using Suc.prems by (intro Suc.IH) simp_all
  finally show ?case using Suc.prems by (simp add: map_range_Suc)
qed simp

lemma wakeup_Done:
  assumes "length (procs s) = NPROC" and "\<forall>j. L_proc j \<notin> held s"
  shows "wakeup c s = Done () (s\<lparr>procs := map (awaken c) (procs s)\<rparr>)"
  using wakeup_loop_Done [of 0 NPROC s c] assms by (simp add: wakeup_def map_range_all)

definition kill_proc :: "proc \<Rightarrow> proc" where
  "kill_proc q = q\<lparr>killed := True, pstate := (if pstate q = SLEEPING then RUNNABLE else pstate q)\<rparr>"

lemma kill_loop_Done:
  "\<forall>j. L_proc j \<notin> held s \<Longrightarrow> kill_loop n i k s =
   (case find (\<lambda>j. pid (procs s ! j) = n) [i..<i + k] of
      None \<Rightarrow> Done (- 1) s
    | Some j \<Rightarrow> Done 0 (s\<lparr>procs := (procs s)[j := kill_proc (procs s ! j)]\<rparr>))"
proof (induction k arbitrary: i)
  case (Suc k)
  have "[i..<i + Suc k] = i # [Suc i..<Suc i + k]" by (simp add: upt_conv_Cons del: upt_Suc)
  then show ?case
    using Suc.IH [OF Suc.prems, of "Suc i"] Suc.prems
    by (cases "pid (procs s ! i) = n") (simp_all add: kill_proc_def upd_proc_def del: upt_Suc)
qed simp

section \<open>Sleeping and waking up\<close>

lemma sleep_Switch:
  assumes "cur s = Some p" and "held s = {lk}" and "lk \<noteq> L_proc p" and "p < length (procs s)"
  shows "sleep c lk s = Switch (upd_proc p (\<lambda>q. q\<lparr>pchan := Some c, pstate := SLEEPING\<rparr>) (s\<lparr>held := {L_proc p}\<rparr>))"
proof -
  have "insert (L_proc p) {lk} - {lk} = {L_proc p}" using assms(3) by auto
  then show ?thesis
    using assms by (simp add: sleep_def with_proc_def sched_def intr_enabled_def)
qed

section \<open>Children\<close>

definition adopt :: "nat \<Rightarrow> nat option \<Rightarrow> proc \<Rightarrow> proc" where
  "adopt p ip q = (if parent q = Some p then q\<lparr>parent := ip\<rparr> else q)"

lemma reparent_loop_Done:
  "i + k \<le> length (procs s) \<Longrightarrow> \<forall>j. parent (procs s ! j) = Some p \<longrightarrow> L_proc j \<notin> held s \<Longrightarrow>
   reparent_loop p i k s = Done () (s\<lparr>procs := map_range i k (adopt p (initproc s)) (procs s)\<rparr>)"
proof (induction k arbitrary: i s)
  case (Suc k)
  let ?s = "s\<lparr>procs := (procs s)[i := adopt p (initproc s) (procs s ! i)]\<rparr>"
  have l: "parent (procs s ! i) = Some p \<longrightarrow> L_proc i \<notin> held s" using Suc.prems(2) by blast
  have "reparent_loop p i (Suc k) s = reparent_loop p (Suc i) k ?s"
    using l by (simp add: adopt_def upd_proc_def)
  also have "\<dots> = Done () (?s\<lparr>procs := map_range (Suc i) k (adopt p (initproc ?s)) (procs ?s)\<rparr>)"
    using Suc.prems by (intro Suc.IH) (auto simp: nth_list_update adopt_def)
  finally show ?case using Suc.prems by (simp add: map_range_Suc)
qed simp

lemma wait_scan_alive:
  "\<forall>j\<in>set [i..<i + k]. parent (procs s ! j) = Some p \<longrightarrow> L_proc j \<notin> held s \<and> pstate (procs s ! j) \<noteq> ZOMBIE \<Longrightarrow>
   wait_scan p a i k h s = Done (Inr (h \<or> (\<exists>j\<in>set [i..<i + k]. parent (procs s ! j) = Some p))) s"
proof (induction k arbitrary: i h)
  case (Suc k)
  have u: "set [i..<i + Suc k] = insert i (set [Suc i..<Suc i + k])" by (auto simp: le_less)
  have IH: "wait_scan p a (Suc i) k h' s = Done (Inr (h' \<or> (\<exists>j\<in>set [Suc i..<Suc i + k]. parent (procs s ! j) = Some p))) s" for h'
    using Suc.prems unfolding u by (intro Suc.IH) blast
  have "L_proc i \<notin> held s \<and> pstate (procs s ! i) \<noteq> ZOMBIE" if "parent (procs s ! i) = Some p"
    using Suc.prems that unfolding u by blast
  then show ?case
    unfolding u by (cases "parent (procs s ! i) = Some p") (simp_all add: IH del: set_upt)
qed simp

section \<open>Events while a process sleeps\<close>

text \<open>What the other processes do to a sleeper: any sequence of calls of \<open>wakeup\<close> and \<open>kill\<close>.\<close>

datatype proc_event = Wakeup chan | Kill int

fun run_events :: "proc_event list \<Rightarrow> 'a proc_state_scheme \<Rightarrow> (unit, 'a proc_state_scheme) res" where
  "run_events [] s = Done () s"
| "run_events (Wakeup c # es) s = andthen (wakeup c s) (\<lambda>_ s. run_events es s)"
| "run_events (Kill n # es) s = andthen (kill n s) (\<lambda>_ s. run_events es s)"

text \<open>The first process with a given pid, the effect of an event on the table, and the events that end the sleep of process \<open>p\<close>
  on channel \<open>c\<close>.\<close>

definition victim :: "proc list \<Rightarrow> int \<Rightarrow> nat option" where
  "victim ps n = find (\<lambda>i. pid (ps ! i) = n) [0..<NPROC]"

fun event_effect :: "proc_event \<Rightarrow> proc list \<Rightarrow> proc list" where
  "event_effect (Wakeup c) ps = map (awaken c) ps"
| "event_effect (Kill n) ps = (case victim ps n of None \<Rightarrow> ps | Some i \<Rightarrow> ps[i := kill_proc (ps ! i)])"

fun rouses :: "chan \<Rightarrow> nat \<Rightarrow> proc list \<Rightarrow> proc_event \<Rightarrow> bool" where
  "rouses c p ps (Wakeup d) \<longleftrightarrow> d = c"
| "rouses c p ps (Kill n) \<longleftrightarrow> victim ps n = Some p"

lemma run_events_Done:
  "length (procs s) = NPROC \<Longrightarrow> \<forall>j. L_proc j \<notin> held s \<Longrightarrow>
   run_events es s = Done () (s\<lparr>procs := fold event_effect es (procs s)\<rparr>)"
proof (induction es arbitrary: s)
  case (Cons e es)
  have "length (event_effect e (procs s)) = NPROC" using Cons.prems(1) by (cases e) (simp_all split: option.split)
  then have "run_events es (s\<lparr>procs := event_effect e (procs s)\<rparr>)
      = Done () (s\<lparr>procs := fold event_effect es (event_effect e (procs s))\<rparr>)"
    using Cons.IH [of "s\<lparr>procs := event_effect e (procs s)\<rparr>"] Cons.prems(2) by simp
  moreover have "kill n s = (case victim (procs s) n of None \<Rightarrow> Done (- 1) s
      | Some j \<Rightarrow> Done 0 (s\<lparr>procs := (procs s)[j := kill_proc (procs s ! j)]\<rparr>))" for n
    using kill_loop_Done [OF Cons.prems(2), of n 0 NPROC] by (simp add: kill_def victim_def)
  ultimately show ?case
    using Cons.prems by (cases e) (auto simp: wakeup_Done split: option.splits)
qed simp

lemma victim_less: "victim ps n = Some i \<Longrightarrow> i < NPROC"
  by (auto simp: victim_def find_Some_iff)

lemma event_effect_pid:
  assumes "length ps = NPROC"
  shows "length (event_effect e ps) = NPROC" "victim (event_effect e ps) n = victim ps n"
proof -
  show l: "length (event_effect e ps) = NPROC" using assms by (cases e) (simp_all split: option.split)
  have "pid (event_effect e ps ! i) = pid (ps ! i)" if "i < NPROC" for i
    using that assms by (cases e) (auto simp: awaken_def kill_proc_def nth_list_update dest: victim_less split: option.split)
  then show "victim (event_effect e ps) n = victim ps n" unfolding victim_def by (intro find_cong) simp_all
qed

lemma rouses_effect: "length ps = NPROC \<Longrightarrow> rouses c p (event_effect e ps) e' = rouses c p ps e'"
  by (cases e') (simp_all add: event_effect_pid(2))

text \<open>The sleeper itself: it becomes runnable with the first event that rouses it and keeps its channel.\<close>

lemma fold_events_sleeper:
  "length ps = NPROC \<Longrightarrow> p < NPROC \<Longrightarrow> pchan (ps ! p) = Some c \<Longrightarrow> pstate (ps ! p) \<in> {SLEEPING, RUNNABLE} \<Longrightarrow>
   pchan (fold event_effect es ps ! p) = Some c \<and> pstate (fold event_effect es ps ! p) =
     (if pstate (ps ! p) = RUNNABLE \<or> (\<exists>e\<in>set es. rouses c p ps e) then RUNNABLE else SLEEPING)
   \<and> length (fold event_effect es ps) = NPROC"
proof (induction es arbitrary: ps)
  case (Cons e es)
  let ?ps = "event_effect e ps"
  have "pchan (?ps ! p) = Some c \<and> pstate (?ps ! p) = (if pstate (ps ! p) = RUNNABLE \<or> rouses c p ps e then RUNNABLE else SLEEPING)"
    using Cons.prems by (cases e) (auto simp: awaken_def kill_proc_def nth_list_update dest: victim_less split: option.split)
  then show ?case using Cons.IH [of ?ps] Cons.prems rouses_effect [of ps c p e] event_effect_pid(1) [of ps e] by auto
qed auto

section \<open>What the process operations promise\<close>


text \<open>C24: \<open>kill\<close> marks the first process with the given pid as killed and makes it runnable if it was
  asleep, returning 0; without such a process it returns -1 and changes nothing. It never panics
  when the caller holds no process lock.\<close>

theorem kill_marks_victim:
  assumes "\<forall>j. L_proc j \<notin> held s"
  shows "kill n s = (case find (\<lambda>i. pid (procs s ! i) = n) [0..<NPROC] of
      None \<Rightarrow> Done (- 1) s
    | Some i \<Rightarrow> Done 0 (s\<lparr>procs := (procs s)[i := (procs s ! i)\<lparr>killed := True,
        pstate := (if pstate (procs s ! i) = SLEEPING then RUNNABLE else pstate (procs s ! i))\<rparr>]\<rparr>))"
  using kill_loop_Done [OF assms, of n 0 NPROC] by (simp add: kill_def kill_proc_def split: option.splits)

text \<open>C25: \<open>reparent\<close> hands all children of an exiting process to \<open>initproc\<close> and changes nothing else;
  afterwards no process has the exiting one as its parent.\<close>

theorem reparent_hands_over:
  assumes "length (procs s) = NPROC" and "initproc s \<noteq> Some p"
    and "\<forall>j. parent (procs s ! j) = Some p \<longrightarrow> L_proc j \<notin> held s"
  shows "returns (reparent p s) (\<lambda>_ t. t = s\<lparr>procs := map (adopt p (initproc s)) (procs s)\<rparr>
    \<and> (\<forall>q\<in>set (procs t). parent q \<noteq> Some p))"
  using reparent_loop_Done [of 0 NPROC s p] assms
  by (auto simp: reparent_def map_range_all adopt_def)

text \<open>C26: \<open>wait\<close> of a process none of whose children is a zombie: without children, or when killed, it
  returns -1 and leaves the state as it was; otherwise it goes to sleep on its own channel,
  holding just its own lock.\<close>

theorem wait_without_zombie:
  assumes "cur s = Some p" and "p < NPROC" and "length (procs s) = NPROC" and "held s = {}"
    and "parent (procs s ! p) \<noteq> Some p"
    and "\<forall>j<NPROC. parent (procs s ! j) = Some p \<longrightarrow> pstate (procs s ! j) \<noteq> ZOMBIE"
  shows "if (\<exists>j<NPROC. parent (procs s ! j) = Some p) \<and> \<not> killed (procs s ! p)
    then wait a s = Switch (upd_proc p (\<lambda>q. q\<lparr>pchan := Some (Ch_proc p), pstate := SLEEPING\<rparr>) (s\<lparr>held := {L_proc p}\<rparr>))
    else wait a s = Done (- 1) s"
proof -
  let ?s = "s\<lparr>held := {L_proc p}\<rparr>"
  have "\<forall>j\<in>set [0..<0 + NPROC]. parent (procs ?s ! j) = Some p \<longrightarrow> L_proc j \<notin> held ?s \<and> pstate (procs ?s ! j) \<noteq> ZOMBIE"
    using assms(5,6) by auto
  note scan = wait_scan_alive [OF this, of a False]
  have ex: "(\<exists>j\<in>set [0..<0 + NPROC]. parent (procs ?s ! j) = Some p) \<longleftrightarrow> (\<exists>j<NPROC. parent (procs s ! j) = Some p)"
    by auto
  have "wait a s = wait_turn p a ?s" using assms(1,4) by (simp add: wait_def with_proc_def)
  moreover have "s\<lparr>held := {}\<rparr> = s" using assms(4) by simp
  ultimately show ?thesis
    using scan [unfolded ex] assms(1-4)
    by (auto simp: wait_turn_def sleep_def with_proc_def sched_def intr_enabled_def)
qed

section \<open>A concrete process table\<close>

definition example_proc :: proc where
  "example_proc = \<lparr>pstate = UNUSED, parent = None, pchan = None, killed = False, xstate = 0, pid = 0, kstack = 0,
     sz = 0, pagetable = 0, trapframe = 0, pcontext = \<lparr>ra = 0, sp = 0, callee_saved = []\<rparr>,
     ofile = replicate 16 None, cwd = None, pname = replicate 16 0, vma = replicate 16 unused_mmapitem\<rparr>"

definition example_procs :: proc_state where
  "example_procs = \<lparr>held = {}, ien = True, mem = (\<lambda>_. 0), freelist = 0, kend = 0x80025000, etext = 0x80008000,
     trampoline = 0x80007000, kernel_pagetable = 0, satp = 0,
     procs = (replicate 64 example_proc)[0 := example_proc\<lparr>pstate := RUNNABLE, pid := 1\<rparr>,
       1 := example_proc\<lparr>pstate := RUNNING, pid := 2, parent := Some 0\<rparr>,
       2 := example_proc\<lparr>pstate := SLEEPING, pid := 3, parent := Some 1, pchan := Some Ch_ticks\<rparr>],
     cur = Some 1, initproc = Some 0, nextpid = 4, forkret_pc = 0\<rparr>"

lemma example_procs_nth:
  "i < 64 \<Longrightarrow> procs example_procs ! i = (if i = 0 then example_proc\<lparr>pstate := RUNNABLE, pid := 1\<rparr>
     else if i = 1 then example_proc\<lparr>pstate := RUNNING, pid := 2, parent := Some 0\<rparr>
     else if i = 2 then example_proc\<lparr>pstate := SLEEPING, pid := 3, parent := Some 1, pchan := Some Ch_ticks\<rparr>
     else example_proc)"
  by (simp add: example_procs_def nth_list_update)

lemma example_procs_simps [simp]:
  "held example_procs = {}" "cur example_procs = Some 1" "initproc example_procs = Some 0"
  "length (procs example_procs) = 64"
  by (simp_all add: example_procs_def)


theorem kill_marks_victim_witness:
  "returns (kill 3 example_procs) (\<lambda>r t. r = 0 \<and> pstate (procs t ! 2) = RUNNABLE \<and> killed (procs t ! 2))
   \<and> kill 7 example_procs = Done (- 1) example_procs"
proof -
  have "find (\<lambda>i. pid (procs example_procs ! i) = 3) [0..<NPROC] = Some 2"
    by (simp add: upt_conv_Cons example_procs_nth example_proc_def)
  moreover have "find (\<lambda>i. pid (procs example_procs ! i) = 7) [0..<NPROC] = None"
    by (auto simp: find_None_iff example_procs_nth example_proc_def)
  ultimately show ?thesis
    using kill_marks_victim [of example_procs 3] kill_marks_victim [of example_procs 7]
    by (simp add: example_procs_nth)
qed

theorem reparent_hands_over_witness:
  "returns (reparent 1 example_procs) (\<lambda>_ t. parent (procs t ! 2) = Some 0)"
  using reparent_hands_over [of example_procs 1]
  by (auto elim!: returns_mono simp: example_procs_nth adopt_def example_proc_def)

theorem wait_without_zombie_witness:
  "wait 0 example_procs = Switch (upd_proc 1 (\<lambda>q. q\<lparr>pchan := Some (Ch_proc 1), pstate := SLEEPING\<rparr>)
     (example_procs\<lparr>held := {L_proc 1}\<rparr>))"
proof -
  have "\<exists>j<NPROC. parent (procs example_procs ! j) = Some 1"
    by (intro exI [of _ 2]) (simp add: example_procs_nth)
  then show ?thesis
    using wait_without_zombie [of example_procs 1 0]
    by (simp add: example_procs_nth example_proc_def)
qed

end
