(* ===== verification/Sleep_Wakeup.thy ===== *)
theory Sleep_Wakeup
  imports Proc
begin

text \<open>
  Why no wakeup is lost: \<open>sleep\<close> and \<open>wakeup\<close> of \<open>kernel/proc.c\<close> at the granularity of their lock
  operations and writes, for any number of processes waiting for one condition under one lock
  \<open>lk\<close>. A waiter follows the kernel's idiom: take \<open>lk\<close>, test the condition, call \<open>sleep\<close> when it does
  not hold (which takes \<open>p->lock\<close>, releases \<open>lk\<close>, sets \<open>chan\<close> and \<open>state\<close>, and switches to the scheduler,
  which releases \<open>p->lock\<close>); the waker sets the condition under \<open>lk\<close> and runs the loop of \<open>wakeup\<close>.
  \<open>kill\<close> may make a sleeper runnable at any time. The operations of theory \<open>Proc\<close> are then shown to run through these steps.
\<close>

section \<open>The interleaving\<close>

datatype sw_thread = Waiter nat | Waker

datatype waiter_pc =
    W_acquire | W_check | W_lockp | W_unlock | W_mark | W_switch | W_asleep | W_back | W_got

datatype waker_pc = K_idle | K_set | K_scan nat | K_at nat

record sw_state =
  lk_by :: "sw_thread option"
  plock_by :: "nat \<Rightarrow> sw_thread option"
  cond :: bool
  st :: "nat \<Rightarrow> procstate"
  on_chan :: "nat \<Rightarrow> bool"
  wpc :: "nat \<Rightarrow> waiter_pc"
  kpc :: waker_pc

definition sw_boot :: "sw_state \<Rightarrow> bool" where
  "sw_boot s \<longleftrightarrow> lk_by s = None \<and> plock_by s = (\<lambda>_. None) \<and> st s = (\<lambda>_. RUNNING)
     \<and> on_chan s = (\<lambda>_. False) \<and> wpc s = (\<lambda>_. W_acquire) \<and> kpc s = K_idle"

inductive sw_step :: "nat \<Rightarrow> sw_state \<Rightarrow> sw_state \<Rightarrow> bool" for n where
  w_acquire: "wpc s i = W_acquire \<Longrightarrow> i < n \<Longrightarrow> lk_by s = None \<Longrightarrow>
     sw_step n s (s\<lparr>lk_by := Some (Waiter i), wpc := (wpc s)(i := W_check)\<rparr>)"
| w_take: "wpc s i = W_check \<Longrightarrow> i < n \<Longrightarrow> cond s \<Longrightarrow>
     sw_step n s (s\<lparr>cond := False, wpc := (wpc s)(i := W_got)\<rparr>)"
| w_leave: "wpc s i = W_got \<Longrightarrow> i < n \<Longrightarrow>
     sw_step n s (s\<lparr>lk_by := None, wpc := (wpc s)(i := W_acquire)\<rparr>)"
| w_sleep: "wpc s i = W_check \<Longrightarrow> i < n \<Longrightarrow> \<not> cond s \<Longrightarrow>
     sw_step n s (s\<lparr>wpc := (wpc s)(i := W_lockp)\<rparr>)"
| w_lockp: "wpc s i = W_lockp \<Longrightarrow> i < n \<Longrightarrow> plock_by s i = None \<Longrightarrow>
     sw_step n s (s\<lparr>plock_by := (plock_by s)(i := Some (Waiter i)), wpc := (wpc s)(i := W_unlock)\<rparr>)"
| w_unlock: "wpc s i = W_unlock \<Longrightarrow> i < n \<Longrightarrow>
     sw_step n s (s\<lparr>lk_by := None, wpc := (wpc s)(i := W_mark)\<rparr>)"
| w_mark: "wpc s i = W_mark \<Longrightarrow> i < n \<Longrightarrow>
     sw_step n s (s\<lparr>on_chan := (on_chan s)(i := True), st := (st s)(i := SLEEPING),
       wpc := (wpc s)(i := W_switch)\<rparr>)"
| w_switch: "wpc s i = W_switch \<Longrightarrow> i < n \<Longrightarrow>
     sw_step n s (s\<lparr>plock_by := (plock_by s)(i := None), wpc := (wpc s)(i := W_asleep)\<rparr>)"
| w_scheduled: "wpc s i = W_asleep \<Longrightarrow> i < n \<Longrightarrow> plock_by s i = None \<Longrightarrow> st s i = RUNNABLE \<Longrightarrow>
     sw_step n s (s\<lparr>plock_by := (plock_by s)(i := Some (Waiter i)), st := (st s)(i := RUNNING),
       wpc := (wpc s)(i := W_back)\<rparr>)"
| w_back: "wpc s i = W_back \<Longrightarrow> i < n \<Longrightarrow>
     sw_step n s (s\<lparr>on_chan := (on_chan s)(i := False), plock_by := (plock_by s)(i := None),
       wpc := (wpc s)(i := W_acquire)\<rparr>)"
| kill_one: "i < n \<Longrightarrow> plock_by s i = None \<Longrightarrow> st s i = SLEEPING \<Longrightarrow>
     sw_step n s (s\<lparr>st := (st s)(i := RUNNABLE)\<rparr>)"
| k_acquire: "kpc s = K_idle \<Longrightarrow> lk_by s = None \<Longrightarrow>
     sw_step n s (s\<lparr>lk_by := Some Waker, kpc := K_set\<rparr>)"
| k_set: "kpc s = K_set \<Longrightarrow> sw_step n s (s\<lparr>cond := True, kpc := K_scan 0\<rparr>)"
| k_lockp: "kpc s = K_scan i \<Longrightarrow> i < n \<Longrightarrow> plock_by s i = None \<Longrightarrow>
     sw_step n s (s\<lparr>plock_by := (plock_by s)(i := Some Waker), kpc := K_at i\<rparr>)"
| k_wake: "kpc s = K_at i \<Longrightarrow>
     sw_step n s (s\<lparr>st := (if st s i = SLEEPING \<and> on_chan s i then (st s)(i := RUNNABLE) else st s),
       plock_by := (plock_by s)(i := None), kpc := K_scan (Suc i)\<rparr>)"
| k_leave: "kpc s = K_scan n \<Longrightarrow> sw_step n s (s\<lparr>lk_by := None, kpc := K_idle\<rparr>)"

inductive sw_reach :: "nat \<Rightarrow> sw_state \<Rightarrow> bool" for n where
  boot: "sw_boot s \<Longrightarrow> sw_reach n s"
| step: "sw_reach n s \<Longrightarrow> sw_step n s t \<Longrightarrow> sw_reach n t"

section \<open>The invariant\<close>

text \<open>The waker has not looked at process \<open>i\<close> yet in this call of \<open>wakeup\<close>.\<close>

definition wake_pending :: "sw_state \<Rightarrow> nat \<Rightarrow> bool" where
  "wake_pending s i \<longleftrightarrow> (case kpc s of K_scan j \<Rightarrow> j \<le> i | K_at j \<Rightarrow> j \<le> i | _ \<Rightarrow> False)"

fun has_lk :: "waiter_pc \<Rightarrow> bool" where
  "has_lk W_check = True" | "has_lk W_lockp = True" | "has_lk W_unlock = True" | "has_lk W_got = True"
| "has_lk _ = False"

fun has_plock :: "waiter_pc \<Rightarrow> bool" where
  "has_plock W_unlock = True" | "has_plock W_mark = True" | "has_plock W_switch = True"
| "has_plock W_back = True" | "has_plock _ = False"

definition sw_locks :: "sw_state \<Rightarrow> bool" where
  "sw_locks s \<longleftrightarrow>
     (\<forall>i. has_lk (wpc s i) = (lk_by s = Some (Waiter i)))
     \<and> (kpc s \<noteq> K_idle) = (lk_by s = Some Waker)
     \<and> (\<forall>i. has_plock (wpc s i) = (plock_by s i = Some (Waiter i)))
     \<and> (\<forall>i. (kpc s = K_at i) = (plock_by s i = Some Waker))"

text \<open>What the waiters know: \<open>sleep\<close> has put an off-CPU waiter on the channel, no waiter goes to sleep
  on a condition that holds, and a sleeper is still to be found by the waker while it holds.\<close>

definition waiter_ok :: "sw_state \<Rightarrow> nat \<Rightarrow> bool" where
  "waiter_ok s i \<longleftrightarrow> (case wpc s i of
      W_lockp \<Rightarrow> \<not> cond s
    | W_unlock \<Rightarrow> \<not> cond s
    | W_mark \<Rightarrow> cond s \<longrightarrow> wake_pending s i
    | W_switch \<Rightarrow> on_chan s i \<and> (cond s \<and> st s i = SLEEPING \<longrightarrow> wake_pending s i)
    | W_asleep \<Rightarrow> on_chan s i \<and> (cond s \<and> st s i = SLEEPING \<longrightarrow> wake_pending s i)
    | _ \<Rightarrow> True)"

definition sw_inv :: "nat \<Rightarrow> sw_state \<Rightarrow> bool" where
  "sw_inv n s \<longleftrightarrow> sw_locks s \<and> (\<forall>i<n. waiter_ok s i)"

lemma sw_inv_boot: "sw_boot s \<Longrightarrow> sw_inv n s"
  by (simp add: sw_boot_def sw_inv_def sw_locks_def waiter_ok_def)

lemma sw_locksD:
  assumes "sw_locks s"
  shows "has_lk (wpc s i) = (lk_by s = Some (Waiter i))" "(kpc s \<noteq> K_idle) = (lk_by s = Some Waker)"
    "has_plock (wpc s i) = (plock_by s i = Some (Waiter i))" "(kpc s = K_at i) = (plock_by s i = Some Waker)"
  using assms by (simp_all add: sw_locks_def)

lemma sw_step_locks:
  assumes "sw_step n s t" and "sw_locks s"
  shows "sw_locks t"
  using assms(1)
proof cases
  case (w_acquire i)
  then show ?thesis
    using sw_locksD [OF assms(2)] sw_locksD(3) [OF assms(2), of i] by (auto simp: sw_locks_def)
next
  case (w_take i)
  then show ?thesis
    using sw_locksD [OF assms(2)] sw_locksD(1,3,4) [OF assms(2), of i] by (auto simp: sw_locks_def)
next
  case (w_leave i)
  then show ?thesis
    using sw_locksD [OF assms(2)] sw_locksD(1,3,4) [OF assms(2), of i] by (auto simp: sw_locks_def)
next
  case (w_sleep i)
  then show ?thesis
    using sw_locksD [OF assms(2)] sw_locksD(1,3,4) [OF assms(2), of i] by (auto simp: sw_locks_def)
next
  case (w_lockp i)
  then show ?thesis
    using sw_locksD [OF assms(2)] sw_locksD(1,3,4) [OF assms(2), of i] by (auto simp: sw_locks_def)
next
  case (w_unlock i)
  then show ?thesis
    using sw_locksD [OF assms(2)] sw_locksD(1,3,4) [OF assms(2), of i] by (auto simp: sw_locks_def)
next
  case (w_mark i)
  then show ?thesis
    using sw_locksD [OF assms(2)] sw_locksD(1,3,4) [OF assms(2), of i] by (auto simp: sw_locks_def)
next
  case (w_switch i)
  then show ?thesis
    using sw_locksD [OF assms(2)] sw_locksD(1,3,4) [OF assms(2), of i] by (auto simp: sw_locks_def)
next
  case (w_scheduled i)
  then show ?thesis
    using sw_locksD [OF assms(2)] sw_locksD(1,3,4) [OF assms(2), of i] by (auto simp: sw_locks_def)
next
  case (w_back i)
  then show ?thesis
    using sw_locksD [OF assms(2)] sw_locksD(1,3,4) [OF assms(2), of i] by (auto simp: sw_locks_def)
next
  case (kill_one i)
  then show ?thesis using assms(2) by (simp add: sw_locks_def)
next
  case k_acquire
  then show ?thesis using sw_locksD [OF assms(2)] by (auto simp: sw_locks_def)
next
  case k_set
  then show ?thesis using sw_locksD [OF assms(2)] by (auto simp: sw_locks_def)
next
  case (k_lockp i)
  then show ?thesis
    using sw_locksD [OF assms(2)] sw_locksD(1,3,4) [OF assms(2), of i] by (auto simp: sw_locks_def)
next
  case (k_wake i)
  then have "plock_by s j \<noteq> Some Waker" if "j \<noteq> i" for j
    using sw_locksD(4) [OF assms(2), of j] that by simp
  with k_wake show ?thesis
    using sw_locksD [OF assms(2)] sw_locksD(1,3,4) [OF assms(2), of i] by (auto simp: sw_locks_def)
next
  case k_leave
  then show ?thesis using sw_locksD [OF assms(2)] by (auto simp: sw_locks_def)
qed

lemma wake_pending_cong [simp]:
  "wake_pending (s\<lparr>lk_by := a\<rparr>) i = wake_pending s i" "wake_pending (s\<lparr>wpc := b\<rparr>) i = wake_pending s i"
  "wake_pending (s\<lparr>cond := c\<rparr>) i = wake_pending s i" "wake_pending (s\<lparr>st := d\<rparr>) i = wake_pending s i"
  "wake_pending (s\<lparr>on_chan := e\<rparr>) i = wake_pending s i" "wake_pending (s\<lparr>plock_by := f\<rparr>) i = wake_pending s i"
  by (simp_all add: wake_pending_def)

lemma sw_step_waiter:
  assumes "sw_step n s t" and "sw_locks s" and "waiter_ok s j" and "j < n"
  shows "waiter_ok t j"
  using assms(1)
proof cases
  case (w_acquire i)
  then show ?thesis using assms(3) by (cases "j = i"; cases "wpc s j"; simp add: waiter_ok_def)
next
  case (w_take i)
  then show ?thesis using assms(3) by (cases "j = i"; cases "wpc s j"; simp add: waiter_ok_def)
next
  case (w_leave i)
  then show ?thesis using assms(3) by (cases "j = i"; cases "wpc s j"; simp add: waiter_ok_def)
next
  case (w_sleep i)
  then show ?thesis using assms(3) by (cases "j = i"; cases "wpc s j"; simp add: waiter_ok_def)
next
  case (w_lockp i)
  then show ?thesis using assms(3) by (cases "j = i"; cases "wpc s j"; simp add: waiter_ok_def)
next
  case (w_unlock i)
  then show ?thesis using assms(3) by (cases "j = i"; cases "wpc s j"; simp add: waiter_ok_def)
next
  case (w_mark i)
  then show ?thesis using assms(3) by (cases "j = i"; cases "wpc s j"; simp add: waiter_ok_def)
next
  case (w_switch i)
  then show ?thesis using assms(3) by (cases "j = i"; cases "wpc s j"; simp add: waiter_ok_def)
next
  case (w_scheduled i)
  then show ?thesis using assms(3) by (cases "j = i"; cases "wpc s j"; simp add: waiter_ok_def)
next
  case (w_back i)
  then show ?thesis using assms(3) by (cases "j = i"; cases "wpc s j"; simp add: waiter_ok_def)
next
  case (kill_one i)
  then show ?thesis using assms(3) by (cases "j = i"; cases "wpc s j"; simp add: waiter_ok_def)
next
  case k_acquire
  then show ?thesis using assms(3) by (cases "wpc s j"; simp add: waiter_ok_def wake_pending_def)
next
  case k_set
  then have "\<not> has_lk (wpc s j)" using sw_locksD [OF assms(2)] by fastforce
  then show ?thesis
    using k_set assms(3) by (cases "wpc s j"; simp add: waiter_ok_def wake_pending_def)
next
  case (k_lockp i)
  then show ?thesis using assms(3) by (cases "wpc s j"; simp add: waiter_ok_def wake_pending_def)
next
  case (k_wake i)
  then have "\<not> has_plock (wpc s i)" using sw_locksD [OF assms(2)] by fastforce
  then show ?thesis
    using k_wake assms(3)
    by (cases "j = i"; cases "wpc s j"; simp add: waiter_ok_def wake_pending_def; auto)
next
  case k_leave
  then show ?thesis
    using assms(3,4) by (cases "wpc s j"; simp add: waiter_ok_def wake_pending_def)
qed

lemma sw_reach_inv: "sw_reach n s \<Longrightarrow> sw_inv n s"
proof (induction rule: sw_reach.induct)
  case (boot s)
  then show ?case by (rule sw_inv_boot)
next
  case (step s t)
  then show ?case using sw_step_locks sw_step_waiter by (auto simp: sw_inv_def)
qed

section \<open>The code takes these steps\<close>

text \<open>A kernel state seen by thread \<open>who\<close>, whose locks are \<open>held\<close>, and a state of the interleaving that agrees with it on the
  states and channels of the processes and on the locks of this thread.\<close>

definition sw_view :: "chan \<Rightarrow> lockid \<Rightarrow> sw_thread \<Rightarrow> 'a proc_state_scheme \<Rightarrow> sw_state \<Rightarrow> bool" where
  "sw_view c lk who s a \<longleftrightarrow> length (procs s) = NPROC \<and> (lk \<in> held s \<longleftrightarrow> lk_by a = Some who)
     \<and> (\<forall>i<NPROC. st a i = pstate (procs s ! i) \<and> on_chan a i = (pchan (procs s ! i) = Some c)
          \<and> (L_proc i \<in> held s \<longleftrightarrow> plock_by a i = Some who))"

text \<open>An outcome of the code that the interleaving reaches from \<open>a\<close>.\<close>

definition follows :: "chan \<Rightarrow> lockid \<Rightarrow> sw_thread \<Rightarrow> sw_state \<Rightarrow> ('b, 'a proc_state_scheme) res \<Rightarrow> (sw_state \<Rightarrow> bool) \<Rightarrow> bool" where
  "follows c lk who a m P \<longleftrightarrow> (\<exists>t b. (m = Switch t \<or> (\<exists>r. m = Done r t)) \<and> (sw_step NPROC)\<^sup>*\<^sup>* a b \<and> sw_view c lk who t b \<and> P b)"

lemma sleep_follows:
  assumes v: "sw_view c lk (Waiter i) s a" and c: "cur s = Some i" "i < NPROC" "held s = {lk}" "\<forall>j. lk \<noteq> L_proc j"
    and a: "wpc a i = W_lockp" "plock_by a i = None"
  shows "follows c lk (Waiter i) a (sleep c lk s) (\<lambda>b. wpc b i = W_switch)"
proof -
  let ?a1 = "a\<lparr>plock_by := (plock_by a)(i := Some (Waiter i)), wpc := (wpc a)(i := W_unlock)\<rparr>"
  let ?a2 = "?a1\<lparr>lk_by := None, wpc := (wpc ?a1)(i := W_mark)\<rparr>"
  let ?a3 = "?a2\<lparr>on_chan := (on_chan ?a2)(i := True), st := (st ?a2)(i := SLEEPING), wpc := (wpc ?a2)(i := W_switch)\<rparr>"
  let ?t = "upd_proc i (\<lambda>q. q\<lparr>pchan := Some c, pstate := SLEEPING\<rparr>) (s\<lparr>held := {L_proc i}\<rparr>)"
  have l: "length (procs s) = NPROC" using v by (simp add: sw_view_def)
  then have "sleep c lk s = Switch ?t" using c by (intro sleep_Switch) auto
  moreover have "sw_step NPROC a ?a1" by (rule sw_step.w_lockp [OF a(1) c(2) a(2)])
  moreover have "sw_step NPROC ?a1 ?a2" by (rule sw_step.w_unlock [OF _ c(2)]) simp
  moreover have "sw_step NPROC ?a2 ?a3" by (rule sw_step.w_mark [OF _ c(2)]) simp
  moreover have "sw_view c lk (Waiter i) ?t ?a3"
    using v l c by (auto simp: sw_view_def nth_list_update)
  ultimately show ?thesis unfolding follows_def
    by (intro exI [of _ ?t] exI [of _ ?a3]) (auto intro: converse_rtranclp_into_rtranclp)
qed

lemma scheduler_leave_follows:
  assumes v: "sw_view c lk (Waiter i) s a" and c: "i < NPROC" "held s = {L_proc i}" "lk \<noteq> L_proc i" and a: "wpc a i = W_switch"
  shows "follows c lk (Waiter i) a (scheduler_leave i s) (\<lambda>b. wpc b i = W_asleep)"
proof -
  let ?b = "a\<lparr>plock_by := (plock_by a)(i := None), wpc := (wpc a)(i := W_asleep)\<rparr>"
  have "sw_step NPROC a ?b" by (rule sw_step.w_switch [OF a c(1)])
  moreover have "scheduler_leave i s = Done () (s\<lparr>cur := None, held := {}\<rparr>)" using c by (simp add: scheduler_leave_def)
  moreover have "sw_view c lk (Waiter i) (s\<lparr>cur := None, held := {}\<rparr>) ?b" using v c by (auto simp: sw_view_def)
  ultimately show ?thesis unfolding follows_def by (intro exI [of _ "s\<lparr>cur := None, held := {}\<rparr>"] exI [of _ ?b]) auto
qed

lemma scheduler_enter_follows:
  assumes v: "sw_view c lk (Waiter i) s a" and c: "i < NPROC" "held s = {}" "lk \<noteq> L_proc i" "pstate (procs s ! i) = RUNNABLE"
    and a: "wpc a i = W_asleep" "plock_by a i = None"
  shows "follows c lk (Waiter i) a (scheduler_enter i n s) (\<lambda>b. wpc b i = W_back)"
proof -
  let ?b = "a\<lparr>plock_by := (plock_by a)(i := Some (Waiter i)), st := (st a)(i := RUNNING), wpc := (wpc a)(i := W_back)\<rparr>"
  let ?t = "(upd_proc i (\<lambda>q. q\<lparr>pstate := RUNNING\<rparr>) (s\<lparr>held := {L_proc i}\<rparr>))\<lparr>cur := Some i\<rparr>"
  have "st a i = RUNNABLE" using v c by (simp add: sw_view_def)
  then have "sw_step NPROC a ?b" by (rule sw_step.w_scheduled [OF a(1) c(1) a(2)])
  moreover have "scheduler_enter i n s = Done (True, n + 1) ?t" using c by (simp add: scheduler_enter_def Let_def)
  moreover have "sw_view c lk (Waiter i) ?t ?b" using v c by (auto simp: sw_view_def nth_list_update)
  ultimately show ?thesis unfolding follows_def by (intro exI [of _ ?t] exI [of _ ?b]) auto
qed

lemma sleep_return_follows:
  assumes v: "sw_view c lk (Waiter i) s a" and c: "cur s = Some i" "i < NPROC" "held s = {L_proc i}" "\<forall>j. lk \<noteq> L_proc j"
    and a: "wpc a i = W_back" "lk_by a = None"
  shows "follows c lk (Waiter i) a (sleep_return lk s) (\<lambda>b. wpc b i = W_check)"
proof -
  let ?a1 = "a\<lparr>on_chan := (on_chan a)(i := False), plock_by := (plock_by a)(i := None), wpc := (wpc a)(i := W_acquire)\<rparr>"
  let ?b = "?a1\<lparr>lk_by := Some (Waiter i), wpc := (wpc ?a1)(i := W_check)\<rparr>"
  let ?t = "(upd_proc i (\<lambda>q. q\<lparr>pchan := None\<rparr>) s)\<lparr>held := {lk}\<rparr>"
  have "sw_step NPROC a ?a1" by (rule sw_step.w_back [OF a(1) c(2)])
  moreover have "sw_step NPROC ?a1 ?b" by (rule sw_step.w_acquire [OF _ c(2)]) (simp_all add: a(2))
  moreover have "sleep_return lk s = Done () ?t" using c by (simp add: sleep_return_def with_proc_def Let_def)
  moreover have "sw_view c lk (Waiter i) ?t ?b" using v c by (auto simp: sw_view_def nth_list_update)
  ultimately show ?thesis unfolding follows_def
    by (intro exI [of _ ?t] exI [of _ ?b]) (auto intro: converse_rtranclp_into_rtranclp)
qed

text \<open>The loop of \<open>wakeup\<close>, one process at a time.\<close>

lemma wakeup_scan_step:
  assumes v: "sw_view c lk Waker s a" and a: "kpc a = K_scan i" "i < NPROC" "plock_by a = (\<lambda>_. None)"
  shows "\<exists>b. (sw_step NPROC)\<^sup>*\<^sup>* a b \<and> kpc b = K_scan (Suc i) \<and> plock_by b = (\<lambda>_. None)
    \<and> sw_view c lk Waker (s\<lparr>procs := (procs s)[i := awaken c (procs s ! i)]\<rparr>) b"
proof -
  let ?a1 = "a\<lparr>plock_by := (plock_by a)(i := Some Waker), kpc := K_at i\<rparr>"
  let ?b = "?a1\<lparr>st := (if st ?a1 i = SLEEPING \<and> on_chan ?a1 i then (st ?a1)(i := RUNNABLE) else st ?a1),
       plock_by := (plock_by ?a1)(i := None), kpc := K_scan (Suc i)\<rparr>"
  have "sw_step NPROC a ?a1" by (rule sw_step.k_lockp [OF a(1,2)]) (simp add: a(3))
  moreover have "sw_step NPROC ?a1 ?b" by (rule sw_step.k_wake) simp
  moreover have "sw_view c lk Waker (s\<lparr>procs := (procs s)[i := awaken c (procs s ! i)]\<rparr>) ?b"
    using v a(2,3) by (auto simp: sw_view_def nth_list_update awaken_def)
  ultimately show ?thesis using a(3) by (intro exI [of _ ?b]) (auto intro: converse_rtranclp_into_rtranclp)
qed

lemma wakeup_loop_follows:
  "sw_view c lk Waker s a \<Longrightarrow> kpc a = K_scan i \<Longrightarrow> i + k = NPROC \<Longrightarrow> plock_by a = (\<lambda>_. None) \<Longrightarrow>
   \<exists>b. (sw_step NPROC)\<^sup>*\<^sup>* a b \<and> kpc b = K_scan NPROC \<and> sw_view c lk Waker (s\<lparr>procs := map_range i k (awaken c) (procs s)\<rparr>) b"
proof (induction k arbitrary: i s a)
  case (Suc k)
  let ?s = "s\<lparr>procs := (procs s)[i := awaken c (procs s ! i)]\<rparr>"
  have i: "i < NPROC" "i < length (procs s)" using Suc.prems(1,3) by (simp_all add: sw_view_def)
  obtain a1 where a1: "(sw_step NPROC)\<^sup>*\<^sup>* a a1" "kpc a1 = K_scan (Suc i)" "plock_by a1 = (\<lambda>_. None)" "sw_view c lk Waker ?s a1"
    using wakeup_scan_step [OF Suc.prems(1,2) i(1) Suc.prems(4)] by blast
  obtain b where "(sw_step NPROC)\<^sup>*\<^sup>* a1 b" "kpc b = K_scan NPROC" "sw_view c lk Waker (?s\<lparr>procs := map_range (Suc i) k (awaken c) (procs ?s)\<rparr>) b"
    using Suc.IH [OF a1(4,2) _ a1(3)] Suc.prems(3) by auto
  then show ?case using a1(1) i(2) by (auto simp: map_range_Suc intro: rtranclp_trans)
qed auto

lemma wakeup_follows:
  assumes v: "sw_view c lk Waker s a" and c: "\<forall>j. L_proc j \<notin> held s" and a: "kpc a = K_scan 0" "plock_by a = (\<lambda>_. None)"
  shows "follows c lk Waker a (wakeup c s) (\<lambda>b. kpc b = K_scan NPROC)"
proof -
  have l: "length (procs s) = NPROC" using v by (simp add: sw_view_def)
  obtain b where b: "(sw_step NPROC)\<^sup>*\<^sup>* a b" "kpc b = K_scan NPROC" "sw_view c lk Waker (s\<lparr>procs := map_range 0 NPROC (awaken c) (procs s)\<rparr>) b"
    using wakeup_loop_follows [OF v a(1) _ a(2), of NPROC] by auto
  then show ?thesis using wakeup_Done [OF l c, of c] l unfolding follows_def by (auto simp: map_range_all)
qed

lemma kill_follows:
  assumes v: "sw_view c lk who s a" and c: "\<forall>j. L_proc j \<notin> held s" and a: "plock_by a = (\<lambda>_. None)"
  shows "follows c lk who a (kill n s) (\<lambda>b. wpc b = wpc a \<and> kpc b = kpc a)"
proof -
  let ?b = "\<lambda>i. a\<lparr>st := (st a)(i := RUNNABLE)\<rparr>" and ?t = "\<lambda>i. s\<lparr>procs := (procs s)[i := kill_proc (procs s ! i)]\<rparr>"
  have k: "kill n s = (case victim (procs s) n of None \<Rightarrow> Done (- 1) s | Some i \<Rightarrow> Done 0 (?t i))"
    using kill_loop_Done [OF c, of n 0 NPROC] by (simp add: kill_def victim_def)
  show ?thesis
  proof (cases "victim (procs s) n")
    case None
    then show ?thesis using k v unfolding follows_def by auto
  next
    case (Some i)
    have i: "i < NPROC" by (rule victim_less [OF Some])
    have st: "st a i = pstate (procs s ! i)" using v i by (simp add: sw_view_def)
    show ?thesis
    proof (cases "st a i = SLEEPING")
      case True
      have "sw_step NPROC a (?b i)" by (rule sw_step.kill_one [OF i _ True]) (simp add: a)
      moreover have "sw_view c lk who (?t i) (?b i)" using v i True st by (auto simp: sw_view_def nth_list_update kill_proc_def)
      ultimately show ?thesis using k Some unfolding follows_def by (intro exI [of _ "?t i"] exI [of _ "?b i"]) auto
    next
      case False
      have "sw_view c lk who (?t i) a" using v i False st by (auto simp: sw_view_def nth_list_update kill_proc_def)
      then show ?thesis using k Some unfolding follows_def by (intro exI [of _ "?t i"] exI [of _ a]) auto
    qed
  qed
qed

lemma sw_reach_steps: "(sw_step n)\<^sup>*\<^sup>* a b \<Longrightarrow> sw_reach n a \<Longrightarrow> sw_reach n b"
  by (induction rule: rtranclp_induct) (auto intro: sw_reach.step)

lemma follows_reach: "follows c lk who a m P \<Longrightarrow> sw_reach NPROC a \<Longrightarrow> follows c lk who a m (\<lambda>b. P b \<and> sw_reach NPROC b)"
  unfolding follows_def by (blast intro: sw_reach_steps)

text \<open>C22: no wakeup is lost. In every state that any interleaving of the waiting processes, the waker and \<open>kill\<close> reaches, a process
  that \<open>sleep\<close> has marked \<open>SLEEPING\<close> while the condition it waits for holds is on the channel and the scan of a running \<open>wakeup\<close>
  is still to reach it; so with no waker under way no process sleeps on a condition that holds. The steps of the interleaving are
  those of the code: from a kernel state that agrees with a reachable state, \<open>sleep\<close>, the two halves of the scheduler's loop
  body, the rest of \<open>sleep\<close>, \<open>wakeup\<close> and \<open>kill\<close> lead to kernel states that agree with reachable states.\<close>

theorem no_lost_wakeup:
  fixes s :: "'a proc_state_scheme"
  assumes r: "sw_reach NPROC a" and i: "i < NPROC" and lk: "\<forall>j. lk \<noteq> L_proc j"
  shows "(cond a \<and> st a i = SLEEPING \<and> wpc a i \<in> {W_switch, W_asleep} \<longrightarrow> on_chan a i \<and> wake_pending a i \<and> kpc a \<noteq> K_idle)
    \<and> (sw_view c lk (Waiter i) s a \<and> cur s = Some i \<and> held s = {lk} \<and> wpc a i = W_lockp \<and> plock_by a i = None \<longrightarrow>
         follows c lk (Waiter i) a (sleep c lk s) (\<lambda>b. wpc b i = W_switch \<and> sw_reach NPROC b))
    \<and> (sw_view c lk (Waiter i) s a \<and> held s = {L_proc i} \<and> wpc a i = W_switch \<longrightarrow>
         follows c lk (Waiter i) a (scheduler_leave i s) (\<lambda>b. wpc b i = W_asleep \<and> sw_reach NPROC b))
    \<and> (sw_view c lk (Waiter i) s a \<and> held s = {} \<and> pstate (procs s ! i) = RUNNABLE \<and> wpc a i = W_asleep \<and> plock_by a i = None \<longrightarrow>
         follows c lk (Waiter i) a (scheduler_enter i n s) (\<lambda>b. wpc b i = W_back \<and> sw_reach NPROC b))
    \<and> (sw_view c lk (Waiter i) s a \<and> cur s = Some i \<and> held s = {L_proc i} \<and> wpc a i = W_back \<and> lk_by a = None \<longrightarrow>
         follows c lk (Waiter i) a (sleep_return lk s) (\<lambda>b. wpc b i = W_check \<and> sw_reach NPROC b))
    \<and> (sw_view c lk Waker s a \<and> held s = {lk} \<and> kpc a = K_scan 0 \<and> plock_by a = (\<lambda>_. None) \<longrightarrow>
         follows c lk Waker a (wakeup c s) (\<lambda>b. kpc b = K_scan NPROC \<and> sw_reach NPROC b))
    \<and> (sw_view c lk who s a \<and> held s \<subseteq> {lk} \<and> plock_by a = (\<lambda>_. None) \<longrightarrow>
         follows c lk who a (kill m s) (\<lambda>b. (wpc b = wpc a \<and> kpc b = kpc a) \<and> sw_reach NPROC b))"
proof (intro conjI impI; (elim conjE)?)
  assume "cond a" "st a i = SLEEPING" "wpc a i \<in> {W_switch, W_asleep}"
  moreover have "waiter_ok a i" using sw_reach_inv [OF r] i by (simp add: sw_inv_def)
  ultimately show "on_chan a i" "wake_pending a i" "kpc a \<noteq> K_idle" by (auto simp: waiter_ok_def wake_pending_def)
qed (rule follows_reach [OF _ r], (rule sleep_follows scheduler_leave_follows scheduler_enter_follows sleep_return_follows wakeup_follows kill_follows;
  use lk i in \<open>assumption | fastforce\<close>))+

text \<open>A run in which process 0 goes to sleep and the waker sets the condition.\<close>

definition sw0 :: sw_state where
  "sw0 = \<lparr>lk_by = None, plock_by = (\<lambda>_. None), cond = False, st = (\<lambda>_. RUNNING), on_chan = (\<lambda>_. False),
     wpc = (\<lambda>_. W_acquire), kpc = K_idle\<rparr>"

definition sw_set :: sw_state where
  "sw_set = sw0\<lparr>st := (\<lambda>_. RUNNING)(0 := SLEEPING), on_chan := (\<lambda>_. False)(0 := True),
     wpc := (\<lambda>_. W_acquire)(0 := W_asleep), cond := True, lk_by := Some Waker, kpc := K_scan 0\<rparr>"

lemma sw_set_reach: "sw_reach NPROC sw_set"
proof -
  have "sw_reach NPROC sw0" by (rule sw_reach.boot) (simp add: sw_boot_def sw0_def)
  note r = sw_reach.step [OF this sw_step.w_acquire [of _ 0]]
  note r = sw_reach.step [OF r sw_step.w_sleep [of _ 0]]
  note r = sw_reach.step [OF r sw_step.w_lockp [of _ 0]]
  note r = sw_reach.step [OF r sw_step.w_unlock [of _ 0]]
  note r = sw_reach.step [OF r sw_step.w_mark [of _ 0]]
  note r = sw_reach.step [OF r sw_step.w_switch [of _ 0]]
  note r = sw_reach.step [OF r sw_step.k_acquire]
  note r = sw_reach.step [OF r sw_step.k_set]
  show ?thesis
    using r by (simp add: sw0_def sw_set_def fun_upd_def cong: if_cong)
qed

definition example_sleeper :: proc_state where
  "example_sleeper = example_procs\<lparr>held := {L_tick},
     procs := (replicate 64 (example_proc\<lparr>pstate := RUNNING\<rparr>))[0 := example_proc\<lparr>pstate := SLEEPING, pchan := Some Ch_ticks\<rparr>]\<rparr>"

lemma example_sleeper_view: "sw_view Ch_ticks L_tick Waker example_sleeper sw_set"
  by (auto simp: sw_view_def example_sleeper_def sw_set_def sw0_def nth_list_update example_proc_def)

theorem no_lost_wakeup_witness:
  "on_chan sw_set 0 \<and> wake_pending sw_set 0
   \<and> follows Ch_ticks L_tick Waker sw_set (wakeup Ch_ticks example_sleeper) (\<lambda>b. kpc b = K_scan NPROC \<and> sw_reach NPROC b)"
proof -
  have "cond sw_set \<and> st sw_set 0 = SLEEPING \<and> wpc sw_set 0 \<in> {W_switch, W_asleep}" by (simp add: sw_set_def)
  moreover have "held example_sleeper = {L_tick} \<and> kpc sw_set = K_scan 0 \<and> plock_by sw_set = (\<lambda>_. None)"
    by (simp add: sw_set_def sw0_def example_sleeper_def)
  ultimately show ?thesis
    using no_lost_wakeup [OF sw_set_reach, of 0 L_tick Ch_ticks example_sleeper 0 Waker 0] example_sleeper_view by simp
qed

end
