(* ===== verification/Ring.thy ===== *)
theory Ring
  imports Xv6_Prelude
begin

text \<open>
  Bounded queues of bytes as an interface, and rings with free-running indices that implement them:
  the serial port, the console and pipes use such rings.
\<close>

section \<open>Queues\<close>

text \<open>What the clients of a bounded queue of bytes rely on.\<close>

locale byte_fifo =
  fixes ok :: "'s \<Rightarrow> bool"
    and contents :: "'s \<Rightarrow> u8 list"
    and cap :: nat
    and put :: "u8 \<Rightarrow> 's \<Rightarrow> 's"
    and front :: "'s \<Rightarrow> u8"
    and drop_front :: "'s \<Rightarrow> 's"
  assumes put_law: "ok s \<Longrightarrow> length (contents s) < cap \<Longrightarrow> ok (put c s) \<and> contents (put c s) = contents s @ [c]"
    and get_law: "ok s \<Longrightarrow> contents s \<noteq> [] \<Longrightarrow>
      front s = hd (contents s) \<and> ok (drop_front s) \<and> contents (drop_front s) = tl (contents s)"
begin

lemma put_all:
  "ok s \<Longrightarrow> length (contents s) + length cs \<le> cap \<Longrightarrow> ok (fold put cs s) \<and> contents (fold put cs s) = contents s @ cs"
  using put_law by (induction cs arbitrary: s) simp_all

lemma front_eq: "ok s \<Longrightarrow> contents s = c # cs \<Longrightarrow> front s = c"
  using get_law by fastforce

lemma drop_front_eq: "ok s \<Longrightarrow> contents s = c # cs \<Longrightarrow> ok (drop_front s) \<and> contents (drop_front s) = cs"
  using get_law by fastforce

end

section \<open>Rings\<close>

text \<open>
  The bytes between the free-running indices \<open>r\<close> and \<open>w\<close> of a ring of \<open>N\<close> bytes; the indices wrap around at
  the width of their type, which is a multiple of \<open>N\<close>.
\<close>

definition ring :: "nat \<Rightarrow> u8 list \<Rightarrow> 'a::len word \<Rightarrow> 'a word \<Rightarrow> u8 list" where
  "ring N bs r w = map (\<lambda>i. bs ! ((unat r + i) mod N)) [0..<unat (w - r)]"

lemma length_ring [simp]: "length (ring N bs r w) = unat (w - r)"
  by (simp add: ring_def)

lemma ring_empty [simp]: "ring N bs r r = []"
  by (simp add: ring_def)

lemma ring_Nil_iff: "ring N bs r w = [] \<longleftrightarrow> w = r"
  using length_ring [of N bs r w] by (metis length_0_conv ring_empty right_minus_eq unat_eq_zero)

lemma unat_ring_index:
  assumes "N dvd 2 ^ LENGTH('a)"
  shows "unat (r + d :: 'a::len word) mod N = (unat r + unat d) mod N"
  using assms by (simp add: unat_word_ariths mod_mod_cancel)

lemma unat_Suc_word: "unat (d :: 'a::len word) < N \<Longrightarrow> N < 2 ^ LENGTH('a) \<Longrightarrow> unat (d + 1) = Suc (unat d)"
  by (simp add: unat_word_ariths)

lemma unat_Suc_diff:
  assumes "unat (w - r :: 'a::len word) < N" and "N < 2 ^ LENGTH('a)"
  shows "unat (w + 1 - r) = Suc (unat (w - r))"
  using unat_Suc_word [OF assms] by (simp add: algebra_simps)

lemma ring_put:
  assumes N: "N dvd 2 ^ LENGTH('a)" "N < 2 ^ LENGTH('a)" and len: "length bs = N" and room: "unat (w - r :: 'a::len word) < N"
  shows "ring N (bs[unat w mod N := c]) r (w + 1) = ring N bs r w @ [c]"
proof -
  have w: "unat w mod N = (unat r + unat (w - r)) mod N" using unat_ring_index [OF N(1), of r "w - r"] by simp
  have pos: "0 < N" using room by simp
  have ne: "(unat r + i) mod N \<noteq> unat w mod N" if "i < unat (w - r)" for i
  proof
    assume "(unat r + i) mod N = unat w mod N"
    then have "N dvd (unat r + unat (w - r)) - (unat r + i)"
      using mod_eq_dvd_iff_nat [of "unat r + i" "unat r + unat (w - r)" N] that by (auto simp: w)
    then show False using that room nat_dvd_not_less [of "unat (w - r) - i" N] by simp
  qed
  show ?thesis
  proof (rule nth_equalityI)
    show "length (ring N (bs[unat w mod N := c]) r (w + 1)) = length (ring N bs r w @ [c])"
      using unat_Suc_diff [OF room N(2)] by simp
    fix i assume "i < length (ring N (bs[unat w mod N := c]) r (w + 1))"
    then have i: "i < unat (w - r) \<or> i = unat (w - r)" using unat_Suc_diff [OF room N(2)] by auto
    then show "ring N (bs[unat w mod N := c]) r (w + 1) ! i = (ring N bs r w @ [c]) ! i"
      using ne [of i] w len pos unat_Suc_diff [OF room N(2)] by (auto simp: ring_def nth_append simp del: upt_Suc)
  qed
qed

lemma ring_get:
  assumes N: "N dvd 2 ^ LENGTH('a)" and ne: "w \<noteq> (r :: 'a::len word)"
  shows "ring N bs r w = bs ! (unat r mod N) # ring N bs (r + 1) w"
proof -
  have d: "unat (w - r) = Suc (unat (w - (r + 1)))"
  proof -
    have a: "w - (r + 1) = (w - r) - 1" by simp
    have "w - r \<noteq> 0" using ne by simp
    then have "unat (w - r - 1) = unat (w - r) - 1" "0 < unat (w - r)" by (rule unat_minus_one, simp add: unat_gt_0)
    then show ?thesis unfolding a by linarith
  qed
  have e: "(unat (r + 1) + i) mod N = (unat r + Suc i) mod N" for i
  proof -
    have "unat (r + 1) mod N = (unat r + unat (1 :: 'a word)) mod N" by (rule unat_ring_index [OF N])
    then show ?thesis by (metis (no_types) mod_add_left_eq add.assoc add_Suc_right add_Suc plus_1_eq_Suc unat_1)
  qed
  show ?thesis unfolding ring_def d by (simp add: upt_conv_Cons map_Suc_upt [symmetric] comp_def e del: upt_Suc)
qed

end
