(* ===== verification/Uart.thy ===== *)
theory Uart
  imports Proc
begin

text \<open>
  The driver of the serial port, \<open>kernel/uart.c\<close>, and \<open>consputc\<close> of \<open>kernel/console.c\<close>: the ring of
  bytes to send, the blocking and the polling way of sending one, and reception.
\<close>

text \<open>The bytes of a string literal.\<close>

definition bytes_of :: "string \<Rightarrow> u8 list" where
  "bytes_of cs = map of_char cs"

definition IER_RX_ENABLE :: u8 where "IER_RX_ENABLE = 1"

definition IER_TX_ENABLE :: u8 where "IER_TX_ENABLE = 2"

definition FCR_FIFO_ENABLE :: u8 where "FCR_FIFO_ENABLE = 1"

definition FCR_FIFO_CLEAR :: u8 where "FCR_FIFO_CLEAR = 6"

definition LCR_EIGHT_BITS :: u8 where "LCR_EIGHT_BITS = 3"

definition LCR_BAUD_LATCH :: u8 where "LCR_BAUD_LATCH = 128"

definition UART_TX_BUF_SIZE :: nat where [simp]: "UART_TX_BUF_SIZE = 32"

text \<open>
  The driver's ring, and the device: \<open>tx_room\<close> is how many bytes the transmitter accepts before the
  line status register says it is busy, \<open>tx_out\<close> the bytes sent, \<open>rx_fifo\<close> the bytes received and not
  yet read, \<open>uart_ctl\<close> the control registers as written (register number and value).
\<close>

record uart_state = proc_state +
  uart_tx_buf :: "u8 list"
  uart_tx_w :: u64
  uart_tx_r :: u64
  tx_room :: nat
  tx_out :: "u8 list"
  rx_fifo :: "u8 list"
  uart_ctl :: "(nat \<times> u8) list"
  panicked :: bool

definition WriteReg :: "nat \<Rightarrow> u8 \<Rightarrow> 'a uart_state_scheme \<Rightarrow> 'a uart_state_scheme" where
  "WriteReg reg v s = s\<lparr>uart_ctl := uart_ctl s @ [(reg, v)]\<rparr>"

definition write_THR :: "u8 \<Rightarrow> 'a uart_state_scheme \<Rightarrow> 'a uart_state_scheme" where
  "write_THR c s = s\<lparr>tx_room := tx_room s - 1, tx_out := tx_out s @ [c]\<rparr>"

definition uartinit :: "'a uart_state_scheme \<Rightarrow> 'a uart_state_scheme" where
  "uartinit s =
     (let s = WriteReg 1 0x00 s;
          s = WriteReg 3 LCR_BAUD_LATCH s;
          s = WriteReg 0 0x03 s;
          s = WriteReg 1 0x00 s;
          s = WriteReg 3 LCR_EIGHT_BITS s;
          s = WriteReg 2 (FCR_FIFO_ENABLE OR FCR_FIFO_CLEAR) s;
          s = WriteReg 1 (IER_TX_ENABLE OR IER_RX_ENABLE) s
      in s\<lparr>held := held s - {L_uart}\<rparr>)"

text \<open>The loop of \<open>uartstart\<close> takes one byte out of the ring per turn, so it ends after \<open>w - r\<close> turns.\<close>

fun uartstart_loop :: "nat \<Rightarrow> 'a uart_state_scheme \<Rightarrow> (unit, 'a uart_state_scheme) res" where
  "uartstart_loop 0 s = Done () s"
| "uartstart_loop (Suc n) s =
     (if uart_tx_w s = uart_tx_r s then Done () s
      else if tx_room s = 0 then Done () s
      else let c = uart_tx_buf s ! (unat (uart_tx_r s) mod UART_TX_BUF_SIZE);
               s = s\<lparr>uart_tx_r := uart_tx_r s + 1\<rparr>
           in andthen (wakeup Ch_uart s) (\<lambda>_ s. uartstart_loop n (write_THR c s)))"

definition uartstart :: "'a uart_state_scheme \<Rightarrow> (unit, 'a uart_state_scheme) res" where
  "uartstart s = uartstart_loop (unat (uart_tx_w s - uart_tx_r s)) s"

text \<open>The loop of \<open>uartputc\<close>, entered with \<open>uart_tx_lock\<close> held.\<close>

definition uartputc_loop :: "u8 \<Rightarrow> 'a uart_state_scheme \<Rightarrow> (unit, 'a uart_state_scheme) res" where
  "uartputc_loop c s =
     (if uart_tx_w s = uart_tx_r s + of_nat UART_TX_BUF_SIZE then sleep Ch_uart L_uart s
      else let s = s\<lparr>uart_tx_buf := (uart_tx_buf s)[unat (uart_tx_w s) mod UART_TX_BUF_SIZE := c],
                      uart_tx_w := uart_tx_w s + 1\<rparr>
           in andthen (uartstart s) (\<lambda>_ s. release L_uart s))"

definition uartputc :: "u8 \<Rightarrow> 'a uart_state_scheme \<Rightarrow> (unit, 'a uart_state_scheme) res" where
  "uartputc c s =
     andthen (acquire L_uart s) (\<lambda>_ s. if panicked s then Hang else uartputc_loop c s)"

definition uartputc_resume :: "u8 \<Rightarrow> 'a uart_state_scheme \<Rightarrow> (unit, 'a uart_state_scheme) res" where
  "uartputc_resume c s = andthen (sleep_return L_uart s) (\<lambda>_ s. uartputc_loop c s)"

text \<open>
  \<open>uartputc_sync\<close> spins until the transmitter is idle, which it becomes without the help of the
  kernel, between a \<open>push_off\<close> and its \<open>pop_off\<close>.
\<close>

definition uartputc_sync :: "u8 \<Rightarrow> 'a uart_state_scheme \<Rightarrow> (unit, 'a uart_state_scheme) res" where
  "uartputc_sync c s = (if panicked s then Hang else Done () (write_THR c s))"

definition uartgetc :: "'a uart_state_scheme \<Rightarrow> (u8 option, 'a uart_state_scheme) res" where
  "uartgetc s = (case rx_fifo s of [] \<Rightarrow> Done None s | c # cs \<Rightarrow> Done (Some c) (s\<lparr>rx_fifo := cs\<rparr>))"

text \<open>\<open>consputc\<close>, which takes \<open>BACKSPACE\<close> (\<open>None\<close>) or a character.\<close>

definition consputc :: "u8 option \<Rightarrow> 'a uart_state_scheme \<Rightarrow> (unit, 'a uart_state_scheme) res" where
  "consputc c s =
     (case c of
        None \<Rightarrow> andthen (uartputc_sync 8 s) (\<lambda>_ s. andthen (uartputc_sync 32 s) (\<lambda>_ s. uartputc_sync 8 s))
      | Some c \<Rightarrow> uartputc_sync c s)"

fun consputs :: "u8 list \<Rightarrow> 'a uart_state_scheme \<Rightarrow> (unit, 'a uart_state_scheme) res" where
  "consputs [] s = Done () s"
| "consputs (c # cs) s = andthen (consputc (Some c) s) (\<lambda>_ s. consputs cs s)"

section \<open>A concrete state\<close>

definition example_uart :: uart_state where
  "example_uart = proc_state.extend example_procs (uart_state.fields (replicate 32 0) 0 0 16 [] [] [] False)"

lemma example_uart_simps [simp]:
  "held example_uart = {}" "cur example_uart = Some 1" "procs example_uart = procs example_procs"
  "uart_tx_buf example_uart = replicate 32 0" "uart_tx_w example_uart = 0" "uart_tx_r example_uart = 0"
  "tx_room example_uart = 16" "tx_out example_uart = []" "rx_fifo example_uart = []" "panicked example_uart = False"
  by (simp_all add: example_uart_def proc_state.defs uart_state.defs)

end
