(* ===== verification/Kprintf.thy ===== *)
theory Kprintf
  imports Uart
begin

text \<open>
  Formatted console output, \<open>kernel/printf.c\<close>, and \<open>procdump\<close> of \<open>kernel/proc.c\<close>.
\<close>

record pr_state = uart_state +
  pr_locking :: bool

definition digits :: "u8 list" where
  "digits = bytes_of ''0123456789abcdef''"

text \<open>The digits \<open>printint\<close> puts into \<open>buf\<close>, the last one first.\<close>

function digit_loop :: "nat \<Rightarrow> nat \<Rightarrow> u8 list" where
  "digit_loop base x = digits ! (x mod base) #
     (if 2 \<le> base \<and> x div base \<noteq> 0 then digit_loop base (x div base) else [])"
  by pat_completeness auto

termination
proof (relation "measure snd", simp)
  fix base x :: nat
  assume "2 \<le> base \<and> x div base \<noteq> 0"
  then have "x div base < x" by (cases x) simp_all
  then show "((base, x div base), (base, x)) \<in> measure snd" by simp
qed

declare digit_loop.simps [simp del]

definition printint_buf :: "u32 \<Rightarrow> nat \<Rightarrow> bool \<Rightarrow> u8 list" where
  "printint_buf xx base sign =
     (let neg = sign \<and> sint xx < 0;
          x = (if neg then - xx else xx)
      in digit_loop base (unat x) @ (if neg then [45] else []))"

definition printint :: "u32 \<Rightarrow> nat \<Rightarrow> bool \<Rightarrow> 'a uart_state_scheme \<Rightarrow> (unit, 'a uart_state_scheme) res" where
  "printint xx base sign s = consputs (rev (printint_buf xx base sign)) s"

fun ptr_digits :: "nat \<Rightarrow> u64 \<Rightarrow> u8 list" where
  "ptr_digits 0 x = []"
| "ptr_digits (Suc n) x = digits ! unat (drop_bit 60 x) # ptr_digits n (push_bit 4 x)"

definition printptr :: "u64 \<Rightarrow> 'a uart_state_scheme \<Rightarrow> (unit, 'a uart_state_scheme) res" where
  "printptr x s = consputs (bytes_of ''0x'' @ ptr_digits 16 x) s"

text \<open>The variable arguments of \<open>printf\<close>; a missing or mistyped one has no meaning in C.\<close>

datatype fmtarg = AInt u32 | APtr u64 | AStr "u8 list option"

fun printf_loop :: "u8 list \<Rightarrow> fmtarg list \<Rightarrow> 'a uart_state_scheme \<Rightarrow> (unit, 'a uart_state_scheme) res" where
  "printf_loop [] ap s = Done () s"
| "printf_loop [c] ap s = (if c \<noteq> 37 then consputc (Some c) s else Done () s)"
| "printf_loop (c # d # fmt) ap s =
     (if c \<noteq> 37 then andthen (consputc (Some c) s) (\<lambda>_ s. printf_loop (d # fmt) ap s)
      else if d = 100 then (case ap of AInt x # ap \<Rightarrow> andthen (printint x 10 True s) (\<lambda>_ s. printf_loop fmt ap s)
             | _ \<Rightarrow> Panic ''undefined: va_arg'')
      else if d = 120 then (case ap of AInt x # ap \<Rightarrow> andthen (printint x 16 True s) (\<lambda>_ s. printf_loop fmt ap s)
             | _ \<Rightarrow> Panic ''undefined: va_arg'')
      else if d = 112 then (case ap of APtr x # ap \<Rightarrow> andthen (printptr x s) (\<lambda>_ s. printf_loop fmt ap s)
             | _ \<Rightarrow> Panic ''undefined: va_arg'')
      else if d = 115 then (case ap of AStr x # ap \<Rightarrow>
               andthen (consputs (case x of None \<Rightarrow> bytes_of ''(null)'' | Some cs \<Rightarrow> cs) s) (\<lambda>_ s. printf_loop fmt ap s)
             | _ \<Rightarrow> Panic ''undefined: va_arg'')
      else if d = 37 then andthen (consputc (Some 37) s) (\<lambda>_ s. printf_loop fmt ap s)
      else andthen (consputc (Some 37) s) (\<lambda>_ s. andthen (consputc (Some d) s) (\<lambda>_ s. printf_loop fmt ap s)))"

definition printf :: "u8 list option \<Rightarrow> fmtarg list \<Rightarrow> 'a pr_state_scheme \<Rightarrow> (unit, 'a pr_state_scheme) res" where
  "printf fmt ap s =
     (let locking = pr_locking s in
      andthen (if locking then acquire L_pr s else Done () s) (\<lambda>_ s.
      case fmt of None \<Rightarrow> Panic ''null fmt''
      | Some f \<Rightarrow> andthen (printf_loop f ap s) (\<lambda>_ s. if locking then release L_pr s else Done () s)))"

text \<open>
  \<open>panic\<close>: what it does before it loops for ever. Callers of \<open>panic\<close> end in the outcome \<open>Panic\<close>.
\<close>

definition panic :: "u8 list \<Rightarrow> 'a pr_state_scheme \<Rightarrow> (unit, 'a pr_state_scheme) res" where
  "panic msg s =
     andthen (printf (Some (bytes_of ''panic: '')) [] (s\<lparr>pr_locking := False\<rparr>)) (\<lambda>_ s.
     andthen (printf (Some msg) [] s) (\<lambda>_ s.
     andthen (printf (Some [10]) [] s) (\<lambda>_ s. Done () (s\<lparr>panicked := True\<rparr>))))"

definition printfinit :: "'a pr_state_scheme \<Rightarrow> 'a pr_state_scheme" where
  "printfinit s = s\<lparr>held := held s - {L_pr}, pr_locking := True\<rparr>"

fun state_name :: "procstate \<Rightarrow> u8 list" where
  "state_name UNUSED = bytes_of ''unused''"
| "state_name SLEEPING = bytes_of ''sleep ''"
| "state_name RUNNABLE = bytes_of ''runble''"
| "state_name RUNNING = bytes_of ''run   ''"
| "state_name ZOMBIE = bytes_of ''zombie''"

fun procdump_loop :: "nat \<Rightarrow> nat \<Rightarrow> 'a pr_state_scheme \<Rightarrow> (unit, 'a pr_state_scheme) res" where
  "procdump_loop i 0 s = Done () s"
| "procdump_loop i (Suc k) s =
     andthen (if pstate (proc_at s i) = UNUSED then Done () s
       else andthen (printf (Some (bytes_of ''%d %s %s'')) [AInt (word_of_int (pid (proc_at s i))),
              AStr (Some (state_name (pstate (proc_at s i)))), AStr (Some (cstr (pname (proc_at s i))))] s) (\<lambda>_ s.
            printf (Some [10]) [] s)) (\<lambda>_ s.
     procdump_loop (Suc i) k s)"

definition procdump :: "'a pr_state_scheme \<Rightarrow> (unit, 'a pr_state_scheme) res" where
  "procdump s = andthen (printf (Some [10]) [] s) (\<lambda>_ s. procdump_loop 0 NPROC s)"

section \<open>A concrete state\<close>

definition example_pr :: pr_state where
  "example_pr = uart_state.extend example_uart (pr_state.fields True)"

lemma example_pr_simps [simp]:
  "held example_pr = {}" "cur example_pr = Some 1" "procs example_pr = procs example_procs"
  "tx_out example_pr = []" "panicked example_pr = False" "pr_locking example_pr" "rx_fifo example_pr = []"
  by (simp_all add: example_pr_def example_uart_def proc_state.defs uart_state.defs pr_state.defs)

end
