(* ===== verification/Console.thy ===== *)
theory Console
  imports Kprintf
begin

text \<open>
  The console, \<open>kernel/console.c\<close>: the input ring with its line editing, and the \<open>read\<close> and \<open>write\<close>
  functions of the console device; also \<open>uartintr\<close> of \<open>kernel/uart.c\<close>, which feeds it.
\<close>

definition INPUT_BUF :: nat where [simp]: "INPUT_BUF = 128"

definition CONSOLE :: nat where [simp]: "CONSOLE = 1"

text \<open>\<open>devsw\<close>: the functions registered for each major number; the console's are the only ones.\<close>

datatype devfn = Consoleread | Consolewrite

record cons_state = pr_state +
  cons_buf :: "u8 list"
  cons_r :: u32
  cons_w :: u32
  cons_e :: u32
  devsw_read :: "devfn option list"
  devsw_write :: "devfn option list"

fun consolewrite_loop :: "ksrc \<Rightarrow> nat \<Rightarrow> nat \<Rightarrow> 'a cons_state_scheme \<Rightarrow> (int, 'a cons_state_scheme) res" where
  "consolewrite_loop src i 0 s = Done (int i) s"
| "consolewrite_loop src i (Suc k) s =
     andthen (either_copyin src 1 s) (\<lambda>(r, c, src) s.
     if r = - 1 then Done (int i) s
     else andthen (uartputc (hd c) s) (\<lambda>_ s. consolewrite_loop src (Suc i) k s))"

definition consolewrite :: "ksrc \<Rightarrow> int \<Rightarrow> 'a cons_state_scheme \<Rightarrow> (int, 'a cons_state_scheme) res" where
  "consolewrite src n s = consolewrite_loop src 0 (nat n) s"

text \<open>The loop of \<open>consoleread\<close> with \<open>cons.lock\<close> held; \<open>n\<close> bytes of \<open>target\<close> are still wanted.\<close>

fun consoleread_loop :: "kdst \<Rightarrow> nat \<Rightarrow> nat \<Rightarrow> 'a cons_state_scheme \<Rightarrow> (int \<times> kdst, 'a cons_state_scheme) res" where
  "consoleread_loop dst target 0 s = andthen (release L_cons s) (\<lambda>_ s. Done (int target, dst) s)"
| "consoleread_loop dst target (Suc n) s =
     (if cons_r s = cons_w s
      then with_proc s (\<lambda>p.
        if killed (proc_at s p) then andthen (release L_cons s) (\<lambda>_ s. Done (- 1, dst) s)
        else andthen (sleep Ch_cons L_cons s) (\<lambda>_ s. Done (0, dst) s))
      else let c = cons_buf s ! (unat (cons_r s) mod INPUT_BUF);
               s = s\<lparr>cons_r := cons_r s + 1\<rparr> in
      if c = 4
      then andthen (release L_cons (if Suc n < target then s\<lparr>cons_r := cons_r s - 1\<rparr> else s)) (\<lambda>_ s.
           Done (int (target - Suc n), dst) s)
      else andthen (either_copyout dst [c] s) (\<lambda>(r, dst) s.
           if r = - 1 then andthen (release L_cons s) (\<lambda>_ s. Done (int (target - Suc n), dst) s)
           else if c = 10 then andthen (release L_cons s) (\<lambda>_ s. Done (int (target - n), dst) s)
           else consoleread_loop dst target n s))"

definition consoleread :: "kdst \<Rightarrow> int \<Rightarrow> 'a cons_state_scheme \<Rightarrow> (int \<times> kdst, 'a cons_state_scheme) res" where
  "consoleread dst n s =
     andthen (acquire L_cons s) (\<lambda>_ s. consoleread_loop dst (nat n) (nat n) s)"

definition consoleread_resume :: "kdst \<Rightarrow> nat \<Rightarrow> nat \<Rightarrow> 'a cons_state_scheme \<Rightarrow> (int \<times> kdst, 'a cons_state_scheme) res" where
  "consoleread_resume dst target n s =
     andthen (sleep_return L_cons s) (\<lambda>_ s. consoleread_loop dst target n s)"

text \<open>Erasing the line being edited, \<open>control-u\<close>: at most \<open>e - w\<close> characters.\<close>

fun kill_line :: "nat \<Rightarrow> 'a cons_state_scheme \<Rightarrow> (unit, 'a cons_state_scheme) res" where
  "kill_line 0 s = Done () s"
| "kill_line (Suc n) s =
     (if cons_e s \<noteq> cons_w s \<and> cons_buf s ! (unat (cons_e s - 1) mod INPUT_BUF) \<noteq> 10
      then andthen (consputc None (s\<lparr>cons_e := cons_e s - 1\<rparr>)) (\<lambda>_ s. kill_line n s)
      else Done () s)"

definition consoleintr_body :: "u8 \<Rightarrow> 'a cons_state_scheme \<Rightarrow> (unit, 'a cons_state_scheme) res" where
  "consoleintr_body c s =
     (if c = 16 then procdump s
      else if c = 21 then kill_line (unat (cons_e s - cons_w s)) s
      else if c = 8 \<or> c = 127
      then if cons_e s \<noteq> cons_w s then consputc None (s\<lparr>cons_e := cons_e s - 1\<rparr>) else Done () s
      else if c \<noteq> 0 \<and> cons_e s - cons_r s < of_nat INPUT_BUF
      then let c = (if c = 13 then 10 else c) in
           andthen (consputc (Some c) s) (\<lambda>_ s.
           let s = s\<lparr>cons_buf := (cons_buf s)[unat (cons_e s) mod INPUT_BUF := c], cons_e := cons_e s + 1\<rparr> in
           if c = 10 \<or> c = 4 \<or> cons_e s = cons_r s + of_nat INPUT_BUF
           then wakeup Ch_cons (s\<lparr>cons_w := cons_e s\<rparr>)
           else Done () s)
      else Done () s)"

definition consoleintr :: "u8 \<Rightarrow> 'a cons_state_scheme \<Rightarrow> (unit, 'a cons_state_scheme) res" where
  "consoleintr c s =
     andthen (acquire L_cons s) (\<lambda>_ s.
     andthen (consoleintr_body c s) (\<lambda>_ s. release L_cons s))"

definition consoleinit :: "'a cons_state_scheme \<Rightarrow> 'a cons_state_scheme" where
  "consoleinit s =
     (let s = uartinit (s\<lparr>held := held s - {L_cons}\<rparr>)
      in s\<lparr>devsw_read := (devsw_read s)[CONSOLE := Some Consoleread],
           devsw_write := (devsw_write s)[CONSOLE := Some Consolewrite]\<rparr>)"

text \<open>The receive loop of \<open>uartintr\<close> takes one byte from the device per turn.\<close>

fun uartintr_loop :: "nat \<Rightarrow> 'a cons_state_scheme \<Rightarrow> (unit, 'a cons_state_scheme) res" where
  "uartintr_loop 0 s = Done () s"
| "uartintr_loop (Suc n) s =
     andthen (uartgetc s) (\<lambda>c s.
     case c of None \<Rightarrow> Done () s
     | Some c \<Rightarrow> andthen (consoleintr c s) (\<lambda>_ s. uartintr_loop n s))"

definition uartintr :: "'a cons_state_scheme \<Rightarrow> (unit, 'a cons_state_scheme) res" where
  "uartintr s =
     andthen (uartintr_loop (length (rx_fifo s)) s) (\<lambda>_ s.
     andthen (acquire L_uart s) (\<lambda>_ s.
     andthen (uartstart s) (\<lambda>_ s. release L_uart s)))"

section \<open>A concrete state\<close>

definition example_cons :: cons_state where
  "example_cons = pr_state.extend example_pr (cons_state.fields (replicate 128 0) 0 0 0
     ((replicate 10 None)[1 := Some Consoleread]) ((replicate 10 None)[1 := Some Consolewrite]))"

lemmas cons_ext_defs = example_cons_def example_pr_def example_uart_def
  proc_state.defs uart_state.defs pr_state.defs cons_state.defs

lemma example_cons_simps [simp]:
  "held example_cons = {}" "cur example_cons = Some 1" "procs example_cons = procs example_procs"
  "tx_out example_cons = []" "panicked example_cons = False" "rx_fifo example_cons = []"
  "cons_buf example_cons = replicate 128 0" "cons_r example_cons = 0" "cons_w example_cons = 0" "cons_e example_cons = 0"
  by (simp_all add: cons_ext_defs)

end
