(* ===== verification/Sleeplock.thy ===== *)
theory Sleeplock
  imports Console
begin

text \<open>
  Sleeping locks, \<open>kernel/sleeplock.c\<close>. A thread that finds the lock taken leaves the CPU (\<open>Switch\<close>);
  \<open>acquiresleep_resume\<close> is what it does when it is scheduled again.
\<close>

record sleeplock =
  locked_sl :: bool
  pid_sl :: int

record sl_state = cons_state +
  sleeplocks :: "slid \<Rightarrow> sleeplock"

definition initsleeplock :: "slid \<Rightarrow> 'a sl_state_scheme \<Rightarrow> 'a sl_state_scheme" where
  "initsleeplock l s = s\<lparr>held := held s - {L_sleep l},
     sleeplocks := (sleeplocks s)(l := \<lparr>locked_sl = False, pid_sl = 0\<rparr>)\<rparr>"

text \<open>The loop of \<open>acquiresleep\<close>, entered with \<open>lk->lk\<close> held; a thread that finds the lock taken leaves the
  CPU in \<open>sleep\<close>, and starts over when it comes back.\<close>

definition acquiresleep_loop :: "slid \<Rightarrow> 'a sl_state_scheme \<Rightarrow> (unit, 'a sl_state_scheme) res" where
  "acquiresleep_loop l s =
     (if locked_sl (sleeplocks s l) then sleep (Ch_sleep l) (L_sleep l) s
      else with_proc s (\<lambda>p.
        release (L_sleep l) (s\<lparr>sleeplocks := (sleeplocks s)(l := \<lparr>locked_sl = True, pid_sl = pid (proc_at s p)\<rparr>)\<rparr>)))"

definition acquiresleep :: "slid \<Rightarrow> 'a sl_state_scheme \<Rightarrow> (unit, 'a sl_state_scheme) res" where
  "acquiresleep l s = andthen (acquire (L_sleep l) s) (\<lambda>_ s. acquiresleep_loop l s)"

definition acquiresleep_resume :: "slid \<Rightarrow> 'a sl_state_scheme \<Rightarrow> (unit, 'a sl_state_scheme) res" where
  "acquiresleep_resume l s = andthen (sleep_return (L_sleep l) s) (\<lambda>_ s. acquiresleep_loop l s)"

definition releasesleep :: "slid \<Rightarrow> 'a sl_state_scheme \<Rightarrow> (unit, 'a sl_state_scheme) res" where
  "releasesleep l s =
     andthen (acquire (L_sleep l) s) (\<lambda>_ s.
     andthen (wakeup (Ch_sleep l) (s\<lparr>sleeplocks := (sleeplocks s)(l := \<lparr>locked_sl = False, pid_sl = 0\<rparr>)\<rparr>)) (\<lambda>_ s.
     release (L_sleep l) s))"

definition holdingsleep :: "slid \<Rightarrow> 'a sl_state_scheme \<Rightarrow> (bool, 'a sl_state_scheme) res" where
  "holdingsleep l s =
     andthen (acquire (L_sleep l) s) (\<lambda>_ s. with_proc s (\<lambda>p.
       let r = locked_sl (sleeplocks s l) \<and> pid_sl (sleeplocks s l) = pid (proc_at s p)
       in andthen (release (L_sleep l) s) (\<lambda>_ s. Done r s)))"

section \<open>The protocol of a sleep lock\<close>

text \<open>The state of a thread that runs, between calls: no spin lock held.\<close>

definition calm :: "'a proc_state_scheme \<Rightarrow> bool" where
  "calm s \<longleftrightarrow> (\<exists>p. cur s = Some p \<and> p < NPROC) \<and> length (procs s) = NPROC \<and> held s = {}"

definition mypid :: "'a proc_state_scheme \<Rightarrow> int" where
  "mypid s = pid (procs s ! the (cur s))"

definition set_sl :: "slid \<Rightarrow> bool \<Rightarrow> int \<Rightarrow> 'a sl_state_scheme \<Rightarrow> 'a sl_state_scheme" where
  "set_sl l b n s = s\<lparr>sleeplocks := (sleeplocks s)(l := \<lparr>locked_sl = b, pid_sl = n\<rparr>)\<rparr>"

lemma acquiresleep_Done:
  assumes "cur s = Some p" and "L_sleep l \<notin> held s" and "\<not> locked_sl (sleeplocks s l)"
  shows "acquiresleep l s = Done () (set_sl l True (mypid s) s)"
  using assms by (simp add: acquiresleep_def acquiresleep_loop_def with_proc_def set_sl_def mypid_def)

lemma acquiresleep_Switch:
  assumes "calm s" and "locked_sl (sleeplocks s l)" and "cur s = Some p"
  shows "acquiresleep l s =
    Switch (upd_proc p (\<lambda>q. q\<lparr>pchan := Some (Ch_sleep l), pstate := SLEEPING\<rparr>) (s\<lparr>held := {L_proc p}\<rparr>))"
  using assms sleep_Switch [of "s\<lparr>held := {L_sleep l}\<rparr>" p "L_sleep l" "Ch_sleep l"]
  by (auto simp: acquiresleep_def acquiresleep_loop_def calm_def)

lemma holdingsleep_Done:
  assumes "cur s = Some p" and "L_sleep l \<notin> held s"
  shows "holdingsleep l s = Done (locked_sl (sleeplocks s l) \<and> pid_sl (sleeplocks s l) = mypid s) s"
  using assms by (simp add: holdingsleep_def with_proc_def Let_def mypid_def)

lemma releasesleep_Done:
  assumes "length (procs s) = NPROC" and "\<forall>j. L_proc j \<notin> held s" and "L_sleep l \<notin> held s"
  shows "releasesleep l s = Done () ((set_sl l False 0 s)\<lparr>procs := map (awaken (Ch_sleep l)) (procs s)\<rparr>)"
  using assms by (simp add: releasesleep_def wakeup_Done set_sl_def)

text \<open>C21: the life of a sleep lock. A running process that finds the lock free takes it; while it holds
  the lock, \<open>holdingsleep\<close> says so, and any process that calls \<open>acquiresleep\<close> goes to sleep on the
  lock without returning; \<open>releasesleep\<close> frees the lock and makes all of these runnable.\<close>

theorem sleeplock_protocol:
  assumes "calm s" and "\<not> locked_sl (sleeplocks s l)"
  shows "returns (acquiresleep l s) (\<lambda>_ t.
      returns (holdingsleep l t) (\<lambda>r u. r \<and> u = t)
    \<and> (\<forall>q\<in>{..<NPROC}. \<exists>u. acquiresleep l (t\<lparr>cur := Some q\<rparr>) = Switch u
         \<and> pstate (procs u ! q) = SLEEPING \<and> pchan (procs u ! q) = Some (Ch_sleep l))
    \<and> returns (releasesleep l t) (\<lambda>_ u. \<not> locked_sl (sleeplocks u l) \<and> held u = {}
         \<and> procs u = map (awaken (Ch_sleep l)) (procs s)))"
proof -
  obtain p where p: "cur s = Some p" using assms(1) by (auto simp: calm_def)
  let ?t = "set_sl l True (mypid s) s"
  have t: "acquiresleep l s = Done () ?t"
    using acquiresleep_Done [OF p] assms by (simp add: calm_def)
  have f: "cur ?t = Some p" "held ?t = {}" "procs ?t = procs s" "length (procs s) = NPROC"
    "mypid ?t = mypid s" "sleeplocks ?t l = \<lparr>locked_sl = True, pid_sl = mypid s\<rparr>"
    using assms(1) p by (simp_all add: set_sl_def calm_def mypid_def)
  have "\<exists>u. acquiresleep l (?t\<lparr>cur := Some q\<rparr>) = Switch u
         \<and> pstate (procs u ! q) = SLEEPING \<and> pchan (procs u ! q) = Some (Ch_sleep l)" if "q < NPROC" for q
    using acquiresleep_Switch [of "?t\<lparr>cur := Some q\<rparr>" l q] that f by (simp add: calm_def)
  then show ?thesis
    using f holdingsleep_Done [of ?t p l] releasesleep_Done [of ?t l] by (simp add: t set_sl_def)
qed

definition example_sl :: sl_state where
  "example_sl = cons_state.extend example_cons (sl_state.fields (\<lambda>_. \<lparr>locked_sl = False, pid_sl = 0\<rparr>))"

lemmas sl_ext_defs = example_sl_def sl_state.defs cons_ext_defs

lemma example_sl_simps [simp]:
  "held example_sl = {}" "cur example_sl = Some 1" "procs example_sl = procs example_procs"
  "sleeplocks example_sl l = \<lparr>locked_sl = False, pid_sl = 0\<rparr>"
  by (simp_all add: sl_ext_defs)

theorem sleeplock_protocol_witness:
  "returns (acquiresleep (SL_buf 0) example_sl) (\<lambda>_ t.
      returns (holdingsleep (SL_buf 0) t) (\<lambda>r u. r \<and> u = t)
    \<and> (\<exists>u. acquiresleep (SL_buf 0) (t\<lparr>cur := Some 2\<rparr>) = Switch u)
    \<and> returns (releasesleep (SL_buf 0) t) (\<lambda>_ u. \<not> locked_sl (sleeplocks u (SL_buf 0))))"
  using sleeplock_protocol [of example_sl "SL_buf 0"]
  by (auto simp: calm_def elim!: returns_mono)

end
