(* ===== verification/Uart_Ring.thy ===== *)
theory Uart_Ring
  imports Ring Sleeplock
begin

text \<open>
  The ring of the serial port (\<open>kernel/uart.c\<close>) as a queue, and the order of the bytes on the wire.
\<close>

section \<open>The ring of the serial port\<close>

definition uart_ok :: "'a uart_state_scheme \<Rightarrow> bool" where
  "uart_ok s \<longleftrightarrow> length (uart_tx_buf s) = UART_TX_BUF_SIZE \<and> unat (uart_tx_w s - uart_tx_r s) \<le> UART_TX_BUF_SIZE"

definition uart_queue :: "'a uart_state_scheme \<Rightarrow> u8 list" where
  "uart_queue s = ring UART_TX_BUF_SIZE (uart_tx_buf s) (uart_tx_r s) (uart_tx_w s)"

lemma queue_full_iff: "unat (w - r :: u64) = 32 \<longleftrightarrow> w = r + 32"
proof
  assume "unat (w - r) = 32"
  moreover have "w - r = of_nat (unat (w - r))" by simp
  ultimately have "w - r = 32" by simp
  then show "w = r + 32" by (simp add: algebra_simps)
qed simp

interpretation uart_fifo: byte_fifo uart_ok uart_queue UART_TX_BUF_SIZE
  "\<lambda>c s. s\<lparr>uart_tx_buf := (uart_tx_buf s)[unat (uart_tx_w s) mod UART_TX_BUF_SIZE := c], uart_tx_w := uart_tx_w s + 1\<rparr>"
  "\<lambda>s. uart_tx_buf s ! (unat (uart_tx_r s) mod UART_TX_BUF_SIZE)" "\<lambda>s. s\<lparr>uart_tx_r := uart_tx_r s + 1\<rparr>"
proof (unfold_locales, goal_cases)
  case (1 s c)
  then show ?case
    using ring_put [of 32 "uart_tx_buf s" "uart_tx_w s" "uart_tx_r s" c] unat_Suc_diff [of "uart_tx_w s" "uart_tx_r s" 32]
    by (simp add: uart_ok_def uart_queue_def)
next
  case (2 s)
  then have "ring 32 (uart_tx_buf s) (uart_tx_r s) (uart_tx_w s)
      = uart_tx_buf s ! (unat (uart_tx_r s) mod 32) # ring 32 (uart_tx_buf s) (uart_tx_r s + 1) (uart_tx_w s)"
    by (intro ring_get) (auto simp: uart_queue_def)
  then show ?case using 2(1) length_ring [of 32 "uart_tx_buf s" "uart_tx_r s" "uart_tx_w s"]
    by (auto simp: uart_ok_def uart_queue_def)
qed

lemma uart_queue_fields [simp]:
  "uart_queue (s\<lparr>procs := ps\<rparr>) = uart_queue s" "uart_queue (write_THR c s) = uart_queue s" "uart_queue (s\<lparr>held := h\<rparr>) = uart_queue s"
  "uart_ok (s\<lparr>procs := ps\<rparr>) = uart_ok s" "uart_ok (write_THR c s) = uart_ok s" "uart_ok (s\<lparr>held := h\<rparr>) = uart_ok s"
  "uart_queue (s\<lparr>tx_room := m\<rparr>) = uart_queue s" "uart_queue (s\<lparr>tx_out := out\<rparr>) = uart_queue s"
  "uart_ok (s\<lparr>tx_room := m\<rparr>) = uart_ok s" "uart_ok (s\<lparr>tx_out := out\<rparr>) = uart_ok s"
  by (simp_all add: uart_queue_def uart_ok_def write_THR_def)

lemma uart_queue_Nil: "uart_queue s = [] \<longleftrightarrow> uart_tx_w s = uart_tx_r s"
  by (simp add: uart_queue_def ring_Nil_iff)

text \<open>What one run of \<open>uartstart\<close> does: it moves as many bytes as the transmitter takes from the front of the queue to
  the wire.\<close>

lemma uartstart_loop_run:
  assumes "uart_ok s" and "length (procs s) = NPROC" and "\<forall>j. L_proc j \<notin> held s" and "n = length (uart_queue s)"
  shows "\<exists>ps. uartstart_loop n s = Done () (s\<lparr>procs := ps, uart_tx_r := uart_tx_r s + of_nat (min n (tx_room s)),
      tx_room := tx_room s - min n (tx_room s), tx_out := tx_out s @ take (tx_room s) (uart_queue s)\<rparr>)
    \<and> length ps = NPROC \<and> uart_ok (s\<lparr>uart_tx_r := uart_tx_r s + of_nat (min n (tx_room s))\<rparr>)
    \<and> uart_queue (s\<lparr>uart_tx_r := uart_tx_r s + of_nat (min n (tx_room s))\<rparr>) = drop (tx_room s) (uart_queue s)"
  using assms
proof (induction n arbitrary: s)
  case 0
  then show ?case by (intro exI [of _ "procs s"]) simp
next
  case (Suc n)
  obtain c cs where q: "uart_queue s = c # cs" using Suc.prems(4) by (cases "uart_queue s") auto
  then have ne: "uart_tx_w s \<noteq> uart_tx_r s" using uart_queue_Nil [of s] by auto
  show ?case
  proof (cases "tx_room s")
    case 0
    then show ?thesis using ne Suc.prems(1,2) by (intro exI [of _ "procs s"]) simp
  next
    case (Suc k)
    let ?d = "s\<lparr>uart_tx_r := uart_tx_r s + 1\<rparr>"
    let ?s = "write_THR c (?d\<lparr>procs := map (awaken Ch_uart) (procs s)\<rparr>)"
    have c: "uart_tx_buf s ! (unat (uart_tx_r s) mod UART_TX_BUF_SIZE) = c"
      using uart_fifo.front_eq [OF Suc.prems(1) q] by simp
    have d: "uart_ok ?d" "uart_queue ?d = cs" using uart_fifo.drop_front_eq [OF Suc.prems(1) q] by simp_all
    have "wakeup Ch_uart ?d = Done () (?d\<lparr>procs := map (awaken Ch_uart) (procs s)\<rparr>)"
      using wakeup_Done [of ?d Ch_uart] Suc.prems(2,3) by simp
    then have e: "uartstart_loop (Suc n) s = uartstart_loop n ?s" using ne Suc c by (simp add: Let_def)
    have "\<exists>ps. uartstart_loop n ?s = Done () (?s\<lparr>procs := ps, uart_tx_r := uart_tx_r ?s + of_nat (min n (tx_room ?s)),
        tx_room := tx_room ?s - min n (tx_room ?s), tx_out := tx_out ?s @ take (tx_room ?s) (uart_queue ?s)\<rparr>)
      \<and> length ps = NPROC \<and> uart_ok (?s\<lparr>uart_tx_r := uart_tx_r ?s + of_nat (min n (tx_room ?s))\<rparr>)
      \<and> uart_queue (?s\<lparr>uart_tx_r := uart_tx_r ?s + of_nat (min n (tx_room ?s))\<rparr>) = drop (tx_room ?s) (uart_queue ?s)"
      using d q Suc.prems(2-4) by (intro Suc.IH) (simp_all add: write_THR_def)
    then show ?thesis
      unfolding e using Suc d(2) q by (auto simp: write_THR_def uart_queue_def uart_ok_def add.assoc)
  qed
qed

lemma uartstart_rule:
  assumes "uart_ok s" and "length (procs s) = NPROC" and "\<forall>j. L_proc j \<notin> held s"
  shows "\<exists>t. uartstart s = Done () t \<and> uart_ok t \<and> length (procs t) = NPROC \<and> held t = held s \<and> cur t = cur s
    \<and> tx_out t @ uart_queue t = tx_out s @ uart_queue s \<and> (uart_queue t = [] \<or> tx_room t = 0)"
proof -
  obtain ps where "uartstart s = Done () (s\<lparr>procs := ps, uart_tx_r := uart_tx_r s + of_nat (min (length (uart_queue s)) (tx_room s)),
      tx_room := tx_room s - min (length (uart_queue s)) (tx_room s), tx_out := tx_out s @ take (tx_room s) (uart_queue s)\<rparr>)"
    "length ps = NPROC" "uart_ok (s\<lparr>uart_tx_r := uart_tx_r s + of_nat (min (length (uart_queue s)) (tx_room s))\<rparr>)"
    "uart_queue (s\<lparr>uart_tx_r := uart_tx_r s + of_nat (min (length (uart_queue s)) (tx_room s))\<rparr>) = drop (tx_room s) (uart_queue s)"
    using uartstart_loop_run [OF assms refl] by (auto simp: uartstart_def uart_queue_def)
  then show ?thesis by (auto simp: uart_queue_def uart_ok_def)
qed

text \<open>C12: no byte sent through the serial port is lost, duplicated or reordered. \<open>uartputc\<close> with a full ring gives up
  the processor and changes nothing; otherwise it returns, and what is on the wire followed by what
  is in the ring has grown by exactly its byte; bytes stay in the ring only while the transmitter is busy.
  Interrupts of the transmitter keep that stream.\<close>

theorem uart_keeps_order:
  assumes "uart_ok s" and "calm s" and "\<not> panicked s"
  shows "(if length (uart_queue s) = UART_TX_BUF_SIZE
      then \<exists>t. uartputc c s = Switch t \<and> tx_out t = tx_out s \<and> uart_queue t = uart_queue s
      else returns (uartputc c s) (\<lambda>_ t. uart_ok t \<and> calm t \<and> tx_out t @ uart_queue t = tx_out s @ uart_queue s @ [c]
        \<and> (uart_queue t = [] \<or> tx_room t = 0)))
    \<and> returns (andthen (acquire L_uart s) (\<lambda>_ s. andthen (uartstart s) (\<lambda>_ s. release L_uart s)))
        (\<lambda>_ t. uart_ok t \<and> calm t \<and> tx_out t @ uart_queue t = tx_out s @ uart_queue s \<and> (uart_queue t = [] \<or> tx_room t = 0))"
proof
  obtain p where p: "cur s = Some p" "p < NPROC" "length (procs s) = NPROC" "held s = {}" using assms(2) by (auto simp: calm_def)
  let ?s = "s\<lparr>held := {L_uart}\<rparr>"
  let ?u = "?s\<lparr>uart_tx_buf := (uart_tx_buf s)[unat (uart_tx_w s) mod UART_TX_BUF_SIZE := c], uart_tx_w := uart_tx_w s + 1\<rparr>"
  show "if length (uart_queue s) = UART_TX_BUF_SIZE
      then \<exists>t. uartputc c s = Switch t \<and> tx_out t = tx_out s \<and> uart_queue t = uart_queue s
      else returns (uartputc c s) (\<lambda>_ t. uart_ok t \<and> calm t \<and> tx_out t @ uart_queue t = tx_out s @ uart_queue s @ [c]
        \<and> (uart_queue t = [] \<or> tx_room t = 0))"
  proof (cases "length (uart_queue s) = UART_TX_BUF_SIZE")
    case True
    then have full: "uart_tx_w s = uart_tx_r s + 32" using queue_full_iff [of "uart_tx_w s" "uart_tx_r s"] by (simp add: uart_queue_def)
    have "sleep Ch_uart L_uart ?s = Switch (upd_proc p (\<lambda>q. q\<lparr>pchan := Some Ch_uart, pstate := SLEEPING\<rparr>) (?s\<lparr>held := {L_proc p}\<rparr>))"
      using p by (intro sleep_Switch) simp_all
    then show ?thesis using True p(4) assms(3) full by (simp add: uartputc_def uartputc_loop_def upd_proc_def)
  next
    case False
    then have lt: "length (uart_queue ?s) < UART_TX_BUF_SIZE" using assms(1) by (simp add: uart_ok_def uart_queue_def)
    have nf: "uart_tx_w s \<noteq> uart_tx_r s + 32" using False queue_full_iff [of "uart_tx_w s" "uart_tx_r s"] by (simp add: uart_queue_def)
    have u: "uart_ok ?u" "uart_queue ?u = uart_queue s @ [c]"
      using uart_fifo.put_law [OF _ lt, of c] assms(1) by simp_all
    obtain t where "uartstart ?u = Done () t" "uart_ok t" "length (procs t) = NPROC" "held t = {L_uart}" "cur t = cur s"
      "tx_out t @ uart_queue t = tx_out s @ uart_queue s @ [c]" "uart_queue t = [] \<or> tx_room t = 0"
      using uartstart_rule [OF u(1)] p(3) u(2) by auto
    then show ?thesis using False p assms(3) nf by (simp add: uartputc_def uartputc_loop_def Let_def calm_def)
  qed
  obtain t where "uartstart ?s = Done () t" "uart_ok t" "length (procs t) = NPROC" "held t = {L_uart}" "cur t = cur s"
      "tx_out t @ uart_queue t = tx_out s @ uart_queue s" "uart_queue t = [] \<or> tx_room t = 0"
    using uartstart_rule [of ?s] assms(1) p(3) by auto
  then show "returns (andthen (acquire L_uart s) (\<lambda>_ s. andthen (uartstart s) (\<lambda>_ s. release L_uart s)))
        (\<lambda>_ t. uart_ok t \<and> calm t \<and> tx_out t @ uart_queue t = tx_out s @ uart_queue s \<and> (uart_queue t = [] \<or> tx_room t = 0))"
    using p by (simp add: calm_def)
qed

theorem uart_keeps_order_witness:
  "returns (uartputc 65 example_uart) (\<lambda>_ t. tx_out t @ uart_queue t = [65])"
  using uart_keeps_order [of example_uart 65] by (auto simp: uart_ok_def calm_def uart_queue_def elim!: returns_mono)

end
