(* ===== verification/Console_Line.thy ===== *)
theory Console_Line
  imports Ring Sleeplock
begin

text \<open>
  The console input (\<open>kernel/console.c\<close>): the ring with its three indices implements a line editor.
\<close>

section \<open>The input line\<close>

text \<open>The bytes of finished lines that wait for \<open>consoleread\<close>, and the line being edited.\<close>

definition cons_ready :: "'a cons_state_scheme \<Rightarrow> u8 list" where
  "cons_ready s = ring INPUT_BUF (cons_buf s) (cons_r s) (cons_w s)"

definition cons_line :: "'a cons_state_scheme \<Rightarrow> u8 list" where
  "cons_line s = ring INPUT_BUF (cons_buf s) (cons_w s) (cons_e s)"

definition cons_ok :: "'a cons_state_scheme \<Rightarrow> bool" where
  "cons_ok s \<longleftrightarrow> length (cons_buf s) = INPUT_BUF \<and> unat (cons_e s - cons_r s) = length (cons_ready s) + length (cons_line s)
     \<and> unat (cons_e s - cons_r s) \<le> INPUT_BUF \<and> 10 \<notin> set (cons_line s)"

text \<open>The line editor as a function of the typed byte: control-U, erase, and all others; a line is handed over when it is
  complete, and also when the buffer is full.\<close>

definition line_edit :: "u8 \<Rightarrow> u8 list \<times> u8 list \<Rightarrow> u8 list \<times> u8 list" where
  "line_edit c = (\<lambda>(rdy, line).
     if c = 21 then (rdy, [])
     else if c = 8 \<or> c = 127 then (rdy, butlast line)
     else if c = 0 \<or> INPUT_BUF \<le> length rdy + length line then (rdy, line)
     else let line = line @ [if c = 13 then 10 else c]
          in if last line = 10 \<or> last line = 4 \<or> length rdy + length line = INPUT_BUF then (rdy @ line, []) else (rdy, line))"

lemma ring_append:
  assumes "N dvd 2 ^ LENGTH('a)" and "unat (e - r :: 'a::len word) = unat (w - r) + unat (e - w)"
  shows "ring N bs r e = ring N bs r w @ ring N bs w e"
proof (rule nth_equalityI)
  show "length (ring N bs r e) = length (ring N bs r w @ ring N bs w e)" using assms(2) by simp
  fix i assume i: "i < length (ring N bs r e)"
  have w: "unat w mod N = (unat r + unat (w - r)) mod N" using unat_ring_index [OF assms(1), of r "w - r"] by simp
  have "(unat w + j) mod N = (unat r + (unat (w - r) + j)) mod N" for j
    using w by (metis add.assoc mod_add_left_eq)
  then show "ring N bs r e ! i = (ring N bs r w @ ring N bs w e) ! i"
    using i assms(2) by (auto simp: ring_def nth_append)
qed

lemma ring_unput:
  assumes "e \<noteq> (w :: 'a::len word)"
  shows "ring N bs w (e - 1) = butlast (ring N bs w e)" "unat (e - 1 - w) = unat (e - w) - 1" "0 < unat (e - w)"
proof -
  have "e - w \<noteq> 0" using assms by simp
  then have "unat (e - w - 1) = unat (e - w) - 1" "0 < unat (e - w)" by (rule unat_minus_one, simp add: unat_gt_0)
  moreover have "e - 1 - w = e - w - 1" by simp
  ultimately show u: "unat (e - 1 - w) = unat (e - w) - 1" "0 < unat (e - w)" by metis+
  show "ring N bs w (e - 1) = butlast (ring N bs w e)"
    unfolding ring_def u(1) using u(2) by (cases "unat (e - w)") (simp_all add: butlast_append)
qed

lemma ring_last:
  assumes "N dvd 2 ^ LENGTH('a)" and "e \<noteq> (w :: 'a::len word)"
  shows "last (ring N bs w e) = bs ! (unat (e - 1) mod N)"
proof -
  note u = ring_unput(2,3) [OF assms(2)]
  have "unat (e - 1) mod N = (unat w + unat (e - 1 - w)) mod N" using unat_ring_index [OF assms(1), of w "e - 1 - w"] by simp
  then show ?thesis using u by (simp add: ring_def last_map)
qed

lemma consputc_Done:
  assumes "\<not> panicked s"
  shows "\<exists>k ys. consputc c s = Done () (s\<lparr>tx_room := k, tx_out := tx_out s @ ys\<rparr>)"
  using assms by (cases c) (auto simp: consputc_def uartputc_sync_def write_THR_def)

lemma cons_fields [simp]:
  "cons_ready (s\<lparr>tx_room := k\<rparr>) = cons_ready s" "cons_ready (s\<lparr>tx_out := ys\<rparr>) = cons_ready s"
  "cons_line (s\<lparr>tx_room := k\<rparr>) = cons_line s" "cons_line (s\<lparr>tx_out := ys\<rparr>) = cons_line s"
  "cons_ready (s\<lparr>held := h\<rparr>) = cons_ready s" "cons_line (s\<lparr>held := h\<rparr>) = cons_line s"
  "cons_ready (s\<lparr>procs := ps\<rparr>) = cons_ready s" "cons_line (s\<lparr>procs := ps\<rparr>) = cons_line s"
  "cons_ready (s\<lparr>cons_e := e\<rparr>) = cons_ready s"
  by (simp_all add: cons_ready_def cons_line_def)

lemma cons_ok_fields [simp]:
  "cons_ok (s\<lparr>tx_room := k\<rparr>) = cons_ok s" "cons_ok (s\<lparr>tx_out := ys\<rparr>) = cons_ok s" "cons_ok (s\<lparr>held := h\<rparr>) = cons_ok s"
  "cons_ok (s\<lparr>procs := ps\<rparr>) = cons_ok s"
  by (simp_all add: cons_ok_def)

text \<open>Erasing one byte of the line.\<close>

lemma erase_one:
  assumes "cons_ok s" and "cons_e s \<noteq> cons_w s"
  shows "cons_ok (s\<lparr>cons_e := cons_e s - 1\<rparr>)" "cons_line (s\<lparr>cons_e := cons_e s - 1\<rparr>) = butlast (cons_line s)"
    "cons_buf s ! (unat (cons_e s - 1) mod INPUT_BUF) \<noteq> 10"
proof -
  note u = ring_unput [OF assms(2)]
  show l: "cons_line (s\<lparr>cons_e := cons_e s - 1\<rparr>) = butlast (cons_line s)" using u(1) by (simp add: cons_line_def)
  have "cons_line s \<noteq> []" using assms(2) by (simp add: cons_line_def ring_Nil_iff)
  moreover have "last (cons_line s) = cons_buf s ! (unat (cons_e s - 1) mod INPUT_BUF)"
    unfolding cons_line_def by (rule ring_last [OF _ assms(2)]) simp
  ultimately show "cons_buf s ! (unat (cons_e s - 1) mod INPUT_BUF) \<noteq> 10"
    using assms(1) last_in_set [of "cons_line s"] by (auto simp: cons_ok_def)
  have "cons_e s \<noteq> cons_r s" using assms(1) u(3) by (auto simp: cons_ok_def cons_line_def)
  from ring_unput(2,3) [OF this] show "cons_ok (s\<lparr>cons_e := cons_e s - 1\<rparr>)"
    using assms(1) l u by (auto simp: cons_ok_def cons_line_def dest: in_set_butlastD)
qed

definition cons_same :: "'a cons_state_scheme \<Rightarrow> 'a cons_state_scheme \<Rightarrow> bool" where
  "cons_same s t \<longleftrightarrow> held t = held s \<and> cur t = cur s \<and> length (procs t) = length (procs s) \<and> panicked t = panicked s"

lemma erase_rule:
  assumes "cons_ok s" and "cons_e s \<noteq> cons_w s" and "\<not> panicked s"
  shows "\<exists>t. consputc None (s\<lparr>cons_e := cons_e s - 1\<rparr>) = Done () t \<and> cons_ok t \<and> cons_line t = butlast (cons_line s)
    \<and> cons_ready t = cons_ready s \<and> cons_same s t"
proof -
  obtain k ys where "consputc None (s\<lparr>cons_e := cons_e s - 1\<rparr>) = Done () (s\<lparr>cons_e := cons_e s - 1, tx_room := k, tx_out := tx_out s @ ys\<rparr>)"
    using consputc_Done [of "s\<lparr>cons_e := cons_e s - 1\<rparr>" None] assms(3) by auto
  then show ?thesis using erase_one [OF assms(1,2)] by (simp add: cons_same_def)
qed

lemma kill_line_rule:
  assumes "cons_ok s" and "\<not> panicked s" and "n = length (cons_line s)"
  shows "\<exists>t. kill_line n s = Done () t \<and> cons_ok t \<and> cons_line t = [] \<and> cons_ready t = cons_ready s \<and> cons_same s t"
  using assms
proof (induction n arbitrary: s)
  case 0
  then show ?case by (simp add: cons_same_def)
next
  case (Suc n)
  have ne: "cons_e s \<noteq> cons_w s"
  proof
    assume "cons_e s = cons_w s"
    then show False using Suc.prems(3) by (simp add: cons_line_def)
  qed
  obtain t where t: "consputc None (s\<lparr>cons_e := cons_e s - 1\<rparr>) = Done () t" "cons_ok t" "cons_line t = butlast (cons_line s)"
    "cons_ready t = cons_ready s" "cons_same s t"
    using erase_rule [OF Suc.prems(1) ne Suc.prems(2)] by blast
  have "\<exists>u. kill_line n t = Done () u \<and> cons_ok u \<and> cons_line u = [] \<and> cons_ready u = cons_ready t \<and> cons_same t u"
    using t Suc.prems(2,3) by (intro Suc.IH) (simp_all add: cons_same_def)
  then show ?case using t(1,4,5) ne erase_one(3) [OF Suc.prems(1) ne] by (auto simp: cons_same_def)
qed

lemma ring_full_iff: "unat (w - r :: u32) = 128 \<longleftrightarrow> w = r + of_nat INPUT_BUF"
proof
  assume "unat (w - r) = 128"
  moreover have "w - r = of_nat (unat (w - r))" by simp
  ultimately have "w - r = of_nat 128" by metis
  then show "w = r + of_nat INPUT_BUF" by (simp add: algebra_simps)
qed simp

text \<open>A byte that is added to the line, and possibly handed over with it.\<close>

lemma add_byte:
  assumes "cons_ok s" and "unat (cons_e s - cons_r s) < INPUT_BUF"
    and t_def: "t = s\<lparr>cons_buf := (cons_buf s)[unat (cons_e s) mod INPUT_BUF := c], cons_e := cons_e s + 1\<rparr>"
  shows "cons_ready t = cons_ready s" "cons_line t = cons_line s @ [c]" "length (cons_buf t) = INPUT_BUF"
    "unat (cons_e t - cons_r t) = length (cons_ready s) + length (cons_line s @ [c])"
    "ring INPUT_BUF (cons_buf t) (cons_r t) (cons_e t) = cons_ready s @ cons_line s @ [c]"
proof -
  have len: "length (cons_buf s) = 128" and sum: "unat (cons_e s - cons_r s) = unat (cons_w s - cons_r s) + unat (cons_e s - cons_w s)"
    using assms(1) by (simp_all add: cons_ok_def cons_ready_def cons_line_def)
  have 1: "unat (cons_e s + 1 - cons_r s) = Suc (unat (cons_e s - cons_r s))" using assms(2) by (intro unat_Suc_diff [of _ _ 128]) simp_all
  have 2: "unat (cons_e s + 1 - cons_w s) = Suc (unat (cons_e s - cons_w s))" using assms(2) sum by (intro unat_Suc_diff [of _ _ 128]) simp_all
  have p: "ring 128 (cons_buf t) (cons_r t) (cons_e t) = ring 128 (cons_buf s) (cons_r s) (cons_e s) @ [c]"
    using assms(2) len ring_put [of 128 "cons_buf s" "cons_e s" "cons_r s" c] by (simp add: t_def)
  moreover have q: "ring 128 (cons_buf s) (cons_r s) (cons_e s) = cons_ready s @ cons_line s"
    unfolding cons_ready_def cons_line_def using ring_append [OF _ sum, of 128 "cons_buf s"] by simp
  moreover have "ring 128 (cons_buf t) (cons_r t) (cons_e t) = cons_ready t @ cons_line t"
    unfolding cons_ready_def cons_line_def using ring_append [of 128 "cons_e t" "cons_r t" "cons_w t" "cons_buf t"] 1 2 sum by (simp add: t_def)
  ultimately have e: "cons_ready t @ cons_line t = cons_ready s @ cons_line s @ [c]" by simp
  have "length (cons_ready t) = length (cons_ready s)" by (simp add: cons_ready_def t_def)
  then show "cons_ready t = cons_ready s" "cons_line t = cons_line s @ [c]" using e by simp_all
  show "length (cons_buf t) = INPUT_BUF" using len by (simp add: t_def)
  show "unat (cons_e t - cons_r t) = length (cons_ready s) + length (cons_line s @ [c])"
    using 1 sum by (simp add: t_def cons_ready_def cons_line_def)
  show "ring INPUT_BUF (cons_buf t) (cons_r t) (cons_e t) = cons_ready s @ cons_line s @ [c]" using p q by simp
qed

lemma typed_rule:
  assumes "cons_ok s" and "\<not> panicked s" and "unat (cons_e s - cons_r s) < INPUT_BUF" and "length (procs s) = NPROC" and "\<forall>j. L_proc j \<notin> held s"
  shows "returns (andthen (consputc (Some c) s) (\<lambda>_ s.
           let s = s\<lparr>cons_buf := (cons_buf s)[unat (cons_e s) mod INPUT_BUF := c], cons_e := cons_e s + 1\<rparr> in
           if c = 10 \<or> c = 4 \<or> cons_e s = cons_r s + of_nat INPUT_BUF then wakeup Ch_cons (s\<lparr>cons_w := cons_e s\<rparr>) else Done () s))
     (\<lambda>_ t. cons_ok t \<and> cons_same s t \<and> (cons_ready t, cons_line t) =
       (if c = 10 \<or> c = 4 \<or> length (cons_ready s) + length (cons_line s @ [c]) = INPUT_BUF then (cons_ready s @ cons_line s @ [c], [])
        else (cons_ready s, cons_line s @ [c])))"
proof -
  obtain k ys where e: "consputc (Some c) s = Done () (s\<lparr>tx_room := k, tx_out := tx_out s @ ys\<rparr>)"
    using consputc_Done [OF assms(2)] by blast
  let ?s = "s\<lparr>tx_room := k, tx_out := tx_out s @ ys\<rparr>"
  let ?t = "?s\<lparr>cons_buf := (cons_buf ?s)[unat (cons_e ?s) mod INPUT_BUF := c], cons_e := cons_e ?s + 1\<rparr>"
  have a: "cons_ready ?t = cons_ready s" "cons_line ?t = cons_line s @ [c]" "length (cons_buf ?t) = INPUT_BUF"
    "unat (cons_e ?t - cons_r ?t) = length (cons_ready s) + length (cons_line s @ [c])"
    "ring INPUT_BUF (cons_buf ?t) (cons_r ?t) (cons_e ?t) = cons_ready s @ cons_line s @ [c]"
    using add_byte [of ?s ?t c] assms(1,3) by simp_all
  have full: "cons_e ?t = cons_r ?t + of_nat INPUT_BUF \<longleftrightarrow> length (cons_ready s) + length (cons_line s @ [c]) = INPUT_BUF"
    using a(4) ring_full_iff [of "cons_e ?t" "cons_r ?t"] by auto
  have le: "length (cons_ready s) + length (cons_line s @ [c]) \<le> INPUT_BUF"
    using assms(1,3) by (simp add: cons_ok_def)
  show ?thesis
  proof (cases "c = 10 \<or> c = 4 \<or> length (cons_ready s) + length (cons_line s @ [c]) = INPUT_BUF")
    case True
    let ?u = "?t\<lparr>cons_w := cons_e ?t, procs := map (awaken Ch_cons) (procs ?t)\<rparr>"
    have "wakeup Ch_cons (?t\<lparr>cons_w := cons_e ?t\<rparr>) = Done () ?u" using assms(4,5) by (subst wakeup_Done) simp_all
    moreover have "cons_ready ?u = cons_ready s @ cons_line s @ [c]" "cons_line ?u = []" using a(5) by (simp_all add: cons_ready_def cons_line_def)
    moreover from this have "cons_ok ?u" using a(3,4) le by (simp add: cons_ok_def)
    ultimately show ?thesis using True full by (simp add: e Let_def cons_same_def)
  next
    case False
    have "cons_ok ?t" unfolding cons_ok_def using a le assms(1) False by (auto simp: cons_ok_def)
    then show ?thesis using False full a(1,2) by (simp add: e Let_def cons_same_def)
  qed
qed

lemma consoleintr_body_rule:
  assumes "cons_ok s" and "\<not> panicked s" and "c \<noteq> 16" and "length (procs s) = NPROC" and "\<forall>j. L_proc j \<notin> held s"
  shows "returns (consoleintr_body c s) (\<lambda>_ t. cons_ok t \<and> cons_same s t \<and> (cons_ready t, cons_line t) = line_edit c (cons_ready s, cons_line s))"
proof -
  have len: "unat (cons_e s - cons_w s) = length (cons_line s)" by (simp add: cons_line_def)
  have sum: "unat (cons_e s - cons_r s) = length (cons_ready s) + length (cons_line s)" using assms(1) by (simp add: cons_ok_def)
  consider "c = 21" | "c = 8 \<or> c = 127" | "c \<noteq> 21" "c \<noteq> 8" "c \<noteq> 127" by blast
  then show ?thesis
  proof cases
    case 1
    then show ?thesis using kill_line_rule [OF assms(1,2) len] by (auto simp: consoleintr_body_def line_edit_def)
  next
    case 2
    show ?thesis
    proof (cases "cons_e s = cons_w s")
      case True
      then have "cons_line s = []" by (simp add: cons_line_def)
      then show ?thesis using 2 True assms(1) by (auto simp: consoleintr_body_def line_edit_def cons_same_def)
    next
      case False
      then show ?thesis using 2 erase_rule [OF assms(1) False assms(2)] by (auto simp: consoleintr_body_def line_edit_def)
    qed
  next
    case 3
    show ?thesis
    proof (cases "c \<noteq> 0 \<and> unat (cons_e s - cons_r s) < INPUT_BUF")
      case True
      let ?c = "if c = 13 then 10 else c"
      have lt: "cons_e s - cons_r s < of_nat INPUT_BUF" using True by (simp add: word_less_nat_alt)
      have e: "line_edit c (cons_ready s, cons_line s) =
        (if ?c = 10 \<or> ?c = 4 \<or> length (cons_ready s) + length (cons_line s @ [?c]) = INPUT_BUF then (cons_ready s @ cons_line s @ [?c], [])
        else (cons_ready s, cons_line s @ [?c]))"
        using 3 True sum by (simp add: line_edit_def Let_def)
      have "\<not> (c = 16)" "\<not> (c = 21)" "\<not> (c = 8 \<or> c = 127)" using 3 assms(3) by auto
      then show ?thesis unfolding e
        using typed_rule [OF assms(1,2) _ assms(4,5), of ?c] True lt
        by (simp only: consoleintr_body_def if_False if_True Let_def simp_thms)
    next
      case False
      then have "\<not> (c \<noteq> 0 \<and> cons_e s - cons_r s < of_nat INPUT_BUF)" by (simp add: word_less_nat_alt)
      then show ?thesis using 3 assms(1,3) False sum by (auto simp: consoleintr_body_def line_edit_def cons_same_def)
    qed
  qed
qed

text \<open>C11: the console implements a line editor. On every typed byte \<open>consoleintr\<close> returns, and the bytes ready to be
  read and the line being edited, held in a ring with three indices that wrap around, change as
  \<open>line_edit\<close> says: erase, kill, and a line that is complete or fills the buffer is handed over.\<close>

theorem console_line_editor:
  assumes "cons_ok s" and "calm s" and "\<not> panicked s" and "c \<noteq> 16"
  shows "returns (consoleintr c s) (\<lambda>_ t. cons_ok t \<and> calm t \<and> (cons_ready t, cons_line t) = line_edit c (cons_ready s, cons_line s))"
proof -
  have "returns (consoleintr_body c (s\<lparr>held := {L_cons}\<rparr>)) (\<lambda>_ t. cons_ok t \<and> cons_same (s\<lparr>held := {L_cons}\<rparr>) t
     \<and> (cons_ready t, cons_line t) = line_edit c (cons_ready s, cons_line s))"
    using consoleintr_body_rule [of "s\<lparr>held := {L_cons}\<rparr>" c] assms by (simp add: calm_def)
  then show ?thesis using assms(2) by (elim returnsE) (auto simp: consoleintr_def calm_def cons_same_def)
qed

theorem console_line_editor_witness:
  "returns (consoleintr 104 example_cons) (\<lambda>_ t. cons_ready t = [] \<and> cons_line t = [104])
   \<and> returns (consoleintr 13 example_cons) (\<lambda>_ t. cons_ready t = [10] \<and> cons_line t = [])"
proof -
  have "cons_ok example_cons" "calm example_cons" by (simp_all add: cons_ok_def cons_ready_def cons_line_def calm_def)
  then show ?thesis
    using console_line_editor [of example_cons 104] console_line_editor [of example_cons 13]
    by (auto simp: line_edit_def cons_ready_def cons_line_def elim!: returns_mono)
qed

end
