(* ===== verification/Bio.thy ===== *)
theory Bio
  imports Sleeplock
begin

text \<open>
  The buffer cache, \<open>kernel/bio.c\<close> and \<open>kernel/buf.h\<close>: \<open>NBUF\<close> buffers on a circular doubly linked list
  in order of use. A buffer is named by its index; the list head has index \<open>NBUF\<close>. The disk is
  its contents by block number; \<open>disk_rw\<close> is what the driver (theory \<open>Virtio_Disk\<close>) does for the
  cache. The history of writes is kept as well, for statements about crashes.
\<close>

definition BSIZE :: nat where [simp]: "BSIZE = 1024"

record buf =
  valid :: bool
  bdisk :: bool
  bdev :: u32
  blockno :: u32
  refcnt :: u32
  prev :: nat
  nxt :: nat
  bdata :: "u8 list"

text \<open>\<open>bufs\<close> holds the \<open>NBUF\<close> buffers and, at index \<open>NBUF\<close>, the list head. \<open>disk\<close> is the contents of the
  device by block number, \<open>disk_writes\<close> the blocks written to it so far, in order.\<close>

record bio_state = sl_state +
  bufs :: "buf list"
  disk :: "u32 \<Rightarrow> u8 list"
  disk_writes :: "(u32 \<times> u8 list) list"

abbreviation buf_at :: "'a bio_state_scheme \<Rightarrow> nat \<Rightarrow> buf" where
  "buf_at s b \<equiv> bufs s ! b"

definition upd_buf :: "nat \<Rightarrow> (buf \<Rightarrow> buf) \<Rightarrow> 'a bio_state_scheme \<Rightarrow> 'a bio_state_scheme" where
  "upd_buf b f s = s\<lparr>bufs := (bufs s)[b := f (bufs s ! b)]\<rparr>"

text \<open>Putting \<open>b\<close> at the front of the list, and taking it out of the list.\<close>

definition link_front :: "nat \<Rightarrow> 'a bio_state_scheme \<Rightarrow> 'a bio_state_scheme" where
  "link_front b s =
     (let s = upd_buf b (\<lambda>x. x\<lparr>nxt := nxt (buf_at s NBUF)\<rparr>) s;
          s = upd_buf b (\<lambda>x. x\<lparr>prev := NBUF\<rparr>) s;
          s = upd_buf (nxt (buf_at s NBUF)) (\<lambda>x. x\<lparr>prev := b\<rparr>) s
      in upd_buf NBUF (\<lambda>x. x\<lparr>nxt := b\<rparr>) s)"

definition unlink_buf :: "nat \<Rightarrow> 'a bio_state_scheme \<Rightarrow> 'a bio_state_scheme" where
  "unlink_buf b s =
     (let s = upd_buf (nxt (buf_at s b)) (\<lambda>x. x\<lparr>prev := prev (buf_at s b)\<rparr>) s
      in upd_buf (prev (buf_at s b)) (\<lambda>x. x\<lparr>nxt := nxt (buf_at s b)\<rparr>) s)"

fun binit_loop :: "nat \<Rightarrow> nat \<Rightarrow> 'a bio_state_scheme \<Rightarrow> 'a bio_state_scheme" where
  "binit_loop b 0 s = s"
| "binit_loop b (Suc k) s = binit_loop (Suc b) k (link_front b (initsleeplock (SL_buf b) s))"

definition binit :: "'a bio_state_scheme \<Rightarrow> 'a bio_state_scheme" where
  "binit s =
     (let s = s\<lparr>held := held s - {L_bcache}\<rparr>;
          s = upd_buf NBUF (\<lambda>x. x\<lparr>prev := NBUF, nxt := NBUF\<rparr>) s
      in binit_loop 0 NBUF s)"

text \<open>
  The two searches of \<open>bget\<close>: along \<open>next\<close> for the block, along \<open>prev\<close> for an unused buffer. The first
  argument bounds the steps; the list has \<open>NBUF\<close> buffers, so \<open>NBUF + 1\<close> is enough, and running out
  (\<open>None\<close>) means that the links never lead back to the head.
\<close>

fun scan_next :: "nat \<Rightarrow> buf list \<Rightarrow> nat \<Rightarrow> (buf \<Rightarrow> bool) \<Rightarrow> nat option option" where
  "scan_next 0 bs b P = None"
| "scan_next (Suc n) bs b P =
     (if b = NBUF then Some None
      else if P (bs ! b) then Some (Some b) else scan_next n bs (nxt (bs ! b)) P)"

fun scan_prev :: "nat \<Rightarrow> buf list \<Rightarrow> nat \<Rightarrow> (buf \<Rightarrow> bool) \<Rightarrow> nat option option" where
  "scan_prev 0 bs b P = None"
| "scan_prev (Suc n) bs b P =
     (if b = NBUF then Some None
      else if P (bs ! b) then Some (Some b) else scan_prev n bs (prev (bs ! b)) P)"

definition bget :: "u32 \<Rightarrow> u32 \<Rightarrow> 'a bio_state_scheme \<Rightarrow> (nat, 'a bio_state_scheme) res" where
  "bget dev bno s =
     andthen (acquire L_bcache s) (\<lambda>_ s.
     case scan_next (NBUF + 1) (bufs s) (nxt (buf_at s NBUF)) (\<lambda>b. bdev b = dev \<and> blockno b = bno) of
       None \<Rightarrow> Hang
     | Some (Some b) \<Rightarrow>
         andthen (release L_bcache (upd_buf b (\<lambda>x. x\<lparr>refcnt := refcnt x + 1\<rparr>) s)) (\<lambda>_ s.
         andthen (acquiresleep (SL_buf b) s) (\<lambda>_ s. Done b s))
     | Some None \<Rightarrow>
         (case scan_prev (NBUF + 1) (bufs s) (prev (buf_at s NBUF)) (\<lambda>b. refcnt b = 0) of
            None \<Rightarrow> Hang
          | Some None \<Rightarrow> Panic ''bget: no buffers''
          | Some (Some b) \<Rightarrow>
              andthen (release L_bcache
                (upd_buf b (\<lambda>x. x\<lparr>bdev := dev, blockno := bno, valid := False, refcnt := 1\<rparr>) s)) (\<lambda>_ s.
              andthen (acquiresleep (SL_buf b) s) (\<lambda>_ s. Done b s))))"

text \<open>
  What \<open>virtio_disk_rw\<close> does for its caller: it returns when the device has transferred the block.
\<close>

definition disk_rw :: "nat \<Rightarrow> bool \<Rightarrow> 'a bio_state_scheme \<Rightarrow> (unit, 'a bio_state_scheme) res" where
  "disk_rw b write s =
     (let n = blockno (buf_at s b)
      in if write
         then Done () (s\<lparr>disk := (disk s)(n := bdata (buf_at s b)),
                         disk_writes := disk_writes s @ [(n, bdata (buf_at s b))]\<rparr>)
         else Done () (upd_buf b (\<lambda>x. x\<lparr>bdata := disk s n\<rparr>) s))"

definition bread :: "u32 \<Rightarrow> u32 \<Rightarrow> 'a bio_state_scheme \<Rightarrow> (nat, 'a bio_state_scheme) res" where
  "bread dev bno s =
     andthen (bget dev bno s) (\<lambda>b s.
       if \<not> valid (buf_at s b)
       then andthen (disk_rw b False s) (\<lambda>_ s. Done b (upd_buf b (\<lambda>x. x\<lparr>valid := True\<rparr>) s))
       else Done b s)"

definition bwrite :: "nat \<Rightarrow> 'a bio_state_scheme \<Rightarrow> (unit, 'a bio_state_scheme) res" where
  "bwrite b s =
     andthen (holdingsleep (SL_buf b) s) (\<lambda>h s.
       if \<not> h then Panic ''bwrite'' else disk_rw b True s)"

definition brelse :: "nat \<Rightarrow> 'a bio_state_scheme \<Rightarrow> (unit, 'a bio_state_scheme) res" where
  "brelse b s =
     andthen (holdingsleep (SL_buf b) s) (\<lambda>h s.
       if \<not> h then Panic ''brelse''
       else andthen (releasesleep (SL_buf b) s) (\<lambda>_ s.
            andthen (acquire L_bcache s) (\<lambda>_ s.
            let s = upd_buf b (\<lambda>x. x\<lparr>refcnt := refcnt x - 1\<rparr>) s;
                s = (if refcnt (buf_at s b) = 0 then link_front b (unlink_buf b s) else s)
            in release L_bcache s)))"

definition bpin :: "nat \<Rightarrow> 'a bio_state_scheme \<Rightarrow> (unit, 'a bio_state_scheme) res" where
  "bpin b s = andthen (acquire L_bcache s) (\<lambda>_ s.
     release L_bcache (upd_buf b (\<lambda>x. x\<lparr>refcnt := refcnt x + 1\<rparr>) s))"

definition bunpin :: "nat \<Rightarrow> 'a bio_state_scheme \<Rightarrow> (unit, 'a bio_state_scheme) res" where
  "bunpin b s = andthen (acquire L_bcache s) (\<lambda>_ s.
     release L_bcache (upd_buf b (\<lambda>x. x\<lparr>refcnt := refcnt x - 1\<rparr>) s))"

end
