(* ===== verification/Virtio_Disk.thy ===== *)
theory Virtio_Disk
  imports Bio
begin

text \<open>
  The disk driver, \<open>kernel/virtio_disk.c\<close> and \<open>kernel/virtio.h\<close>: the descriptor table and the two rings
  shared with the device, the request a transfer makes of them, and the completion interrupt.
\<close>

definition NUM :: nat where [simp]: "NUM = 8"

definition VRING_DESC_F_NEXT :: u16 where "VRING_DESC_F_NEXT = 1"

definition VRING_DESC_F_WRITE :: u16 where "VRING_DESC_F_WRITE = 2"

definition VIRTIO_BLK_T_IN :: u32 where "VIRTIO_BLK_T_IN = 0"

definition VIRTIO_BLK_T_OUT :: u32 where "VIRTIO_BLK_T_OUT = 1"

text \<open>The objects a descriptor points to: a command header, the data of a buffer, a status byte.\<close>

datatype dptr = D_null | D_op nat | D_data nat | D_status nat

record virtq_desc =
  d_addr :: dptr
  d_len :: u32
  d_flags :: u16
  d_next :: u16

record virtio_blk_req =
  rq_type :: u32
  rq_reserved :: u32
  rq_sector :: u64

text \<open>\<open>struct disk\<close>; \<open>avail_idx\<close>, \<open>avail_ring\<close>, \<open>uring_idx\<close> and \<open>uring_id\<close> are the two rings shared with the device.\<close>

record vdisk =
  desc :: "virtq_desc list"
  avail_idx :: u16
  avail_ring :: "u16 list"
  uring_idx :: u16
  uring_id :: "u32 list"
  dfree :: "bool list"
  used_idx :: u16
  info_b :: "nat option list"
  info_status :: "u8 list"
  ops :: "virtio_blk_req list"

text \<open>\<open>vmmio\<close> has the values the device registers read as, \<open>vmmio_out\<close> the writes to them, in order.\<close>

record vdisk_state = bio_state +
  vdisk :: vdisk
  vmmio :: "u64 \<Rightarrow> u32"
  vmmio_out :: "(u64 \<times> u32) list"

definition upd_vdisk :: "(vdisk \<Rightarrow> vdisk) \<Rightarrow> 'a vdisk_state_scheme \<Rightarrow> 'a vdisk_state_scheme" where
  "upd_vdisk f s = s\<lparr>vdisk := f (vdisk s)\<rparr>"

definition upd_desc :: "nat \<Rightarrow> (virtq_desc \<Rightarrow> virtq_desc) \<Rightarrow> vdisk \<Rightarrow> vdisk" where
  "upd_desc i f d = d\<lparr>desc := (desc d)[i := f (desc d ! i)]\<rparr>"

definition vmmio_write :: "u64 \<Rightarrow> u32 \<Rightarrow> 'a vdisk_state_scheme \<Rightarrow> 'a vdisk_state_scheme" where
  "vmmio_write r v s = s\<lparr>vmmio_out := vmmio_out s @ [(r, v)]\<rparr>"

definition VIRTIO_MMIO_MAGIC_VALUE :: u64 where "VIRTIO_MMIO_MAGIC_VALUE = 0x000"

definition VIRTIO_MMIO_VERSION :: u64 where "VIRTIO_MMIO_VERSION = 0x004"
definition VIRTIO_MMIO_DEVICE_ID :: u64 where "VIRTIO_MMIO_DEVICE_ID = 0x008"

definition VIRTIO_MMIO_VENDOR_ID :: u64 where "VIRTIO_MMIO_VENDOR_ID = 0x00c"
definition VIRTIO_MMIO_DEVICE_FEATURES :: u64 where "VIRTIO_MMIO_DEVICE_FEATURES = 0x010"

definition VIRTIO_MMIO_DRIVER_FEATURES :: u64 where "VIRTIO_MMIO_DRIVER_FEATURES = 0x020"
definition VIRTIO_MMIO_GUEST_PAGE_SIZE :: u64 where "VIRTIO_MMIO_GUEST_PAGE_SIZE = 0x028"

definition VIRTIO_MMIO_QUEUE_SEL :: u64 where "VIRTIO_MMIO_QUEUE_SEL = 0x030"
definition VIRTIO_MMIO_QUEUE_NUM_MAX :: u64 where "VIRTIO_MMIO_QUEUE_NUM_MAX = 0x034"

definition VIRTIO_MMIO_QUEUE_NUM :: u64 where "VIRTIO_MMIO_QUEUE_NUM = 0x038"
definition VIRTIO_MMIO_QUEUE_PFN :: u64 where "VIRTIO_MMIO_QUEUE_PFN = 0x040"

definition VIRTIO_MMIO_QUEUE_NOTIFY :: u64 where "VIRTIO_MMIO_QUEUE_NOTIFY = 0x050"
definition VIRTIO_MMIO_INTERRUPT_STATUS :: u64 where "VIRTIO_MMIO_INTERRUPT_STATUS = 0x060"

definition VIRTIO_MMIO_INTERRUPT_ACK :: u64 where "VIRTIO_MMIO_INTERRUPT_ACK = 0x064"
definition VIRTIO_MMIO_STATUS :: u64 where "VIRTIO_MMIO_STATUS = 0x070"

definition VIRTIO_CONFIG_S_ACKNOWLEDGE :: u32 where "VIRTIO_CONFIG_S_ACKNOWLEDGE = 1"

definition VIRTIO_CONFIG_S_DRIVER :: u32 where "VIRTIO_CONFIG_S_DRIVER = 2"
definition VIRTIO_CONFIG_S_DRIVER_OK :: u32 where "VIRTIO_CONFIG_S_DRIVER_OK = 4"

definition VIRTIO_CONFIG_S_FEATURES_OK :: u32 where "VIRTIO_CONFIG_S_FEATURES_OK = 8"

definition VIRTIO_BLK_F_RO :: nat where "VIRTIO_BLK_F_RO = 5"

definition VIRTIO_BLK_F_SCSI :: nat where "VIRTIO_BLK_F_SCSI = 7"
definition VIRTIO_BLK_F_CONFIG_WCE :: nat where "VIRTIO_BLK_F_CONFIG_WCE = 11"

definition VIRTIO_BLK_F_MQ :: nat where "VIRTIO_BLK_F_MQ = 12"
definition VIRTIO_F_ANY_LAYOUT :: nat where "VIRTIO_F_ANY_LAYOUT = 27"

definition VIRTIO_RING_F_INDIRECT_DESC :: nat where "VIRTIO_RING_F_INDIRECT_DESC = 28"
definition VIRTIO_RING_F_EVENT_IDX :: nat where "VIRTIO_RING_F_EVENT_IDX = 29"

definition null_desc :: virtq_desc where
  "null_desc = \<lparr>d_addr = D_null, d_len = 0, d_flags = 0, d_next = 0\<rparr>"

definition clear_feature :: "nat \<Rightarrow> u64 \<Rightarrow> u64" where
  "clear_feature n f = f AND NOT (push_bit n 1)"

text \<open>\<open>pages\<close> is the physical address of \<open>disk.pages\<close>, whose frame number the device is given.\<close>

definition virtio_disk_init :: "u64 \<Rightarrow> 'a vdisk_state_scheme \<Rightarrow> (unit, 'a vdisk_state_scheme) res" where
  "virtio_disk_init pages s =
     (let s = s\<lparr>held := held s - {L_vdisk}\<rparr>; R = vmmio s in
      if R VIRTIO_MMIO_MAGIC_VALUE \<noteq> 0x74726976 \<or> R VIRTIO_MMIO_VERSION \<noteq> 1
         \<or> R VIRTIO_MMIO_DEVICE_ID \<noteq> 2 \<or> R VIRTIO_MMIO_VENDOR_ID \<noteq> 0x554d4551
      then Panic ''could not find virtio disk''
      else
        let status = VIRTIO_CONFIG_S_ACKNOWLEDGE;
            s = vmmio_write VIRTIO_MMIO_STATUS status s;
            status = status OR VIRTIO_CONFIG_S_DRIVER;
            s = vmmio_write VIRTIO_MMIO_STATUS status s;
            features = (ucast (R VIRTIO_MMIO_DEVICE_FEATURES) :: u64);
            features = fold clear_feature [VIRTIO_BLK_F_RO, VIRTIO_BLK_F_SCSI, VIRTIO_BLK_F_CONFIG_WCE,
              VIRTIO_BLK_F_MQ, VIRTIO_F_ANY_LAYOUT, VIRTIO_RING_F_EVENT_IDX, VIRTIO_RING_F_INDIRECT_DESC] features;
            s = vmmio_write VIRTIO_MMIO_DRIVER_FEATURES (ucast features) s;
            status = status OR VIRTIO_CONFIG_S_FEATURES_OK;
            s = vmmio_write VIRTIO_MMIO_STATUS status s;
            status = status OR VIRTIO_CONFIG_S_DRIVER_OK;
            s = vmmio_write VIRTIO_MMIO_STATUS status s;
            s = vmmio_write VIRTIO_MMIO_GUEST_PAGE_SIZE (ucast PGSIZE) s;
            s = vmmio_write VIRTIO_MMIO_QUEUE_SEL 0 s;
            mx = R VIRTIO_MMIO_QUEUE_NUM_MAX
        in if mx = 0 then Panic ''virtio disk has no queue 0''
           else if mx < of_nat NUM then Panic ''virtio disk max queue too short''
           else
             let s = vmmio_write VIRTIO_MMIO_QUEUE_NUM (of_nat NUM) s;
                 s = upd_vdisk (\<lambda>d. d\<lparr>desc := replicate NUM null_desc, avail_idx := 0, avail_ring := replicate NUM 0,
                       uring_idx := 0, uring_id := replicate NUM 0\<rparr>) s;
                 s = vmmio_write VIRTIO_MMIO_QUEUE_PFN (ucast (drop_bit PGSHIFT pages)) s
             in Done () (upd_vdisk (\<lambda>d. d\<lparr>dfree := replicate NUM True\<rparr>) s))"

fun alloc_desc_loop :: "bool list \<Rightarrow> nat \<Rightarrow> nat \<Rightarrow> nat option" where
  "alloc_desc_loop fr i 0 = None"
| "alloc_desc_loop fr i (Suc k) = (if fr ! i then Some i else alloc_desc_loop fr (Suc i) k)"

definition alloc_desc :: "vdisk \<Rightarrow> nat option \<times> vdisk" where
  "alloc_desc d =
     (case alloc_desc_loop (dfree d) 0 NUM of
        None \<Rightarrow> (None, d) | Some i \<Rightarrow> (Some i, d\<lparr>dfree := (dfree d)[i := False]\<rparr>))"

definition free_desc :: "nat \<Rightarrow> 'a vdisk_state_scheme \<Rightarrow> (unit, 'a vdisk_state_scheme) res" where
  "free_desc i s =
     (if i \<ge> NUM then Panic ''free_desc 1''
      else if dfree (vdisk s) ! i then Panic ''free_desc 2''
      else wakeup Ch_vdisk_free
        (upd_vdisk (\<lambda>d. (upd_desc i (\<lambda>_. null_desc) d)\<lparr>dfree := (dfree d)[i := True]\<rparr>) s))"

text \<open>Each turn of \<open>free_chain\<close> frees a descriptor that was in use, so \<open>NUM + 1\<close> turns are enough.\<close>

fun free_chain_loop :: "nat \<Rightarrow> nat \<Rightarrow> 'a vdisk_state_scheme \<Rightarrow> (unit, 'a vdisk_state_scheme) res" where
  "free_chain_loop 0 i s = Hang"
| "free_chain_loop (Suc n) i s =
     (let flag = d_flags (desc (vdisk s) ! i);
          nx = unat (d_next (desc (vdisk s) ! i))
      in andthen (free_desc i s) (\<lambda>_ s.
         if flag AND VRING_DESC_F_NEXT \<noteq> 0 then free_chain_loop n nx s else Done () s))"

definition free_chain :: "nat \<Rightarrow> 'a vdisk_state_scheme \<Rightarrow> (unit, 'a vdisk_state_scheme) res" where
  "free_chain i s = free_chain_loop (NUM + 1) i s"

fun free_descs :: "nat list \<Rightarrow> 'a vdisk_state_scheme \<Rightarrow> (unit, 'a vdisk_state_scheme) res" where
  "free_descs [] s = Done () s"
| "free_descs (i # is) s = andthen (free_desc i s) (\<lambda>_ s. free_descs is s)"

fun alloc3_desc_loop :: "nat \<Rightarrow> nat list \<Rightarrow> 'a vdisk_state_scheme \<Rightarrow> (nat list option, 'a vdisk_state_scheme) res" where
  "alloc3_desc_loop 0 idx s = Done (Some idx) s"
| "alloc3_desc_loop (Suc k) idx s =
     (case alloc_desc (vdisk s) of
        (None, _) \<Rightarrow> andthen (free_descs idx s) (\<lambda>_ s. Done None s)
      | (Some i, d) \<Rightarrow> alloc3_desc_loop k (idx @ [i]) (s\<lparr>vdisk := d\<rparr>))"

definition alloc3_desc :: "'a vdisk_state_scheme \<Rightarrow> (nat list option, 'a vdisk_state_scheme) res" where
  "alloc3_desc s = alloc3_desc_loop 3 [] s"

text \<open>The three descriptors of a request.\<close>

definition format_request :: "nat \<Rightarrow> nat \<Rightarrow> nat \<Rightarrow> nat \<Rightarrow> bool \<Rightarrow> u64 \<Rightarrow> vdisk \<Rightarrow> vdisk" where
  "format_request i0 i1 i2 b write sector d =
     (let d = d\<lparr>ops := (ops d)[i0 := \<lparr>rq_type = (if write then VIRTIO_BLK_T_OUT else VIRTIO_BLK_T_IN),
                  rq_reserved = 0, rq_sector = sector\<rparr>]\<rparr>;
          d = upd_desc i0 (\<lambda>_. \<lparr>d_addr = D_op i0, d_len = 16, d_flags = VRING_DESC_F_NEXT, d_next = of_nat i1\<rparr>) d;
          d = upd_desc i1 (\<lambda>_. \<lparr>d_addr = D_data b, d_len = of_nat BSIZE,
                 d_flags = (if write then 0 else VRING_DESC_F_WRITE) OR VRING_DESC_F_NEXT, d_next = of_nat i2\<rparr>) d;
          d = d\<lparr>info_status := (info_status d)[i0 := 0xff]\<rparr>
      in upd_desc i2 (\<lambda>_. \<lparr>d_addr = D_status i0, d_len = 1, d_flags = VRING_DESC_F_WRITE, d_next = 0\<rparr>) d)"

text \<open>
  \<open>virtio_disk_rw\<close> in the pieces between its sleeps: up to the notification of the device (or to the
  sleep for descriptors), the waiting loop, and the end. All are entered with \<open>vdisk_lock\<close> held
  but the first.
\<close>

definition disk_rw_finish :: "nat \<Rightarrow> 'a vdisk_state_scheme \<Rightarrow> (unit, 'a vdisk_state_scheme) res" where
  "disk_rw_finish i0 s =
     andthen (free_chain i0 (upd_vdisk (\<lambda>d. d\<lparr>info_b := (info_b d)[i0 := None]\<rparr>) s)) (\<lambda>_ s.
     release L_vdisk s)"

definition disk_rw_wait :: "nat \<Rightarrow> nat \<Rightarrow> 'a vdisk_state_scheme \<Rightarrow> (unit, 'a vdisk_state_scheme) res" where
  "disk_rw_wait b i0 s =
     (if bdisk (buf_at s b) then sleep (Ch_buf b) L_vdisk s else disk_rw_finish i0 s)"

definition disk_rw_submit :: "nat \<Rightarrow> bool \<Rightarrow> 'a vdisk_state_scheme \<Rightarrow> (nat, 'a vdisk_state_scheme) res" where
  "disk_rw_submit b write s =
     (let sector = ucast (blockno (buf_at s b) * of_nat (BSIZE div 512)) in
      andthen (alloc3_desc s) (\<lambda>r s.
      case r of
        Some [i0, i1, i2] \<Rightarrow>
          let s = upd_vdisk (format_request i0 i1 i2 b write sector) s;
              s = upd_buf b (\<lambda>x. x\<lparr>bdisk := True\<rparr>) s;
              s = upd_vdisk (\<lambda>d. d\<lparr>info_b := (info_b d)[i0 := Some b]\<rparr>) s;
              s = upd_vdisk (\<lambda>d. d\<lparr>avail_ring := (avail_ring d)[unat (avail_idx d) mod NUM := of_nat i0]\<rparr>) s;
              s = upd_vdisk (\<lambda>d. d\<lparr>avail_idx := avail_idx d + 1\<rparr>) s
          in Done i0 (vmmio_write VIRTIO_MMIO_QUEUE_NOTIFY 0 s)
      | _ \<Rightarrow> andthen (sleep Ch_vdisk_free L_vdisk s) (\<lambda>_ s. Done 0 s)))"

definition virtio_disk_rw :: "nat \<Rightarrow> bool \<Rightarrow> 'a vdisk_state_scheme \<Rightarrow> (unit, 'a vdisk_state_scheme) res" where
  "virtio_disk_rw b write s =
     andthen (acquire L_vdisk s) (\<lambda>_ s.
     andthen (disk_rw_submit b write s) (\<lambda>i0 s. disk_rw_wait b i0 s))"

definition virtio_disk_rw_retry :: "nat \<Rightarrow> bool \<Rightarrow> 'a vdisk_state_scheme \<Rightarrow> (unit, 'a vdisk_state_scheme) res" where
  "virtio_disk_rw_retry b write s =
     andthen (sleep_return L_vdisk s) (\<lambda>_ s.
     andthen (disk_rw_submit b write s) (\<lambda>i0 s. disk_rw_wait b i0 s))"

definition virtio_disk_rw_resume :: "nat \<Rightarrow> nat \<Rightarrow> 'a vdisk_state_scheme \<Rightarrow> (unit, 'a vdisk_state_scheme) res" where
  "virtio_disk_rw_resume b i0 s =
     andthen (sleep_return L_vdisk s) (\<lambda>_ s. disk_rw_wait b i0 s)"

text \<open>The completion loop of \<open>virtio_disk_intr\<close> passes over \<open>used->idx - used_idx\<close> entries.\<close>

fun disk_intr_loop :: "nat \<Rightarrow> 'a vdisk_state_scheme \<Rightarrow> (unit, 'a vdisk_state_scheme) res" where
  "disk_intr_loop 0 s = Done () s"
| "disk_intr_loop (Suc n) s =
     (if used_idx (vdisk s) = uring_idx (vdisk s) then Done () s
      else let i = unat (uring_id (vdisk s) ! (unat (used_idx (vdisk s)) mod NUM)) in
           if info_status (vdisk s) ! i \<noteq> 0 then Panic ''virtio_disk_intr status''
           else case info_b (vdisk s) ! i of
             None \<Rightarrow> Panic ''kerneltrap''
           | Some b \<Rightarrow>
               andthen (wakeup (Ch_buf b) (upd_buf b (\<lambda>x. x\<lparr>bdisk := False\<rparr>) s)) (\<lambda>_ s.
               disk_intr_loop n (upd_vdisk (\<lambda>d. d\<lparr>used_idx := used_idx d + 1\<rparr>) s)))"

definition virtio_disk_intr :: "'a vdisk_state_scheme \<Rightarrow> (unit, 'a vdisk_state_scheme) res" where
  "virtio_disk_intr s =
     andthen (acquire L_vdisk s) (\<lambda>_ s.
     let s = vmmio_write VIRTIO_MMIO_INTERRUPT_ACK (vmmio s VIRTIO_MMIO_INTERRUPT_STATUS AND 0x3) s in
     andthen (disk_intr_loop (unat (uring_idx (vdisk s) - used_idx (vdisk s))) s) (\<lambda>_ s.
     release L_vdisk s))"

end
