(* ===== verification/Logging.thy ===== *)
theory Logging
  imports Virtio_Disk
begin

text \<open>
  The write-ahead log, \<open>kernel/log.c\<close>: transactions of file system calls, commit, and recovery after
  a crash. The theory also has the accessors for 16- and 32-bit fields of disk blocks.
\<close>

text \<open>32-bit and 16-bit fields of a disk block, little-endian.\<close>

definition get32 :: "u8 list \<Rightarrow> nat \<Rightarrow> u32" where
  "get32 bs off = le_word (bslice bs off 4)"

definition put32 :: "u8 list \<Rightarrow> nat \<Rightarrow> u32 \<Rightarrow> u8 list" where
  "put32 bs off w = bpatch bs off (word_le 4 w)"

definition get16 :: "u8 list \<Rightarrow> nat \<Rightarrow> u16" where
  "get16 bs off = le_word (bslice bs off 2)"

definition put16 :: "u8 list \<Rightarrow> nat \<Rightarrow> u16 \<Rightarrow> u8 list" where
  "put16 bs off w = bpatch bs off (word_le 2 w)"

fun put32s :: "u8 list \<Rightarrow> nat \<Rightarrow> u32 list \<Rightarrow> u8 list" where
  "put32s bs off [] = bs"
| "put32s bs off (w # ws) = put32s (put32 bs off w) (off + 4) ws"

definition get32s :: "u8 list \<Rightarrow> nat \<Rightarrow> nat \<Rightarrow> u32 list" where
  "get32s bs off n = map (\<lambda>i. get32 bs (off + 4 * i)) [0..<n]"

record superblock =
  sb_magic :: u32
  sb_size :: u32
  sb_nblocks :: u32
  sb_ninodes :: u32
  sb_nlog :: u32
  sb_logstart :: u32
  sb_inodestart :: u32
  sb_bmapstart :: u32

text \<open>\<open>struct log\<close>; the \<open>int\<close> fields that hold block numbers are words, compared as the code compares them.\<close>

record xlog =
  lstart :: u32
  lsize :: u32
  outstanding :: int
  committing :: bool
  ldev :: u32
  lh_n :: int
  lh_block :: "u32 list"

record log_state = vdisk_state +
  klog :: xlog

definition upd_log :: "(xlog \<Rightarrow> xlog) \<Rightarrow> 'a log_state_scheme \<Rightarrow> 'a log_state_scheme" where
  "upd_log f s = s\<lparr>klog := f (klog s)\<rparr>"

fun install_trans_loop :: "bool \<Rightarrow> nat \<Rightarrow> nat \<Rightarrow> 'a log_state_scheme \<Rightarrow> (unit, 'a log_state_scheme) res" where
  "install_trans_loop recovering tail 0 s = Done () s"
| "install_trans_loop recovering tail (Suc k) s =
     andthen (bread (ldev (klog s)) (lstart (klog s) + of_nat tail + 1) s) (\<lambda>lbuf s.
     andthen (bread (ldev (klog s)) (lh_block (klog s) ! tail) s) (\<lambda>dbuf s.
     let s = upd_buf dbuf (\<lambda>b. b\<lparr>bdata := bdata (buf_at s lbuf)\<rparr>) s in
     andthen (bwrite dbuf s) (\<lambda>_ s.
     andthen (if \<not> recovering then bunpin dbuf s else Done () s) (\<lambda>_ s.
     andthen (brelse lbuf s) (\<lambda>_ s.
     andthen (brelse dbuf s) (\<lambda>_ s.
     install_trans_loop recovering (Suc tail) k s))))))"

definition install_trans :: "bool \<Rightarrow> 'a log_state_scheme \<Rightarrow> (unit, 'a log_state_scheme) res" where
  "install_trans recovering s = install_trans_loop recovering 0 (nat (lh_n (klog s))) s"

text \<open>A header on disk with more than \<open>LOGSIZE\<close> entries makes \<open>read_head\<close> write past the array.\<close>

definition read_head :: "'a log_state_scheme \<Rightarrow> (unit, 'a log_state_scheme) res" where
  "read_head s =
     andthen (bread (ldev (klog s)) (lstart (klog s)) s) (\<lambda>b s.
       let lh = bdata (buf_at s b);
           n = sint (get32 lh 0)
       in if n > int LOGSIZE then Panic ''undefined: lh.block''
          else brelse b (upd_log (\<lambda>l. l\<lparr>lh_n := n,
                 lh_block := get32s lh 4 (nat n) @ drop (nat n) (lh_block l)\<rparr>) s))"

definition write_head :: "'a log_state_scheme \<Rightarrow> (unit, 'a log_state_scheme) res" where
  "write_head s =
     andthen (bread (ldev (klog s)) (lstart (klog s)) s) (\<lambda>b s.
       let n = lh_n (klog s);
           s = upd_buf b (\<lambda>x. x\<lparr>bdata := put32s (put32 (bdata x) 0 (word_of_int n)) 4
                 (take (nat n) (lh_block (klog s)))\<rparr>) s
       in andthen (bwrite b s) (\<lambda>_ s. brelse b s))"

definition recover_from_log :: "'a log_state_scheme \<Rightarrow> (unit, 'a log_state_scheme) res" where
  "recover_from_log s =
     andthen (read_head s) (\<lambda>_ s.
     andthen (install_trans True s) (\<lambda>_ s.
     write_head (upd_log (\<lambda>l. l\<lparr>lh_n := 0\<rparr>) s)))"

definition initlog :: "u32 \<Rightarrow> superblock \<Rightarrow> 'a log_state_scheme \<Rightarrow> (unit, 'a log_state_scheme) res" where
  "initlog dev sb s =
     (if 4 + 4 * LOGSIZE \<ge> BSIZE then Panic ''initlog: too big logheader''
      else recover_from_log (upd_log (\<lambda>l. l\<lparr>lstart := sb_logstart sb, lsize := sb_nlog sb, ldev := dev\<rparr>)
             (s\<lparr>held := held s - {L_log}\<rparr>)))"

text \<open>The loop of \<open>begin_op\<close>, entered with \<open>log.lock\<close> held.\<close>

definition begin_op_loop :: "'a log_state_scheme \<Rightarrow> (unit, 'a log_state_scheme) res" where
  "begin_op_loop s =
     (if committing (klog s) then sleep Ch_log L_log s
      else if lh_n (klog s) + (outstanding (klog s) + 1) * int MAXOPBLOCKS > int LOGSIZE then sleep Ch_log L_log s
      else release L_log (upd_log (\<lambda>l. l\<lparr>outstanding := outstanding l + 1\<rparr>) s))"

definition begin_op :: "'a log_state_scheme \<Rightarrow> (unit, 'a log_state_scheme) res" where
  "begin_op s = andthen (acquire L_log s) (\<lambda>_ s. begin_op_loop s)"

definition begin_op_resume :: "'a log_state_scheme \<Rightarrow> (unit, 'a log_state_scheme) res" where
  "begin_op_resume s = andthen (sleep_return L_log s) (\<lambda>_ s. begin_op_loop s)"

fun write_log_loop :: "nat \<Rightarrow> nat \<Rightarrow> 'a log_state_scheme \<Rightarrow> (unit, 'a log_state_scheme) res" where
  "write_log_loop tail 0 s = Done () s"
| "write_log_loop tail (Suc k) s =
     andthen (bread (ldev (klog s)) (lstart (klog s) + of_nat tail + 1) s) (\<lambda>to s.
     andthen (bread (ldev (klog s)) (lh_block (klog s) ! tail) s) (\<lambda>from s.
     let s = upd_buf to (\<lambda>b. b\<lparr>bdata := bdata (buf_at s from)\<rparr>) s in
     andthen (bwrite to s) (\<lambda>_ s.
     andthen (brelse from s) (\<lambda>_ s.
     andthen (brelse to s) (\<lambda>_ s.
     write_log_loop (Suc tail) k s)))))"

definition write_log :: "'a log_state_scheme \<Rightarrow> (unit, 'a log_state_scheme) res" where
  "write_log s = write_log_loop 0 (nat (lh_n (klog s))) s"

definition commit :: "'a log_state_scheme \<Rightarrow> (unit, 'a log_state_scheme) res" where
  "commit s =
     (if lh_n (klog s) > 0
      then andthen (write_log s) (\<lambda>_ s.
           andthen (write_head s) (\<lambda>_ s.
           andthen (install_trans False s) (\<lambda>_ s.
           write_head (upd_log (\<lambda>l. l\<lparr>lh_n := 0\<rparr>) s))))
      else Done () s)"

definition end_op :: "'a log_state_scheme \<Rightarrow> (unit, 'a log_state_scheme) res" where
  "end_op s =
     andthen (acquire L_log s) (\<lambda>_ s.
     let s = upd_log (\<lambda>l. l\<lparr>outstanding := outstanding l - 1\<rparr>) s in
     if committing (klog s) then Panic ''log.committing''
     else if outstanding (klog s) = 0
     then andthen (release L_log (upd_log (\<lambda>l. l\<lparr>committing := True\<rparr>) s)) (\<lambda>_ s.
          andthen (commit s) (\<lambda>_ s.
          andthen (acquire L_log s) (\<lambda>_ s.
          andthen (wakeup Ch_log (upd_log (\<lambda>l. l\<lparr>committing := False\<rparr>) s)) (\<lambda>_ s.
          release L_log s))))
     else andthen (wakeup Ch_log s) (\<lambda>_ s. release L_log s))"

text \<open>The slot \<open>log_write\<close> uses: the first that holds the block number, or the one after the last.\<close>

fun log_slot :: "u32 list \<Rightarrow> u32 \<Rightarrow> nat \<Rightarrow> nat \<Rightarrow> nat" where
  "log_slot bl bno i 0 = i"
| "log_slot bl bno i (Suc k) = (if bl ! i = bno then i else log_slot bl bno (Suc i) k)"

definition log_write :: "nat \<Rightarrow> 'a log_state_scheme \<Rightarrow> (unit, 'a log_state_scheme) res" where
  "log_write b s =
     (if lh_n (klog s) \<ge> int LOGSIZE \<or> lh_n (klog s) \<ge> sint (lsize (klog s)) - 1
      then Panic ''too big a transaction''
      else if outstanding (klog s) < 1 then Panic ''log_write outside of trans''
      else andthen (acquire L_log s) (\<lambda>_ s.
        let bno = blockno (buf_at s b);
            i = log_slot (lh_block (klog s)) bno 0 (nat (lh_n (klog s)));
            s = upd_log (\<lambda>l. l\<lparr>lh_block := (lh_block l)[i := bno]\<rparr>) s
        in andthen (if int i = lh_n (klog s)
                    then andthen (bpin b s) (\<lambda>_ s. Done () (upd_log (\<lambda>l. l\<lparr>lh_n := lh_n l + 1\<rparr>) s))
                    else Done () s) (\<lambda>_ s.
           release L_log s)))"

end
