(* ===== verification/Fs.thy ===== *)
theory Fs
  imports Logging Cstring
begin

text \<open>
  The file system, \<open>kernel/fs.c\<close> and \<open>kernel/fs.h\<close>: super block, block allocation, inodes, file
  contents, directories and path names. An inode is named by its index in the inode cache. Loops
  over the disk's bitmap, the inodes and the entries of a directory carry the bound they count to.
\<close>

definition ROOTINO :: u32 where "ROOTINO = 1"

definition FSMAGIC :: u32 where "FSMAGIC = 0x10203040"

definition NDIRECT :: nat where [simp]: "NDIRECT = 12"

definition NINDIRECT :: nat where [simp]: "NINDIRECT = BSIZE div 4"

definition MAXFILE :: nat where [simp]: "MAXFILE = NDIRECT + NINDIRECT"

definition DIRSIZ :: nat where [simp]: "DIRSIZ = 14"

definition BPB :: nat where [simp]: "BPB = BSIZE * 8"

definition IPB :: nat where [simp]: "IPB = BSIZE div 64"

definition T_DIR :: u16 where "T_DIR = 1"

definition T_FILE :: u16 where "T_FILE = 2"

definition T_DEVICE :: u16 where "T_DEVICE = 3"

record dinode =
  d_type :: u16
  d_major :: u16
  d_minor :: u16
  d_nlink :: u16
  d_size :: u32
  d_addrs :: "u32 list"

definition get_dinode :: "u8 list \<Rightarrow> nat \<Rightarrow> dinode" where
  "get_dinode bs off =
     \<lparr>d_type = get16 bs off, d_major = get16 bs (off + 2), d_minor = get16 bs (off + 4),
      d_nlink = get16 bs (off + 6), d_size = get32 bs (off + 8),
      d_addrs = get32s bs (off + 12) (NDIRECT + 1)\<rparr>"

definition put_dinode :: "u8 list \<Rightarrow> nat \<Rightarrow> dinode \<Rightarrow> u8 list" where
  "put_dinode bs off di =
     (let bs = put16 bs off (d_type di);
          bs = put16 bs (off + 2) (d_major di);
          bs = put16 bs (off + 4) (d_minor di);
          bs = put16 bs (off + 6) (d_nlink di);
          bs = put32 bs (off + 8) (d_size di)
      in put32s bs (off + 12) (d_addrs di))"

record inode =
  idev :: u32
  inum :: u32
  iref :: int
  ivalid :: bool
  itype :: u16
  imajor :: u16
  iminor :: u16
  nlink :: u16
  isize :: u32
  addrs :: "u32 list"

record stat =
  st_dev :: u32
  st_ino :: u32
  st_type :: u16
  st_nlink :: u16
  st_size :: u64

record fs_state = log_state +
  sb :: superblock
  inodes :: "inode list"

abbreviation inode_at :: "'a fs_state_scheme \<Rightarrow> nat \<Rightarrow> inode" where
  "inode_at s i \<equiv> inodes s ! i"

definition upd_inode :: "nat \<Rightarrow> (inode \<Rightarrow> inode) \<Rightarrow> 'a fs_state_scheme \<Rightarrow> 'a fs_state_scheme" where
  "upd_inode i f s = s\<lparr>inodes := (inodes s)[i := f (inodes s ! i)]\<rparr>"

definition BBLOCK :: "nat \<Rightarrow> superblock \<Rightarrow> u32" where
  "BBLOCK b sblk = of_nat (b div BPB) + sb_bmapstart sblk"

definition IBLOCK :: "nat \<Rightarrow> superblock \<Rightarrow> u32" where
  "IBLOCK i sblk = of_nat (i div IPB) + sb_inodestart sblk"

section \<open>Super block and block allocation\<close>

definition get_superblock :: "u8 list \<Rightarrow> superblock" where
  "get_superblock bs =
     \<lparr>sb_magic = get32 bs 0, sb_size = get32 bs 4, sb_nblocks = get32 bs 8, sb_ninodes = get32 bs 12,
      sb_nlog = get32 bs 16, sb_logstart = get32 bs 20, sb_inodestart = get32 bs 24, sb_bmapstart = get32 bs 28\<rparr>"

definition readsb :: "u32 \<Rightarrow> 'a fs_state_scheme \<Rightarrow> (unit, 'a fs_state_scheme) res" where
  "readsb dev s =
     andthen (bread dev 1 s) (\<lambda>bp s.
     brelse bp (s\<lparr>sb := get_superblock (bdata (buf_at s bp))\<rparr>))"

definition fsinit :: "u32 \<Rightarrow> 'a fs_state_scheme \<Rightarrow> (unit, 'a fs_state_scheme) res" where
  "fsinit dev s =
     andthen (readsb dev s) (\<lambda>_ s.
     if sb_magic (sb s) \<noteq> FSMAGIC then Panic ''invalid file system'' else initlog dev (sb s) s)"

definition bzero :: "u32 \<Rightarrow> u32 \<Rightarrow> 'a fs_state_scheme \<Rightarrow> (unit, 'a fs_state_scheme) res" where
  "bzero dev bno s =
     andthen (bread dev bno s) (\<lambda>bp s.
     let s = upd_buf bp (\<lambda>b. b\<lparr>bdata := replicate BSIZE 0\<rparr>) s in
     andthen (log_write bp s) (\<lambda>_ s. brelse bp s))"

definition bmask :: "nat \<Rightarrow> u8" where
  "bmask bi = push_bit (bi mod 8) 1"

text \<open>The inner loop of \<open>balloc\<close>: the first free bit from \<open>bi\<close> on, for \<open>k\<close> bits at most, below \<open>sb.size\<close>.\<close>

fun balloc_bit :: "u8 list \<Rightarrow> nat \<Rightarrow> nat \<Rightarrow> nat \<Rightarrow> nat \<Rightarrow> nat option" where
  "balloc_bit d b lim bi 0 = None"
| "balloc_bit d b lim bi (Suc k) =
     (if b + bi < lim
      then if d ! (bi div 8) AND bmask bi = 0 then Some bi else balloc_bit d b lim (Suc bi) k
      else None)"

function balloc_loop :: "u32 \<Rightarrow> nat \<Rightarrow> nat \<Rightarrow> 'a fs_state_scheme \<Rightarrow> (u32, 'a fs_state_scheme) res" where
  "balloc_loop dev lim b s =
     (if b < lim
      then andthen (bread dev (BBLOCK b (sb s)) s) (\<lambda>bp s.
           case balloc_bit (bdata (buf_at s bp)) b lim 0 BPB of
             Some bi \<Rightarrow>
               andthen (log_write bp (upd_buf bp (\<lambda>x. x\<lparr>bdata := (bdata x)[bi div 8 := bdata x ! (bi div 8) OR bmask bi]\<rparr>) s)) (\<lambda>_ s.
               andthen (brelse bp s) (\<lambda>_ s.
               andthen (bzero dev (of_nat (b + bi)) s) (\<lambda>_ s.
               Done (of_nat (b + bi)) s)))
           | None \<Rightarrow> andthen (brelse bp s) (\<lambda>_ s. balloc_loop dev lim (b + BPB) s))
      else Panic ''balloc: out of blocks'')"
  by pat_completeness auto

termination by (relation "measure (\<lambda>(_, lim, b, _). lim - b)") auto

declare balloc_loop.simps [simp del]

definition balloc :: "u32 \<Rightarrow> 'a fs_state_scheme \<Rightarrow> (u32, 'a fs_state_scheme) res" where
  "balloc dev s = balloc_loop dev (unat (sb_size (sb s))) 0 s"

definition bfree :: "u32 \<Rightarrow> u32 \<Rightarrow> 'a fs_state_scheme \<Rightarrow> (unit, 'a fs_state_scheme) res" where
  "bfree dev b s =
     andthen (bread dev (BBLOCK (unat b) (sb s)) s) (\<lambda>bp s.
     let bi = unat b mod BPB in
     if bdata (buf_at s bp) ! (bi div 8) AND bmask bi = 0 then Panic ''freeing free block''
     else andthen (log_write bp (upd_buf bp (\<lambda>x. x\<lparr>bdata := (bdata x)[bi div 8 := bdata x ! (bi div 8) AND NOT (bmask bi)]\<rparr>) s)) (\<lambda>_ s.
          brelse bp s))"

section \<open>Inodes\<close>

fun iinit_loop :: "nat \<Rightarrow> nat \<Rightarrow> 'a fs_state_scheme \<Rightarrow> 'a fs_state_scheme" where
  "iinit_loop i 0 s = s"
| "iinit_loop i (Suc k) s = iinit_loop (Suc i) k (initsleeplock (SL_inode i) s)"

definition iinit :: "'a fs_state_scheme \<Rightarrow> 'a fs_state_scheme" where
  "iinit s = iinit_loop 0 NINODE (s\<lparr>held := held s - {L_icache}\<rparr>)"

text \<open>The scan of \<open>iget\<close>: the cached inode (\<open>Inl\<close>), or the first emp slot passed.\<close>

fun iget_scan :: "inode list \<Rightarrow> u32 \<Rightarrow> u32 \<Rightarrow> nat \<Rightarrow> nat \<Rightarrow> nat option \<Rightarrow> nat + nat option" where
  "iget_scan is dev ino i 0 emp = Inr emp"
| "iget_scan is dev ino i (Suc k) emp =
     (if iref (is ! i) > 0 \<and> idev (is ! i) = dev \<and> inum (is ! i) = ino then Inl i
      else iget_scan is dev ino (Suc i) k (if emp = None \<and> iref (is ! i) = 0 then Some i else emp))"

definition iget :: "u32 \<Rightarrow> u32 \<Rightarrow> 'a fs_state_scheme \<Rightarrow> (nat, 'a fs_state_scheme) res" where
  "iget dev ino s =
     andthen (acquire L_icache s) (\<lambda>_ s.
     case iget_scan (inodes s) dev ino 0 NINODE None of
       Inl i \<Rightarrow> andthen (release L_icache (upd_inode i (\<lambda>x. x\<lparr>iref := iref x + 1\<rparr>) s)) (\<lambda>_ s. Done i s)
     | Inr None \<Rightarrow> Panic ''iget: no inodes''
     | Inr (Some i) \<Rightarrow>
         andthen (release L_icache (upd_inode i (\<lambda>x. x\<lparr>idev := dev, inum := ino, iref := 1, ivalid := False\<rparr>) s)) (\<lambda>_ s.
         Done i s))"

function ialloc_loop :: "u32 \<Rightarrow> u16 \<Rightarrow> nat \<Rightarrow> nat \<Rightarrow> 'a fs_state_scheme \<Rightarrow> (nat, 'a fs_state_scheme) res" where
  "ialloc_loop dev type ninodes ino s =
     (if ino < ninodes
      then andthen (bread dev (IBLOCK ino (sb s)) s) (\<lambda>bp s.
           let off = ino mod IPB * 64 in
           if d_type (get_dinode (bdata (buf_at s bp)) off) = 0
           then andthen (log_write bp (upd_buf bp (\<lambda>x. x\<lparr>bdata := put16 (bpatch (bdata x) off (replicate 64 0)) off type\<rparr>) s)) (\<lambda>_ s.
                andthen (brelse bp s) (\<lambda>_ s. iget dev (of_nat ino) s))
           else andthen (brelse bp s) (\<lambda>_ s. ialloc_loop dev type ninodes (Suc ino) s))
      else Panic ''ialloc: no inodes'')"
  by pat_completeness auto

termination by (relation "measure (\<lambda>(_, _, n, i, _). n - i)") auto

declare ialloc_loop.simps [simp del]

definition ialloc :: "u32 \<Rightarrow> u16 \<Rightarrow> 'a fs_state_scheme \<Rightarrow> (nat, 'a fs_state_scheme) res" where
  "ialloc dev type s = ialloc_loop dev type (unat (sb_ninodes (sb s))) 1 s"

definition dinode_of :: "inode \<Rightarrow> dinode" where
  "dinode_of ip = \<lparr>d_type = itype ip, d_major = imajor ip, d_minor = iminor ip, d_nlink = nlink ip,
     d_size = isize ip, d_addrs = addrs ip\<rparr>"

definition iupdate :: "nat \<Rightarrow> 'a fs_state_scheme \<Rightarrow> (unit, 'a fs_state_scheme) res" where
  "iupdate ip s =
     andthen (bread (idev (inode_at s ip)) (IBLOCK (unat (inum (inode_at s ip))) (sb s)) s) (\<lambda>bp s.
     let i = inode_at s ip in
     andthen (log_write bp (upd_buf bp (\<lambda>x. x\<lparr>bdata := put_dinode (bdata x) (unat (inum i) mod IPB * 64) (dinode_of i)\<rparr>) s)) (\<lambda>_ s.
     brelse bp s))"

definition idup :: "nat \<Rightarrow> 'a fs_state_scheme \<Rightarrow> (nat, 'a fs_state_scheme) res" where
  "idup ip s =
     andthen (acquire L_icache s) (\<lambda>_ s.
     andthen (release L_icache (upd_inode ip (\<lambda>x. x\<lparr>iref := iref x + 1\<rparr>) s)) (\<lambda>_ s. Done ip s))"

definition ilock :: "nat option \<Rightarrow> 'a fs_state_scheme \<Rightarrow> (unit, 'a fs_state_scheme) res" where
  "ilock ipo s =
     (case ipo of None \<Rightarrow> Panic ''ilock''
      | Some ip \<Rightarrow>
          if iref (inode_at s ip) < 1 then Panic ''ilock''
          else andthen (acquiresleep (SL_inode ip) s) (\<lambda>_ s.
               if \<not> ivalid (inode_at s ip)
               then andthen (bread (idev (inode_at s ip)) (IBLOCK (unat (inum (inode_at s ip))) (sb s)) s) (\<lambda>bp s.
                    let di = get_dinode (bdata (buf_at s bp)) (unat (inum (inode_at s ip)) mod IPB * 64);
                        s = upd_inode ip (\<lambda>x. x\<lparr>itype := d_type di, imajor := d_major di, iminor := d_minor di,
                              nlink := d_nlink di, isize := d_size di, addrs := d_addrs di\<rparr>) s
                    in andthen (brelse bp s) (\<lambda>_ s.
                       let s = upd_inode ip (\<lambda>x. x\<lparr>ivalid := True\<rparr>) s
                       in if itype (inode_at s ip) = 0 then Panic ''ilock: no type'' else Done () s))
               else Done () s))"

definition iunlock :: "nat option \<Rightarrow> 'a fs_state_scheme \<Rightarrow> (unit, 'a fs_state_scheme) res" where
  "iunlock ipo s =
     (case ipo of None \<Rightarrow> Panic ''iunlock''
      | Some ip \<Rightarrow>
          andthen (holdingsleep (SL_inode ip) s) (\<lambda>h s.
          if \<not> h \<or> iref (inode_at s ip) < 1 then Panic ''iunlock'' else releasesleep (SL_inode ip) s))"

definition bmap :: "nat \<Rightarrow> u32 \<Rightarrow> 'a fs_state_scheme \<Rightarrow> (u32, 'a fs_state_scheme) res" where
  "bmap ip bn s =
     (let dev = idev (inode_at s ip); n = unat bn in
      if n < NDIRECT
      then let a = addrs (inode_at s ip) ! n in
           if a = 0
           then andthen (balloc dev s) (\<lambda>a s. Done a (upd_inode ip (\<lambda>x. x\<lparr>addrs := (addrs x)[n := a]\<rparr>) s))
           else Done a s
      else let n = n - NDIRECT in
      if n < NINDIRECT
      then andthen (let a = addrs (inode_at s ip) ! NDIRECT in
             if a = 0
             then andthen (balloc dev s) (\<lambda>a s. Done a (upd_inode ip (\<lambda>x. x\<lparr>addrs := (addrs x)[NDIRECT := a]\<rparr>) s))
             else Done a s) (\<lambda>a s.
           andthen (bread dev a s) (\<lambda>bp s.
           andthen (let a = get32 (bdata (buf_at s bp)) (4 * n) in
             if a = 0
             then andthen (balloc dev s) (\<lambda>a s.
                  andthen (log_write bp (upd_buf bp (\<lambda>x. x\<lparr>bdata := put32 (bdata x) (4 * n) a\<rparr>) s)) (\<lambda>_ s. Done a s))
             else Done a s) (\<lambda>a s.
           andthen (brelse bp s) (\<lambda>_ s. Done a s))))
      else Panic ''bmap: out of range'')"

fun itrunc_direct :: "nat \<Rightarrow> nat \<Rightarrow> nat \<Rightarrow> 'a fs_state_scheme \<Rightarrow> (unit, 'a fs_state_scheme) res" where
  "itrunc_direct ip i 0 s = Done () s"
| "itrunc_direct ip i (Suc k) s =
     andthen (let a = addrs (inode_at s ip) ! i in
       if a \<noteq> 0
       then andthen (bfree (idev (inode_at s ip)) a s) (\<lambda>_ s. Done () (upd_inode ip (\<lambda>x. x\<lparr>addrs := (addrs x)[i := 0]\<rparr>) s))
       else Done () s) (\<lambda>_ s.
     itrunc_direct ip (Suc i) k s)"

fun itrunc_indirect :: "u32 \<Rightarrow> nat \<Rightarrow> nat \<Rightarrow> nat \<Rightarrow> 'a fs_state_scheme \<Rightarrow> (unit, 'a fs_state_scheme) res" where
  "itrunc_indirect dev bp j 0 s = Done () s"
| "itrunc_indirect dev bp j (Suc k) s =
     andthen (let a = get32 (bdata (buf_at s bp)) (4 * j) in if a \<noteq> 0 then bfree dev a s else Done () s) (\<lambda>_ s.
     itrunc_indirect dev bp (Suc j) k s)"

definition itrunc :: "nat \<Rightarrow> 'a fs_state_scheme \<Rightarrow> (unit, 'a fs_state_scheme) res" where
  "itrunc ip s =
     andthen (itrunc_direct ip 0 NDIRECT s) (\<lambda>_ s.
     andthen (let a = addrs (inode_at s ip) ! NDIRECT; dev = idev (inode_at s ip) in
       if a \<noteq> 0
       then andthen (bread dev a s) (\<lambda>bp s.
            andthen (itrunc_indirect dev bp 0 NINDIRECT s) (\<lambda>_ s.
            andthen (brelse bp s) (\<lambda>_ s.
            andthen (bfree dev (addrs (inode_at s ip) ! NDIRECT) s) (\<lambda>_ s.
            Done () (upd_inode ip (\<lambda>x. x\<lparr>addrs := (addrs x)[NDIRECT := 0]\<rparr>) s)))))
       else Done () s) (\<lambda>_ s.
     iupdate ip (upd_inode ip (\<lambda>x. x\<lparr>isize := 0\<rparr>) s)))"

definition iput :: "nat \<Rightarrow> 'a fs_state_scheme \<Rightarrow> (unit, 'a fs_state_scheme) res" where
  "iput ip s =
     andthen (acquire L_icache s) (\<lambda>_ s.
     andthen
       (if iref (inode_at s ip) = 1 \<and> ivalid (inode_at s ip) \<and> nlink (inode_at s ip) = 0
        then andthen (acquiresleep (SL_inode ip) s) (\<lambda>_ s.
             andthen (release L_icache s) (\<lambda>_ s.
             andthen (itrunc ip s) (\<lambda>_ s.
             andthen (iupdate ip (upd_inode ip (\<lambda>x. x\<lparr>itype := 0\<rparr>) s)) (\<lambda>_ s.
             andthen (releasesleep (SL_inode ip) (upd_inode ip (\<lambda>x. x\<lparr>ivalid := False\<rparr>) s)) (\<lambda>_ s.
             acquire L_icache s)))))
        else Done () s) (\<lambda>_ s.
     release L_icache (upd_inode ip (\<lambda>x. x\<lparr>iref := iref x - 1\<rparr>) s)))"

definition iunlockput :: "nat \<Rightarrow> 'a fs_state_scheme \<Rightarrow> (unit, 'a fs_state_scheme) res" where
  "iunlockput ip s = andthen (iunlock (Some ip) s) (\<lambda>_ s. iput ip s)"

definition stati :: "nat \<Rightarrow> 'a fs_state_scheme \<Rightarrow> stat" where
  "stati ip s = (let i = inode_at s ip in
     \<lparr>st_dev = idev i, st_ino = inum i, st_type = itype i, st_nlink = nlink i, st_size = ucast (isize i)\<rparr>)"

section \<open>File contents\<close>

definition block_chunk :: "u32 \<Rightarrow> nat \<Rightarrow> nat" where
  "block_chunk off k = min k (BSIZE - unat off mod BSIZE)"

lemma block_chunk_pos: "0 < k \<Longrightarrow> 0 < block_chunk off k"
  by (simp add: block_chunk_def)

lemma block_chunk_decreases: "0 < k \<Longrightarrow> k - block_chunk off k < k"
  using block_chunk_pos by simp

text \<open>The loop of \<open>readi\<close> with \<open>k = n - tot\<close> bytes to go.\<close>

function readi_loop :: "nat \<Rightarrow> kdst \<Rightarrow> u32 \<Rightarrow> nat \<Rightarrow> nat \<Rightarrow> 'a fs_state_scheme \<Rightarrow> (int \<times> kdst, 'a fs_state_scheme) res" where
  "readi_loop ip dst off tot k s =
     (if 0 < k
      then andthen (bmap ip (off div of_nat BSIZE) s) (\<lambda>a s.
           andthen (bread (idev (inode_at s ip)) a s) (\<lambda>bp s.
           let m = block_chunk off k in
           andthen (either_copyout dst (bslice (bdata (buf_at s bp)) (unat off mod BSIZE) m) s) (\<lambda>(r, dst) s.
           andthen (brelse bp s) (\<lambda>_ s.
           if r = - 1 then Done (- 1, dst) s
           else readi_loop ip dst (off + of_nat m) (tot + m) (k - m) s))))
      else Done (int tot, dst) s)"
  by pat_completeness auto

termination by (relation "measure (\<lambda>(_, _, _, _, k, _). k)") (simp_all add: block_chunk_decreases)

declare readi_loop.simps [simp del]

definition readi :: "nat \<Rightarrow> kdst \<Rightarrow> u32 \<Rightarrow> u32 \<Rightarrow> 'a fs_state_scheme \<Rightarrow> (int \<times> kdst, 'a fs_state_scheme) res" where
  "readi ip dst off n s =
     (let lim = isize (inode_at s ip) in
      if off > lim \<or> off + n < off then Done (0, dst) s
      else let n = (if off + n > lim then lim - off else n)
           in readi_loop ip dst off 0 (unat n) s)"

text \<open>The loop of \<open>writei\<close>; it returns \<open>tot\<close> and \<open>off\<close> where it stopped. The bytes copied before a failing
  page of the source stay in the buffer, which is then not logged.\<close>

function writei_loop :: "nat \<Rightarrow> ksrc \<Rightarrow> u32 \<Rightarrow> nat \<Rightarrow> nat \<Rightarrow> 'a fs_state_scheme \<Rightarrow> (nat \<times> u32, 'a fs_state_scheme) res" where
  "writei_loop ip src off tot k s =
     (if 0 < k
      then andthen (bmap ip (off div of_nat BSIZE) s) (\<lambda>a s.
           andthen (bread (idev (inode_at s ip)) a s) (\<lambda>bp s.
           let m = block_chunk off k in
           andthen (either_copyin src m s) (\<lambda>(r, bs, src) s.
           let s = upd_buf bp (\<lambda>x. x\<lparr>bdata := bpatch (bdata x) (unat off mod BSIZE) bs\<rparr>) s in
           if r = - 1 then andthen (brelse bp s) (\<lambda>_ s. Done (tot, off) s)
           else andthen (log_write bp s) (\<lambda>_ s.
                andthen (brelse bp s) (\<lambda>_ s.
                writei_loop ip src (off + of_nat m) (tot + m) (k - m) s)))))
      else Done (tot, off) s)"
  by pat_completeness auto

termination by (relation "measure (\<lambda>(_, _, _, _, k, _). k)") (simp_all add: block_chunk_decreases)

declare writei_loop.simps [simp del]

definition writei :: "nat \<Rightarrow> ksrc \<Rightarrow> u32 \<Rightarrow> u32 \<Rightarrow> 'a fs_state_scheme \<Rightarrow> (int, 'a fs_state_scheme) res" where
  "writei ip src off n s =
     (if off > isize (inode_at s ip) \<or> off + n < off then Done (- 1) s
      else if unat (off + n) > MAXFILE * BSIZE then Done (- 1) s
      else andthen (writei_loop ip src off 0 (unat n) s) (\<lambda>(tot, off) s.
           let s = (if off > isize (inode_at s ip) then upd_inode ip (\<lambda>x. x\<lparr>isize := off\<rparr>) s else s)
           in andthen (iupdate ip s) (\<lambda>_ s. Done (int tot) s)))"

section \<open>Directories and paths\<close>

definition namecmp :: "ptr \<Rightarrow> ptr \<Rightarrow> int" where
  "namecmp s t = strncmp s t DIRSIZ"

text \<open>Reading one \<open>struct dirent\<close> of 16 bytes: the inode number and the name.\<close>

definition read_dirent :: "nat \<Rightarrow> nat \<Rightarrow> string \<Rightarrow> 'a fs_state_scheme \<Rightarrow> (u16 \<times> u8 list, 'a fs_state_scheme) res" where
  "read_dirent dp off msg s =
     andthen (readi dp (BufDst []) (of_nat off) 16 s) (\<lambda>(r, dst) s.
     if r \<noteq> 16 then Panic msg
     else case dst of BufDst de \<Rightarrow> Done (get16 de 0, bslice de 2 DIRSIZ) s | _ \<Rightarrow> Panic msg)"

function dirlookup_loop :: "nat \<Rightarrow> u8 list \<Rightarrow> nat \<Rightarrow> nat \<Rightarrow> 'a fs_state_scheme \<Rightarrow> ((nat \<times> nat) option, 'a fs_state_scheme) res" where
  "dirlookup_loop dp name lim off s =
     (if off < lim
      then andthen (read_dirent dp off ''dirlookup read'' s) (\<lambda>(ino, dname) s.
           if ino \<noteq> 0 \<and> namecmp (arr name) (arr dname) = 0
           then andthen (iget (idev (inode_at s dp)) (ucast ino) s) (\<lambda>ip s. Done (Some (ip, off)) s)
           else dirlookup_loop dp name lim (off + 16) s)
      else Done None s)"
  by pat_completeness auto

termination by (relation "measure (\<lambda>(_, _, lim, off, _). lim - off)") auto

declare dirlookup_loop.simps [simp del]

text \<open>The result has the inode and the offset of the entry, for \<open>*poff\<close>.\<close>

definition dirlookup :: "nat \<Rightarrow> u8 list \<Rightarrow> 'a fs_state_scheme \<Rightarrow> ((nat \<times> nat) option, 'a fs_state_scheme) res" where
  "dirlookup dp name s =
     (if itype (inode_at s dp) \<noteq> T_DIR then Panic ''dirlookup not DIR''
      else dirlookup_loop dp name (unat (isize (inode_at s dp))) 0 s)"

function dirlink_scan :: "nat \<Rightarrow> nat \<Rightarrow> nat \<Rightarrow> 'a fs_state_scheme \<Rightarrow> (nat, 'a fs_state_scheme) res" where
  "dirlink_scan dp lim off s =
     (if off < lim
      then andthen (read_dirent dp off ''dirlink read'' s) (\<lambda>(ino, _) s.
           if ino = 0 then Done off s else dirlink_scan dp lim (off + 16) s)
      else Done off s)"
  by pat_completeness auto

termination by (relation "measure (\<lambda>(_, lim, off, _). lim - off)") auto

declare dirlink_scan.simps [simp del]

definition mk_dirent :: "u8 list \<Rightarrow> u16 \<Rightarrow> u8 list" where
  "mk_dirent name ino = word_le 2 ino @ strncpy (replicate DIRSIZ 0) (arr name) DIRSIZ"

definition dirlink :: "nat \<Rightarrow> u8 list \<Rightarrow> u32 \<Rightarrow> 'a fs_state_scheme \<Rightarrow> (int, 'a fs_state_scheme) res" where
  "dirlink dp name ino s =
     andthen (dirlookup dp name s) (\<lambda>r s.
     case r of
       Some (ip, _) \<Rightarrow> andthen (iput ip s) (\<lambda>_ s. Done (- 1) s)
     | None \<Rightarrow>
         andthen (dirlink_scan dp (unat (isize (inode_at s dp))) 0 s) (\<lambda>off s.
         andthen (writei dp (BufSrc (mk_dirent name (ucast ino))) (of_nat off) 16 s) (\<lambda>r s.
         if r \<noteq> 16 then Panic ''dirlink'' else Done 0 s)))"

text \<open>Paths are the bytes up to the terminating NUL; \<open>name\<close> is the array of \<open>DIRSIZ\<close> bytes.\<close>

definition slash :: u8 where "slash = 47"

definition skipelem :: "u8 list \<Rightarrow> u8 list \<Rightarrow> (u8 list \<times> u8 list) option" where
  "skipelem path name =
     (let path = dropWhile (\<lambda>c. c = slash) path in
      if path = [] then None
      else let e = takeWhile (\<lambda>c. c \<noteq> slash) path;
               path = dropWhile (\<lambda>c. c \<noteq> slash) path;
               name = (if length e \<ge> DIRSIZ then take DIRSIZ e else bpatch name 0 (e @ [0]))
           in Some (dropWhile (\<lambda>c. c = slash) path, name))"

lemma skipelem_shorter: "skipelem path name = Some (p, n) \<Longrightarrow> length p < length path"
proof -
  assume a: "skipelem path name = Some (p, n)"
  let ?q = "dropWhile (\<lambda>c. c = slash) path"
  have "?q \<noteq> []" using a by (cases "?q = []") (auto simp del: dropWhile_eq_Nil_conv simp: skipelem_def Let_def)
  then have "hd ?q \<noteq> slash" using hd_dropWhile by blast
  then have "length (dropWhile (\<lambda>c. c \<noteq> slash) ?q) < length ?q"
    using \<open>?q \<noteq> []\<close> by (cases ?q) (simp_all add: length_dropWhile_le le_imp_less_Suc)
  moreover have "p = dropWhile (\<lambda>c. c = slash) (dropWhile (\<lambda>c. c \<noteq> slash) ?q)"
    using a by (auto simp: skipelem_def Let_def split: if_splits)
  ultimately show ?thesis
    using length_dropWhile_le [of "\<lambda>c. c = slash" path]
      length_dropWhile_le [of "\<lambda>c. c = slash" "dropWhile (\<lambda>c. c \<noteq> slash) ?q"] by simp
qed

function namex_loop :: "nat \<Rightarrow> u8 list \<Rightarrow> u8 list \<Rightarrow> bool \<Rightarrow> 'a fs_state_scheme \<Rightarrow> (nat option \<times> u8 list, 'a fs_state_scheme) res" where
  "namex_loop ip path name nameiparent s =
     (case skipelem path name of
        None \<Rightarrow> if nameiparent then andthen (iput ip s) (\<lambda>_ s. Done (None, name) s) else Done (Some ip, name) s
      | Some (path, name) \<Rightarrow>
          andthen (ilock (Some ip) s) (\<lambda>_ s.
          if itype (inode_at s ip) \<noteq> T_DIR then andthen (iunlockput ip s) (\<lambda>_ s. Done (None, name) s)
          else if nameiparent \<and> path = [] then andthen (iunlock (Some ip) s) (\<lambda>_ s. Done (Some ip, name) s)
          else andthen (dirlookup ip name s) (\<lambda>r s.
               case r of
                 None \<Rightarrow> andthen (iunlockput ip s) (\<lambda>_ s. Done (None, name) s)
               | Some (next, _) \<Rightarrow> andthen (iunlockput ip s) (\<lambda>_ s. namex_loop next path name nameiparent s))))"
  by pat_completeness auto

termination by (relation "measure (\<lambda>(_, path, _, _, _). length path)") (auto dest: skipelem_shorter)

declare namex_loop.simps [simp del]

definition namex :: "u8 list \<Rightarrow> bool \<Rightarrow> u8 list \<Rightarrow> 'a fs_state_scheme \<Rightarrow> (nat option \<times> u8 list, 'a fs_state_scheme) res" where
  "namex path nameiparent name s =
     andthen (if path \<noteq> [] \<and> hd path = slash then iget (ROOTDEV) ROOTINO s
              else with_proc s (\<lambda>p. case cwd (proc_at s p) of None \<Rightarrow> Panic ''kerneltrap'' | Some d \<Rightarrow> idup d s)) (\<lambda>ip s.
     namex_loop ip path name nameiparent s)"

definition namei :: "u8 list \<Rightarrow> 'a fs_state_scheme \<Rightarrow> (nat option, 'a fs_state_scheme) res" where
  "namei path s = andthen (namex path False (replicate DIRSIZ 0) s) (\<lambda>(r, _) s. Done r s)"

definition nameiparent :: "u8 list \<Rightarrow> u8 list \<Rightarrow> 'a fs_state_scheme \<Rightarrow> (nat option \<times> u8 list, 'a fs_state_scheme) res" where
  "nameiparent path name s = namex path True name s"

end
