(* ===== verification/File_Layer.thy ===== *)
theory File_Layer
  imports Fs
begin

text \<open>
  Open files, \<open>kernel/file.c\<close>, and pipes, \<open>kernel/pipe.c\<close>. A file is named by its index in the file
  table, a pipe by the address of its page.
\<close>

datatype ftype = FD_NONE | FD_PIPE | FD_INODE | FD_DEVICE

record kfile =
  ftype :: ftype
  fref :: int
  readable :: bool
  writable :: bool
  fpipe :: u64
  fip :: "nat option"
  foff :: u32
  fmajor :: u16

definition PIPESIZE :: nat where [simp]: "PIPESIZE = 512"

text \<open>A pipe lives in a page of its own, whose address names it.\<close>

record pipe =
  pdata :: "u8 list"
  nread :: u32
  nwrite :: u32
  readopen :: bool
  writeopen :: bool

record file_state = fs_state +
  files :: "kfile list"
  pipes :: "u64 \<Rightarrow> pipe"

abbreviation file_at :: "'a file_state_scheme \<Rightarrow> nat \<Rightarrow> kfile" where
  "file_at s f \<equiv> files s ! f"

definition upd_file :: "nat \<Rightarrow> (kfile \<Rightarrow> kfile) \<Rightarrow> 'a file_state_scheme \<Rightarrow> 'a file_state_scheme" where
  "upd_file f g s = s\<lparr>files := (files s)[f := g (files s ! f)]\<rparr>"

definition upd_pipe :: "u64 \<Rightarrow> (pipe \<Rightarrow> pipe) \<Rightarrow> 'a file_state_scheme \<Rightarrow> 'a file_state_scheme" where
  "upd_pipe pi g s = s\<lparr>pipes := (pipes s)(pi := g (pipes s pi))\<rparr>"

definition fileinit :: "'a file_state_scheme \<Rightarrow> 'a file_state_scheme" where
  "fileinit s = s\<lparr>held := held s - {L_ftable}\<rparr>"

fun filealloc_scan :: "kfile list \<Rightarrow> nat \<Rightarrow> nat \<Rightarrow> nat option" where
  "filealloc_scan fs i 0 = None"
| "filealloc_scan fs i (Suc k) = (if fref (fs ! i) = 0 then Some i else filealloc_scan fs (Suc i) k)"

definition filealloc :: "'a file_state_scheme \<Rightarrow> (nat option, 'a file_state_scheme) res" where
  "filealloc s =
     andthen (acquire L_ftable s) (\<lambda>_ s.
     case filealloc_scan (files s) 0 NFILE of
       Some f \<Rightarrow> andthen (release L_ftable (upd_file f (\<lambda>x. x\<lparr>fref := 1\<rparr>) s)) (\<lambda>_ s. Done (Some f) s)
     | None \<Rightarrow> andthen (release L_ftable s) (\<lambda>_ s. Done None s))"

definition filedup :: "nat \<Rightarrow> 'a file_state_scheme \<Rightarrow> (nat, 'a file_state_scheme) res" where
  "filedup f s =
     andthen (acquire L_ftable s) (\<lambda>_ s.
     if fref (file_at s f) < 1 then Panic ''filedup''
     else andthen (release L_ftable (upd_file f (\<lambda>x. x\<lparr>fref := fref x + 1\<rparr>) s)) (\<lambda>_ s. Done f s))"

definition pipeclose :: "u64 \<Rightarrow> bool \<Rightarrow> 'a file_state_scheme \<Rightarrow> (unit, 'a file_state_scheme) res" where
  "pipeclose pi wr s =
     andthen (acquire (L_pipe pi) s) (\<lambda>_ s.
     andthen (if wr then wakeup (Ch_pipe_read pi) (upd_pipe pi (\<lambda>p. p\<lparr>writeopen := False\<rparr>) s)
              else wakeup (Ch_pipe_write pi) (upd_pipe pi (\<lambda>p. p\<lparr>readopen := False\<rparr>) s)) (\<lambda>_ s.
     if \<not> readopen (pipes s pi) \<and> \<not> writeopen (pipes s pi)
     then andthen (release (L_pipe pi) s) (\<lambda>_ s. kfree pi s)
     else release (L_pipe pi) s))"

definition fileclose :: "nat \<Rightarrow> 'a file_state_scheme \<Rightarrow> (unit, 'a file_state_scheme) res" where
  "fileclose f s =
     andthen (acquire L_ftable s) (\<lambda>_ s.
     if fref (file_at s f) < 1 then Panic ''fileclose''
     else
       let s = upd_file f (\<lambda>x. x\<lparr>fref := fref x - 1\<rparr>) s in
       if fref (file_at s f) > 0 then release L_ftable s
       else
         let ff = file_at s f in
         andthen (release L_ftable (upd_file f (\<lambda>x. x\<lparr>fref := 0, ftype := FD_NONE\<rparr>) s)) (\<lambda>_ s.
         if ftype ff = FD_PIPE then pipeclose (fpipe ff) (writable ff) s
         else if ftype ff = FD_INODE \<or> ftype ff = FD_DEVICE
         then andthen (begin_op s) (\<lambda>_ s.
              andthen (case fip ff of None \<Rightarrow> Panic ''kerneltrap'' | Some ip \<Rightarrow> iput ip s) (\<lambda>_ s.
              end_op s))
         else Done () s))"

definition pipealloc :: "'a file_state_scheme \<Rightarrow> ((nat \<times> nat) option, 'a file_state_scheme) res" where
  "pipealloc s =
     andthen (filealloc s) (\<lambda>f0 s.
     case f0 of
       None \<Rightarrow> Done None s
     | Some f0 \<Rightarrow>
         andthen (filealloc s) (\<lambda>f1 s.
         case f1 of
           None \<Rightarrow> andthen (fileclose f0 s) (\<lambda>_ s. Done None s)
         | Some f1 \<Rightarrow>
             andthen (kalloc s) (\<lambda>pi s.
             if pi = 0 then andthen (fileclose f0 s) (\<lambda>_ s. andthen (fileclose f1 s) (\<lambda>_ s. Done None s))
             else
               let s = upd_pipe pi (\<lambda>p. p\<lparr>readopen := True, writeopen := True, nwrite := 0, nread := 0\<rparr>) s;
                   s = s\<lparr>held := held s - {L_pipe pi}\<rparr>;
                   s = upd_file f0 (\<lambda>x. x\<lparr>ftype := FD_PIPE, readable := True, writable := False, fpipe := pi\<rparr>) s;
                   s = upd_file f1 (\<lambda>x. x\<lparr>ftype := FD_PIPE, readable := False, writable := True, fpipe := pi\<rparr>) s
               in Done (Some (f0, f1)) s)))"

text \<open>
  The loop of \<open>pipewrite\<close>, entered with \<open>pi->lock\<close> held and \<open>i\<close> bytes written; \<open>k\<close> are left. A writer
  that finds the pipe full goes to sleep there.
\<close>

fun pipewrite_loop :: "nat \<Rightarrow> u64 \<Rightarrow> u64 \<Rightarrow> nat \<Rightarrow> nat \<Rightarrow> 'a file_state_scheme \<Rightarrow> (int, 'a file_state_scheme) res" where
  "pipewrite_loop pr pi va i 0 s =
     andthen (wakeup (Ch_pipe_read pi) s) (\<lambda>_ s. andthen (release (L_pipe pi) s) (\<lambda>_ s. Done (int i) s))"
| "pipewrite_loop pr pi va i (Suc k) s =
     (if \<not> readopen (pipes s pi) \<or> killed (proc_at s pr)
      then andthen (release (L_pipe pi) s) (\<lambda>_ s. Done (- 1) s)
      else if nwrite (pipes s pi) = nread (pipes s pi) + of_nat PIPESIZE
      then andthen (wakeup (Ch_pipe_read pi) s) (\<lambda>_ s.
           andthen (sleep (Ch_pipe_write pi) (L_pipe pi) s) (\<lambda>_ s. Done 0 s))
      else andthen (copyin (pagetable (proc_at s pr)) [] (va + of_nat i) 1 s) (\<lambda>(r, ch) s.
           if r = - 1
           then andthen (wakeup (Ch_pipe_read pi) s) (\<lambda>_ s. andthen (release (L_pipe pi) s) (\<lambda>_ s. Done (int i) s))
           else pipewrite_loop pr pi va (Suc i) k
             (upd_pipe pi (\<lambda>p. p\<lparr>pdata := (pdata p)[unat (nwrite p) mod PIPESIZE := hd ch], nwrite := nwrite p + 1\<rparr>) s)))"

definition pipewrite :: "u64 \<Rightarrow> u64 \<Rightarrow> int \<Rightarrow> 'a file_state_scheme \<Rightarrow> (int, 'a file_state_scheme) res" where
  "pipewrite pi va n s =
     with_proc s (\<lambda>pr. andthen (acquire (L_pipe pi) s) (\<lambda>_ s. pipewrite_loop pr pi va 0 (nat n) s))"

definition pipewrite_resume :: "u64 \<Rightarrow> u64 \<Rightarrow> int \<Rightarrow> nat \<Rightarrow> 'a file_state_scheme \<Rightarrow> (int, 'a file_state_scheme) res" where
  "pipewrite_resume pi va n i s =
     with_proc s (\<lambda>pr. andthen (sleep_return (L_pipe pi) s) (\<lambda>_ s. pipewrite_loop pr pi va i (nat n - i) s))"

fun piperead_copy :: "nat \<Rightarrow> u64 \<Rightarrow> u64 \<Rightarrow> nat \<Rightarrow> nat \<Rightarrow> 'a file_state_scheme \<Rightarrow> (nat, 'a file_state_scheme) res" where
  "piperead_copy pr pi va i 0 s = Done i s"
| "piperead_copy pr pi va i (Suc k) s =
     (if nread (pipes s pi) = nwrite (pipes s pi) then Done i s
      else let ch = pdata (pipes s pi) ! (unat (nread (pipes s pi)) mod PIPESIZE);
               s = upd_pipe pi (\<lambda>p. p\<lparr>nread := nread p + 1\<rparr>) s
           in andthen (copyout (pagetable (proc_at s pr)) (va + of_nat i) [ch] s) (\<lambda>r s.
              if r = - 1 then Done i s else piperead_copy pr pi va (Suc i) k s))"

definition piperead_turn :: "nat \<Rightarrow> u64 \<Rightarrow> u64 \<Rightarrow> int \<Rightarrow> 'a file_state_scheme \<Rightarrow> (int, 'a file_state_scheme) res" where
  "piperead_turn pr pi va n s =
     (if nread (pipes s pi) = nwrite (pipes s pi) \<and> writeopen (pipes s pi)
      then if killed (proc_at s pr) then andthen (release (L_pipe pi) s) (\<lambda>_ s. Done (- 1) s)
           else andthen (sleep (Ch_pipe_read pi) (L_pipe pi) s) (\<lambda>_ s. Done 0 s)
      else andthen (piperead_copy pr pi va 0 (nat n) s) (\<lambda>i s.
           andthen (wakeup (Ch_pipe_write pi) s) (\<lambda>_ s.
           andthen (release (L_pipe pi) s) (\<lambda>_ s. Done (int i) s))))"

definition piperead :: "u64 \<Rightarrow> u64 \<Rightarrow> int \<Rightarrow> 'a file_state_scheme \<Rightarrow> (int, 'a file_state_scheme) res" where
  "piperead pi va n s =
     with_proc s (\<lambda>pr. andthen (acquire (L_pipe pi) s) (\<lambda>_ s. piperead_turn pr pi va n s))"

definition piperead_resume :: "u64 \<Rightarrow> u64 \<Rightarrow> int \<Rightarrow> 'a file_state_scheme \<Rightarrow> (int, 'a file_state_scheme) res" where
  "piperead_resume pi va n s =
     with_proc s (\<lambda>pr. andthen (sleep_return (L_pipe pi) s) (\<lambda>_ s. piperead_turn pr pi va n s))"

text \<open>The 24 bytes of a \<open>struct stat\<close> in memory, with the padding bytes before \<open>size\<close> (never written) as 0.\<close>

definition stat_bytes :: "stat \<Rightarrow> u8 list" where
  "stat_bytes st = word_le 4 (st_dev st) @ word_le 4 (st_ino st) @ word_le 2 (st_type st)
     @ word_le 2 (st_nlink st) @ replicate 4 0 @ word_le 8 (st_size st)"

definition filestat :: "nat \<Rightarrow> u64 \<Rightarrow> 'a file_state_scheme \<Rightarrow> (int, 'a file_state_scheme) res" where
  "filestat f va s =
     with_proc s (\<lambda>p.
     if ftype (file_at s f) = FD_INODE \<or> ftype (file_at s f) = FD_DEVICE
     then case fip (file_at s f) of None \<Rightarrow> Panic ''ilock''
       | Some ip \<Rightarrow>
          andthen (ilock (Some ip) s) (\<lambda>_ s.
          let st = stati ip s in
          andthen (iunlock (Some ip) s) (\<lambda>_ s.
          andthen (copyout (pagetable (proc_at s p)) va (stat_bytes st) s) (\<lambda>r s.
          Done (if r < 0 then - 1 else 0) s)))
     else Done (- 1) s)"

text \<open>A call through \<open>devsw\<close>, with \<open>user_dst\<close> or \<open>user_src\<close> 1.\<close>

definition devcall :: "devfn \<Rightarrow> u64 \<Rightarrow> int \<Rightarrow> 'a cons_state_scheme \<Rightarrow> (int, 'a cons_state_scheme) res" where
  "devcall fn va n s =
     (case fn of Consoleread \<Rightarrow> andthen (consoleread (UserDst va) n s) (\<lambda>(r, _) s. Done r s)
      | Consolewrite \<Rightarrow> consolewrite (UserSrc va) n s)"

definition fileread :: "nat \<Rightarrow> u64 \<Rightarrow> int \<Rightarrow> 'a file_state_scheme \<Rightarrow> (int, 'a file_state_scheme) res" where
  "fileread f va n s =
     (if \<not> readable (file_at s f) then Done (- 1) s
      else case ftype (file_at s f) of
        FD_PIPE \<Rightarrow> piperead (fpipe (file_at s f)) va n s
      | FD_DEVICE \<Rightarrow>
          (let m = sint (fmajor (file_at s f)) in
           if m < 0 \<or> m \<ge> int NDEV then Done (- 1) s
           else case devsw_read s ! nat m of None \<Rightarrow> Done (- 1) s | Some fn \<Rightarrow> devcall fn va n s)
      | FD_INODE \<Rightarrow>
          (case fip (file_at s f) of None \<Rightarrow> Panic ''ilock''
           | Some ip \<Rightarrow>
              andthen (ilock (Some ip) s) (\<lambda>_ s.
              andthen (readi ip (UserDst va) (foff (file_at s f)) (word_of_int n) s) (\<lambda>(r, _) s.
              let s = (if r > 0 then upd_file f (\<lambda>x. x\<lparr>foff := foff x + word_of_int r\<rparr>) s else s) in
              andthen (iunlock (Some ip) s) (\<lambda>_ s. Done r s))))
      | FD_NONE \<Rightarrow> Panic ''fileread'')"

text \<open>The most a single transaction of \<open>filewrite\<close> writes.\<close>

definition filewrite_max :: int where
  "filewrite_max = (int MAXOPBLOCKS - 1 - 1 - 2) div 2 * int BSIZE"

function filewrite_loop :: "nat \<Rightarrow> nat \<Rightarrow> u64 \<Rightarrow> int \<Rightarrow> int \<Rightarrow> 'a file_state_scheme \<Rightarrow> (int, 'a file_state_scheme) res" where
  "filewrite_loop f ip va i n s =
     (if i < n
      then let n1 = min (n - i) filewrite_max in
           andthen (begin_op s) (\<lambda>_ s.
           andthen (ilock (Some ip) s) (\<lambda>_ s.
           andthen (writei ip (UserSrc (va + word_of_int i)) (foff (file_at s f)) (word_of_int n1) s) (\<lambda>r s.
           let s = (if r > 0 then upd_file f (\<lambda>x. x\<lparr>foff := foff x + word_of_int r\<rparr>) s else s) in
           andthen (iunlock (Some ip) s) (\<lambda>_ s.
           andthen (end_op s) (\<lambda>_ s.
           if r \<noteq> n1 then Done (if i = n then n else - 1) s else filewrite_loop f ip va (i + n1) n s)))))
      else Done (if i = n then n else - 1) s)"
  by pat_completeness auto

termination by (relation "measure (\<lambda>(_, _, _, i, n, _). nat (n - i))") (auto simp: filewrite_max_def)

declare filewrite_loop.simps [simp del]

definition filewrite :: "nat \<Rightarrow> u64 \<Rightarrow> int \<Rightarrow> 'a file_state_scheme \<Rightarrow> (int, 'a file_state_scheme) res" where
  "filewrite f va n s =
     (if \<not> writable (file_at s f) then Done (- 1) s
      else case ftype (file_at s f) of
        FD_PIPE \<Rightarrow> pipewrite (fpipe (file_at s f)) va n s
      | FD_DEVICE \<Rightarrow>
          (let m = sint (fmajor (file_at s f)) in
           if m < 0 \<or> m \<ge> int NDEV then Done (- 1) s
           else case devsw_write s ! nat m of None \<Rightarrow> Done (- 1) s | Some fn \<Rightarrow> devcall fn va n s)
      | FD_INODE \<Rightarrow>
          (case fip (file_at s f) of
             None \<Rightarrow> if 0 < n then andthen (begin_op s) (\<lambda>_ s. Panic ''ilock'') else Done (if n = 0 then 0 else - 1) s
           | Some ip \<Rightarrow> filewrite_loop f ip va 0 n s)
      | FD_NONE \<Rightarrow> Panic ''filewrite'')"

end
