(* ===== verification/Vm_Tables.thy ===== *)
theory Vm_Tables
  imports Vm
begin

text \<open>
  Page tables as trees of table pages in physical memory: the invariant \<open>pt_ok\<close> (no table page is
  shared, all are legal pages and none is free), the view \<open>pte_at\<close> of a table as a function from
  virtual addresses to entries, and what \<open>walk\<close> and \<open>mappages\<close> of \<open>kernel/vm.c\<close> do to both.
\<close>

section \<open>Page-table entries and indices\<close>

lemma PX_mask: "PX l va = drop_bit (12 + 9 * l) va AND mask 9"
  by (simp add: PX_def PXSHIFT_def PXMASK_def mask_eq_exp_minus_1)

lemma PX_bit: "bit (PX l va) n \<longleftrightarrow> n < 9 \<and> bit va (12 + 9 * l + n)"
  by (auto simp: PX_mask bit_simps)

lemma PX_less [simp]: "PX l va < 512"
  using and_mask_less' [of 9 "drop_bit (12 + 9 * l) va"] by (simp add: PX_mask)

lemma less_exp_bit: "(w :: u64) < 2 ^ k \<Longrightarrow> bit w n \<Longrightarrow> n < k"
  using less_mask_eq [of w k] by (metis bit_and_iff bit_mask_iff)

lemma PGROUNDDOWN_bit: "bit (PGROUNDDOWN va) n \<longleftrightarrow> 12 \<le> n \<and> bit va n"
  by (auto simp: PGROUNDDOWN_drop_bit bit_simps dest: bit_imp_le_length)

text \<open>Below \<open>MAXVA\<close> the three indices of an address determine its page.\<close>

lemma PX_eq_iff:
  assumes "va < MAXVA" and "va' < MAXVA"
  shows "PX 2 va = PX 2 va' \<and> PX 1 va = PX 1 va' \<and> PX 0 va = PX 0 va' \<longleftrightarrow>
    PGROUNDDOWN va = PGROUNDDOWN va'" (is "?L \<longleftrightarrow> ?R")
proof
  assume L: ?L
  show ?R
  proof (rule bit_word_eqI)
    fix n :: nat
    have b: "\<not> bit va k" "\<not> bit va' k" if "38 \<le> k" for k
      using assms less_exp_bit [of va 38 k] less_exp_bit [of va' 38 k] that by (auto simp: MAXVA_def)
    have px: "bit va (12 + 9 * l + k) = bit va' (12 + 9 * l + k)" if "k < 9" "l \<in> {0, 1, 2}" for l k
    proof -
      have "PX l va = PX l va'" using L that(2) by auto
      then show ?thesis using that(1) by (metis PX_bit)
    qed
    consider "n < 12" | "12 \<le> n" "n < 21" | "21 \<le> n" "n < 30" | "30 \<le> n" "n < 39" | "39 \<le> n"
      by linarith
    then show "bit (PGROUNDDOWN va) n = bit (PGROUNDDOWN va') n"
      using px [of "n - 12" 0] px [of "n - 21" 1] px [of "n - 30" 2] b
      by cases (auto simp: PGROUNDDOWN_bit)
  qed
next
  assume R: ?R
  have "PX l va = PX l va'" for l
  proof (rule bit_word_eqI)
    fix n
    show "bit (PX l va) n = bit (PX l va') n"
      using arg_cong [OF R, of "\<lambda>w. bit w (12 + 9 * l + n)"] by (auto simp: PX_bit PGROUNDDOWN_bit)
  qed
  then show ?L by simp
qed

lemma PTE_V_bit: "e AND PTE_V = 0 \<longleftrightarrow> \<not> bit e 0"
  using and_exp_eq_0_iff_not_bit [of e 0] by (simp add: PTE_V_def)

lemma PTE_U_bit: "e AND PTE_U = 0 \<longleftrightarrow> \<not> bit e 4"
  using and_exp_eq_0_iff_not_bit [of e 4] by (simp add: PTE_U_def)

lemma PTE_RWX_bit: "e AND (PTE_R OR PTE_W OR PTE_X) = 0 \<longleftrightarrow> \<not> bit e 1 \<and> \<not> bit e 2 \<and> \<not> bit e 3"
proof -
  have "e AND (PTE_R OR PTE_W OR PTE_X) = (e AND PTE_R) OR (e AND PTE_W) OR (e AND PTE_X)"
    by (rule bit_word_eqI) (auto simp: bit_simps)
  then show ?thesis
    using and_exp_eq_0_iff_not_bit [of e 1] and_exp_eq_0_iff_not_bit [of e 2]
      and_exp_eq_0_iff_not_bit [of e 3]
    by (simp add: or_eq_0_iff PTE_R_def PTE_W_def PTE_X_def)
qed

lemma PTE_FLAGS_mask: "PTE_FLAGS e = e AND mask 10"
  by (simp add: PTE_FLAGS_def mask_eq_exp_minus_1)

lemma aligned_bit: "aligned p \<Longrightarrow> bit p n \<Longrightarrow> 12 \<le> n"
  using PGROUNDDOWN_of_aligned [of p] PGROUNDDOWN_bit [of p n] by simp

text \<open>An entry made from a page address and permission bits gives both back.\<close>

lemma PTE_fields:
  assumes "aligned pa" and "pa < 2 ^ 54" and "perm < 1024"
  shows "PTE2PA (PA2PTE pa OR perm OR PTE_V) = pa"
    and "PTE_FLAGS (PA2PTE pa OR perm OR PTE_V) = perm OR PTE_V"
    and "bit (PA2PTE pa OR perm OR PTE_V) 0"
proof -
  have p: "n < 10" if "bit perm n" for n using less_exp_bit [of perm 10 n] assms(3) that by simp
  have a: "12 \<le> n" "n < 54" if "bit pa n" for n
    using aligned_bit [OF assms(1) that] less_exp_bit [OF assms(2) that] by auto
  have "12 + (n - 12) = n" "\<not> bit perm (10 + (n - 12))" if "bit pa n" for n
    using a [OF that] p [of "10 + (n - 12)"] by auto
  then show "PTE2PA (PA2PTE pa OR perm OR PTE_V) = pa"
    by (intro bit_word_eqI) (auto simp: PTE2PA_def PA2PTE_def PTE_V_def bit_simps dest: p a)
  show "PTE_FLAGS (PA2PTE pa OR perm OR PTE_V) = perm OR PTE_V"
    by (rule bit_word_eqI) (auto simp: PTE_FLAGS_mask PA2PTE_def PTE_V_def bit_simps dest: p a)
  show "bit (PA2PTE pa OR perm OR PTE_V) 0" by (simp add: PTE_V_def bit_simps)
qed

lemma PTE_table:
  assumes "aligned pa" and "pa < 2 ^ 54"
  shows "PTE2PA (PA2PTE pa OR PTE_V) = pa" and "PTE_FLAGS (PA2PTE pa OR PTE_V) = PTE_V"
    and "bit (PA2PTE pa OR PTE_V) 0"
  using PTE_fields [OF assms, of 0] by simp_all

lemma PTE2PA_aligned [simp]: "aligned (PTE2PA e)"
proof -
  have "PGROUNDDOWN (PTE2PA e) = PTE2PA e"
    by (rule bit_word_eqI) (auto simp: PGROUNDDOWN_bit PTE2PA_def bit_simps)
  then show ?thesis by (metis PGROUNDDOWN_aligned)
qed

section \<open>The table pages\<close>

text \<open>The table page reached from the root by a path of indices.\<close>

fun node :: "mem \<Rightarrow> u64 \<Rightarrow> u64 list \<Rightarrow> u64 option" where
  "node m pt [] = Some pt"
| "node m pt (i # is) =
     (let e = load64 m (pt + 8 * i) in if e AND PTE_V \<noteq> 0 then node m (PTE2PA e) is else None)"

definition table_paths :: "u64 list set" where
  "table_paths = {is. length is \<le> 2 \<and> (\<forall>i\<in>set is. i < 512)}"

definition tables :: "mem \<Rightarrow> u64 \<Rightarrow> u64 set" where
  "tables m pt = {t. \<exists>is\<in>table_paths. node m pt is = Some t}"

text \<open>
  A well-formed table is a tree: no table page is reached along two paths; and the entries that
  lead to table pages carry no permission bits.
\<close>

definition pt_tree :: "mem \<Rightarrow> u64 \<Rightarrow> bool" where
  "pt_tree m pt \<longleftrightarrow>
     (\<forall>is\<in>table_paths. \<forall>js\<in>table_paths. node m pt is \<noteq> None \<longrightarrow> node m pt is = node m pt js \<longrightarrow> is = js)
     \<and> (\<forall>is i t. is @ [i] \<in> table_paths \<and> node m pt is = Some t \<and> load64 m (t + 8 * i) AND PTE_V \<noteq> 0
          \<longrightarrow> PTE_FLAGS (load64 m (t + 8 * i)) = PTE_V)"

definition pt_ok :: "'a kmem_state_scheme \<Rightarrow> u64 \<Rightarrow> u64 list \<Rightarrow> bool" where
  "pt_ok s pt fl \<longleftrightarrow> free_pages s fl \<and> pt_tree (mem s) pt
     \<and> (\<forall>t\<in>tables (mem s) pt. page_ok s t \<and> t \<notin> set fl)"

text \<open>The entry that \<open>walk\<close> finds for an address; 0 (invalid) where a table page is missing.\<close>

definition leaf_table :: "mem \<Rightarrow> u64 \<Rightarrow> u64 \<Rightarrow> u64 option" where
  "leaf_table m pt va = node m pt [PX 2 va, PX 1 va]"

definition pte_at :: "mem \<Rightarrow> u64 \<Rightarrow> u64 \<Rightarrow> u64" where
  "pte_at m pt va = (case leaf_table m pt va of None \<Rightarrow> 0 | Some t \<Rightarrow> load64 m (t + 8 * PX 0 va))"

lemma node_append: "node m pt (is @ js) = (case node m pt is of None \<Rightarrow> None | Some t \<Rightarrow> node m t js)"
  by (induction "is" arbitrary: pt) (auto simp: Let_def)

text \<open>A path is not affected by memory changes outside the entries it uses.\<close>

lemma node_cong:
  "(\<And>js i ks t. is = js @ i # ks \<Longrightarrow> node m pt js = Some t \<Longrightarrow> load64 m' (t + 8 * i) = load64 m (t + 8 * i))
   \<Longrightarrow> node m' pt is = node m pt is"
proof (induction "is" arbitrary: pt)
  case (Cons i "is")
  have "load64 m' (pt + 8 * i) = load64 m (pt + 8 * i)"
    using Cons.prems [of "[]" i "is" pt] by simp
  moreover have "node m' t is = node m t is" if "node m pt [i] = Some t" for t
  proof (rule Cons.IH)
    fix js k ks u assume "is = js @ k # ks" and "node m t js = Some u"
    then show "load64 m' (u + 8 * k) = load64 m (u + 8 * k)"
      using Cons.prems [of "i # js" k ks u] that by (auto simp: Let_def split: if_splits)
  qed
  ultimately show ?case by (auto simp: Let_def)
qed simp

lemma walk_noalloc:
  "va < MAXVA \<Longrightarrow> walk pt va False s =
     Done (case leaf_table (mem s) pt va of None \<Rightarrow> 0 | Some t \<Rightarrow> t + 8 * PX 0 va) s"
  by (simp add: walk_def leaf_table_def numeral_2_eq_2 Let_def not_le)

lemma pt_treeD:
  "pt_tree m pt \<Longrightarrow> is \<in> table_paths \<Longrightarrow> js \<in> table_paths \<Longrightarrow> node m pt is = Some t \<Longrightarrow> node m pt js = Some t \<Longrightarrow> is = js"
  by (simp add: pt_tree_def)

lemma tablesI: "is \<in> table_paths \<Longrightarrow> node m pt is = Some t \<Longrightarrow> t \<in> tables m pt"
  by (auto simp: tables_def)

lemma table_paths_prefix: "js @ ks \<in> table_paths \<Longrightarrow> js \<in> table_paths"
  by (auto simp: table_paths_def)

lemma leaf_path [simp]: "[PX 2 va, PX 1 va] \<in> table_paths"
  by (simp add: table_paths_def)

lemma pt_ok_table: "pt_ok s pt fl \<Longrightarrow> is \<in> table_paths \<Longrightarrow> node (mem s) pt is = Some t \<Longrightarrow> page_ok s t \<and> t \<notin> set fl"
  by (auto simp: pt_ok_def intro: tablesI)

lemma slot_nonzero: "aligned t \<Longrightarrow> t \<noteq> 0 \<Longrightarrow> i < 512 \<Longrightarrow> t + 8 * i \<noteq> 0"
  using slot_page [of t i 0] by (auto simp: PGROUNDDOWN_def)

text \<open>Only memory and the head of the free list differ.\<close>

definition mem_only :: "'a kmem_state_scheme \<Rightarrow> 'a kmem_state_scheme \<Rightarrow> bool" where
  "mem_only s s' \<longleftrightarrow> (\<exists>m f. s' = s\<lparr>mem := m, freelist := f\<rparr>)"

lemma mem_only_refl [simp]: "mem_only s s"
  unfolding mem_only_def by (intro exI [of _ "mem s"] exI [of _ "freelist s"]) simp

lemma mem_only_trans: "mem_only s s' \<Longrightarrow> mem_only s' s'' \<Longrightarrow> mem_only s s''"
  unfolding mem_only_def by (elim exE, simp) blast

lemma mem_only_upd [simp]:
  "mem_only s (s\<lparr>mem := m\<rparr>)" "mem_only s (s\<lparr>mem := m, freelist := f\<rparr>)" "mem_only s (s\<lparr>freelist := f, mem := m\<rparr>)"
proof -
  have "s\<lparr>mem := m\<rparr> = s\<lparr>mem := m, freelist := freelist s\<rparr>" by simp
  then show "mem_only s (s\<lparr>mem := m\<rparr>)" unfolding mem_only_def by blast
  show "mem_only s (s\<lparr>mem := m, freelist := f\<rparr>)" unfolding mem_only_def by blast
  moreover have "s\<lparr>freelist := f, mem := m\<rparr> = s\<lparr>mem := m, freelist := f\<rparr>" by simp
  ultimately show "mem_only s (s\<lparr>freelist := f, mem := m\<rparr>)" by (simp only:)
qed

lemma mem_onlyD: "mem_only s s' \<Longrightarrow> held s' = held s \<and> ien s' = ien s \<and> kend s' = kend s \<and> page_ok s' = page_ok s"
  by (auto simp: mem_only_def fun_eq_iff)

text \<open>What an operation on a page table may change: it takes the first \<open>n\<close> free pages as table
  pages and leaves all memory outside the tables alone.\<close>

definition pt_ext :: "'a kmem_state_scheme \<Rightarrow> u64 \<Rightarrow> u64 list \<Rightarrow> nat \<Rightarrow> 'a kmem_state_scheme \<Rightarrow> bool" where
  "pt_ext s pt fl n s' \<longleftrightarrow> n \<le> length fl \<and> pt_ok s' pt (drop n fl)
     \<and> tables (mem s') pt = tables (mem s) pt \<union> set (take n fl)
     \<and> (\<forall>q. q \<notin> tables (mem s) pt \<union> set (take n fl) \<longrightarrow> page_eq (mem s) (mem s') q)
     \<and> mem_only s s'"

lemma pt_ext_refl: "pt_ok s pt fl \<Longrightarrow> pt_ext s pt fl 0 s"
  by (simp add: pt_ext_def)

lemma pt_ext_trans:
  assumes "pt_ext s pt fl n s'" and "pt_ext s' pt (drop n fl) k s''"
  shows "pt_ext s pt fl (n + k) s''"
proof -
  have "set (take (n + k) fl) = set (take n fl) \<union> set (take k (drop n fl))"
    by (simp add: take_add)
  then show ?thesis
    using assms unfolding pt_ext_def by (auto intro: page_eq_trans mem_only_trans simp: add.commute)
qed

section \<open>Adding a table page\<close>

lemma entry_insert:
  assumes "aligned t" and "aligned r" and "aligned u" and "t \<noteq> r" and "i < 512" and "k < 512"
  shows "load64 (store64 (memset m r 0 4096) (t + 8 * i) v) (u + 8 * k) =
    (if u = t \<and> k = i then v else if u = r then 0 else load64 m (u + 8 * k))"
proof -
  have "load64 (memset m r 0 4096) (u + 8 * k) = (if u = r then 0 else load64 m (u + 8 * k))"
    using assms load64_page_eq [OF memset_other_page [OF assms(2), of u]]
      load64_zero_page [of r "memset m r 0 4096" k] by (simp add: memset_page)
  moreover have "load64 (store64 (memset m r 0 4096) (t + 8 * i) v) (u + 8 * k) =
      load64 (memset m r 0 4096) (u + 8 * k)" if "u \<noteq> t"
    using load64_page_eq [OF store64_other_page [OF assms(1,5) that]] assms by simp
  ultimately show ?thesis
    using assms by (cases "u = t") (simp_all add: load64_store64_slot)
qed

lemma node_insert:
  assumes tree: "pt_tree m pt" and path: "is @ [i] \<in> table_paths" and t: "node m pt is = Some t"
    and inval: "load64 m (t + 8 * i) AND PTE_V = 0"
    and al: "\<forall>u\<in>tables m pt. aligned u" and r: "r \<notin> tables m pt" "aligned r" "r < 2 ^ 54"
    and m': "m' = store64 (memset m r 0 4096) (t + 8 * i) (PA2PTE r OR PTE_V)" and js: "js \<in> table_paths"
  shows "node m' pt js = (if js = is @ [i] then Some r else node m pt js)"
proof -
  have i: "i < 512" and isp: "is \<in> table_paths" using path by (auto simp: table_paths_def)
  have tt: "t \<in> tables m pt" "aligned t" "t \<noteq> r" using tablesI [OF isp t] al r by auto
  note entry = entry_insert [OF tt(2) r(2) _ tt(3) i, of _ _ m "PA2PTE r OR PTE_V", folded m']
  have same: "load64 m' (u + 8 * k) = load64 m (u + 8 * k)"
    if "node m pt as = Some u" "as \<in> table_paths" "k < 512" "as \<noteq> is \<or> k \<noteq> i" for as u k
  proof -
    have "u \<in> tables m pt" "u \<noteq> t \<or> k \<noteq> i"
      using that tablesI pt_treeD [OF tree that(2) isp that(1)] t by auto
    then show ?thesis using entry [of u k] that al r by auto
  qed
  have nt: "node m' pt is = Some t"
    using isp path by (subst node_cong [of _ m]) (auto intro!: same simp: t table_paths_def)
  show ?thesis
  proof (cases "\<exists>ks. js = is @ i # ks")
    case False
    have "node m' pt js = node m pt js"
    proof (rule node_cong)
      fix as k ks u assume "js = as @ k # ks" "node m pt as = Some u"
      then show "load64 m' (u + 8 * k) = load64 m (u + 8 * k)"
        using js False by (intro same) (auto simp: table_paths_def)
    qed
    then show ?thesis using False by auto
  next
    case True
    then obtain ks where ks: "js = is @ i # ks" by auto
    have "node m' pt js = node m' r ks"
      unfolding ks node_append using nt entry [of t i] tt i PTE_table(1,3) [OF r(2,3)]
      by (simp add: PTE_V_bit)
    also have "\<dots> = (if ks = [] then Some r else None)"
      using js entry [of r] tt r by (cases ks) (auto simp: ks table_paths_def)
    finally show ?thesis using inval t by (simp add: ks node_append)
  qed
qed

lemma memset_memset: "aligned p \<Longrightarrow> memset (memset m p c 4096) p d 4096 = memset m p d 4096"
  by (rule ext) (simp add: memset_page)

lemma page_ok_bound: "page_ok s p \<Longrightarrow> p < 2 ^ 54"
  by (auto simp: page_ok_def word_less_nat_alt)

lemma tables_insert:
  assumes "pt_tree m pt" "is @ [i] \<in> table_paths" "r \<notin> tables m pt"
    and "\<And>js. js \<in> table_paths \<Longrightarrow> node m' pt js = (if js = is @ [i] then Some r else node m pt js)"
    and "node m pt (is @ [i]) = None"
  shows "tables m' pt = insert r (tables m pt)"
proof (rule set_eqI)
  fix x
  have "x \<in> tables m' pt \<longleftrightarrow> (\<exists>js\<in>table_paths. (if js = is @ [i] then r = x else node m pt js = Some x))"
    using assms(4) by (auto simp: tables_def split: if_splits)
  also have "\<dots> \<longleftrightarrow> x = r \<or> x \<in> tables m pt"
  proof
    assume "x = r \<or> x \<in> tables m pt"
    then obtain js where "js \<in> table_paths" "x = r \<and> js = is @ [i] \<or> node m pt js = Some x"
      using assms(2) by (auto simp: tables_def)
    then show "\<exists>js\<in>table_paths. (if js = is @ [i] then r = x else node m pt js = Some x)"
      using assms(5) by (intro bexI [of _ js]) auto
  qed (auto simp: tables_def split: if_splits)
  finally show "x \<in> tables m' pt \<longleftrightarrow> x \<in> insert r (tables m pt)" by simp
qed

lemma pt_tree_insert:
  assumes tree: "pt_tree m pt" and path: "is @ [i] \<in> table_paths" and t: "node m pt is = Some t"
    and inval: "load64 m (t + 8 * i) AND PTE_V = 0"
    and al: "\<forall>u\<in>tables m pt. aligned u" and r: "r \<notin> tables m pt" "aligned r" "r < 2 ^ 54"
    and m': "m' = store64 (memset m r 0 4096) (t + 8 * i) (PA2PTE r OR PTE_V)"
  shows "pt_tree m' pt"
proof -
  have i: "i < 512" and isp: "is \<in> table_paths" using path by (auto simp: table_paths_def)
  have tt: "aligned t" "t \<noteq> r" using tablesI [OF isp t] al r by auto
  note nd = node_insert [OF tree path t inval al r m']
  note entry = entry_insert [OF tt(1) r(2) _ tt(2) i, of _ _ m "PA2PTE r OR PTE_V", folded m']
  have rn: "node m pt as \<noteq> Some r" if "as \<in> table_paths" for as
    using r(1) tablesI [OF that] by auto
  have "as = bs" if "as \<in> table_paths" "bs \<in> table_paths" "node m' pt as \<noteq> None" "node m' pt as = node m' pt bs" for as bs
    using that nd [of as] nd [of bs] rn [of as] rn [of bs] pt_treeD [OF tree, of as bs]
    by (auto split: if_splits)
  moreover have "PTE_FLAGS (load64 m' (u + 8 * k)) = PTE_V"
    if H: "as @ [k] \<in> table_paths" "node m' pt as = Some u" "load64 m' (u + 8 * k) AND PTE_V \<noteq> 0" for as k u
  proof -
    have as: "as \<in> table_paths" and k: "k < 512" using H(1) by (auto simp: table_paths_def)
    have "u = r \<or> u \<in> tables m pt \<and> node m pt as = Some u"
      using nd [OF as] H(2) as by (auto split: if_splits intro: tablesI)
    then consider "u = r" | "u = t" "k = i" | "node m pt as = Some u" "aligned u" "u \<noteq> r" "\<not> (u = t \<and> k = i)"
      using al r by blast
    then show ?thesis
    proof cases
      case 3
      then show ?thesis using entry [of u k] H k tree unfolding pt_tree_def by auto
    qed (use entry [of u k] H k r tt PTE_table(2) [OF r(2,3)] in auto)
  qed
  ultimately show ?thesis unfolding pt_tree_def by blast
qed

lemma pte_at_insert:
  assumes tree: "pt_tree m pt" and path: "is @ [i] \<in> table_paths" and t: "node m pt is = Some t"
    and inval: "load64 m (t + 8 * i) AND PTE_V = 0"
    and al: "\<forall>u\<in>tables m pt. aligned u" and r: "r \<notin> tables m pt" "aligned r" "r < 2 ^ 54"
    and m': "m' = store64 (memset m r 0 4096) (t + 8 * i) (PA2PTE r OR PTE_V)"
  shows "pte_at m' pt va = pte_at m pt va"
proof -
  have i: "i < 512" and isp: "is \<in> table_paths" "length is < 2" using path by (auto simp: table_paths_def)
  have tt: "aligned t" "t \<noteq> r" using tablesI [OF isp(1) t] al r by auto
  note nd = node_insert [OF tree path t inval al r m' leaf_path [of va]]
  note entry = entry_insert [OF tt(1) r(2) _ tt(2) i, of _ _ m "PA2PTE r OR PTE_V", folded m']
  show ?thesis
  proof (cases "[PX 2 va, PX 1 va] = is @ [i]")
    case True
    then have "leaf_table m' pt va = Some r" "leaf_table m pt va = None"
      using nd inval t by (simp_all only: leaf_table_def True node_append) (simp_all add: node_append)
    then show ?thesis using entry [of r "PX 0 va"] r tt by (simp add: pte_at_def)
  next
    case False
    have "u \<in> tables m pt \<and> u \<noteq> t" if u: "leaf_table m pt va = Some u" for u
      using u tablesI [OF leaf_path] pt_treeD [OF tree leaf_path isp(1), of va u] isp t
      by (auto simp: leaf_table_def)
    then show ?thesis
      using False nd entry al r by (auto simp: pte_at_def leaf_table_def split: option.splits)
  qed
qed

text \<open>\<open>kalloc\<close>, clearing the page and entering it into slot \<open>i\<close> of table page \<open>t\<close>.\<close>

lemma pt_ext_insert:
  assumes ok: "pt_ok s pt (r # fl)" and path: "is @ [i] \<in> table_paths" and t: "node (mem s) pt is = Some t"
    and inval: "load64 (mem s) (t + 8 * i) AND PTE_V = 0"
    and s': "s' = s\<lparr>freelist := load64 (mem s) r, mem := store64 (memset (mem s) r 0 4096) (t + 8 * i) (PA2PTE r OR PTE_V)\<rparr>"
  shows "pt_ext s pt (r # fl) 1 s'" and "pte_at (mem s') pt va = pte_at (mem s) pt va"
    and "node (mem s') pt (is @ [i]) = Some r"
proof -
  have i: "i < 512" and isp: "is \<in> table_paths" using path by (auto simp: table_paths_def)
  have tree: "pt_tree (mem s) pt" and fp: "free_pages s (r # fl)"
    and tok: "\<forall>u\<in>tables (mem s) pt. page_ok s u \<and> u \<notin> set (r # fl)" using ok by (auto simp: pt_ok_def)
  have r: "page_ok s r" "r \<notin> set fl" using fp by (auto simp: free_pages_def)
  have r': "r \<notin> tables (mem s) pt" "aligned r" "r < 2 ^ 54"
    using tok r(1) page_ok_aligned page_ok_bound [OF r(1)] by auto
  have al: "\<forall>u\<in>tables (mem s) pt. aligned u" using tok by (auto simp: page_ok_aligned)
  have tt: "aligned t" "t \<in> tables (mem s) pt" using tablesI [OF isp t] al by auto
  have m': "mem s' = store64 (memset (mem s) r 0 4096) (t + 8 * i) (PA2PTE r OR PTE_V)" by (simp add: s')
  note nd = node_insert [OF tree path t inval al r' m']
  show "pte_at (mem s') pt va = pte_at (mem s) pt va"
    by (rule pte_at_insert [OF tree path t inval al r' m'])
  show "node (mem s') pt (is @ [i]) = Some r" using nd [OF path] by simp
  have tb: "tables (mem s') pt = insert r (tables (mem s) pt)"
    using tables_insert [OF tree path r'(1) nd] inval t by (simp add: node_append)
  have pe: "page_eq (mem s) (mem s') q" if "q \<notin> insert r (tables (mem s) pt)" for q
    unfolding m' using that tt i r'(2)
    by (intro page_eq_trans [OF memset_other_page store64_other_page]) auto
  have "free_pages (s\<lparr>freelist := load64 (mem s) r\<rparr>) fl" using fp by (auto simp: free_pages_def)
  moreover have "page_eq (mem s) (mem s') q" if "q \<in> set fl" for q
    using pe [of q] tok r(2) that by auto
  ultimately have "free_pages s' fl"
    using free_pages_write [of "s\<lparr>freelist := load64 (mem s) r\<rparr>" fl "mem s'"] by (simp add: s')
  then have "pt_ok s' pt fl"
    using pt_tree_insert [OF tree path t inval al r' m'] tok r by (auto simp: pt_ok_def tb) (auto simp: s')
  then show "pt_ext s pt (r # fl) 1 s'"
    using pe by (auto simp: pt_ext_def tb) (auto simp: s')
qed

lemma walk_loop_alloc:
  assumes "pt_ok s pt fl" and "node (mem s) pt is = Some t" and "[PX 2 va, PX 1 va] = is @ js" and "length js = l"
  shows "returns (walk_loop l t va True s) (\<lambda>r s'. \<exists>n. pt_ext s pt fl n s'
     \<and> (\<forall>a. pte_at (mem s') pt a = pte_at (mem s) pt a)
     \<and> (if r = 0 then drop n fl = []
        else \<exists>u. leaf_table (mem s') pt va = Some u \<and> r = u + 8 * PX 0 va))"
  using assms
proof (induction l arbitrary: s fl "is" t js)
  case 0
  then have "leaf_table (mem s) pt va = Some t" by (simp add: leaf_table_def)
  moreover have "t + 8 * PX 0 va \<noteq> 0"
  proof (rule slot_nonzero)
    have "page_ok s t" "0 < kend s"
      using calculation pt_ok_table [OF 0(1) leaf_path, of va t] 0(1)
      by (auto simp: leaf_table_def pt_ok_def free_pages_def)
    then show "aligned t" "t \<noteq> 0" by (auto simp: page_ok_aligned dest: page_ok_nonzero)
  qed simp
  ultimately show ?case
    using pt_ext_refl [OF 0(1)] by (auto intro!: exI [of _ 0])
next
  case (Suc l)
  then obtain i js' where js: "js = i # js'" by (cases js) auto
  have path: "is @ [i] \<in> table_paths"
    using leaf_path [of va] unfolding Suc.prems(3) js by (auto simp: table_paths_def)
  have i: "i = PX (Suc l) va" using Suc.prems(3,4) js by (cases "is"; cases js') (auto simp: numeral_2_eq_2)
  let ?e = "load64 (mem s) (t + 8 * i)"
  show ?case
  proof (cases "?e AND PTE_V = 0")
    case False
    then have "node (mem s) pt (is @ [i]) = Some (PTE2PA ?e)"
      using Suc.prems(2) by (simp add: node_append)
    with Suc.IH [OF Suc.prems(1) this, of js'] Suc.prems(3,4) False show ?thesis
      by (simp add: js i Let_def)
  next
    case True
    show ?thesis
    proof (cases fl)
      case Nil
      then have "kalloc s = Done 0 s" using Suc.prems(1) by (simp add: pt_ok_def kalloc_empty)
      then show ?thesis
        using True pt_ext_refl [OF Suc.prems(1)] Nil by (auto simp: i Let_def intro!: exI [of _ 0])
    next
      case (Cons r fl')
      define s' where "s' = s\<lparr>freelist := load64 (mem s) r,
        mem := store64 (memset (mem s) r 0 4096) (t + 8 * i) (PA2PTE r OR PTE_V)\<rparr>"
      note ins = pt_ext_insert [OF Suc.prems(1) [unfolded Cons] path Suc.prems(2) True s'_def]
      have fp: "free_pages s (r # fl')" using Suc.prems(1) Cons by (simp add: pt_ok_def)
      then have r: "aligned r" "r \<noteq> 0" by (auto simp: free_pages_def page_ok_aligned dest: page_ok_nonzero)
      have step: "walk_loop (Suc l) t va True s = walk_loop l r va True s'"
        using True kalloc_Cons [OF fp] r by (simp add: i [symmetric] Let_def s'_def memset_memset)
      have "pt_ok s' pt fl'" using ins(1) by (simp add: pt_ext_def)
      then have IH: "returns (walk_loop l r va True s') (\<lambda>x u. \<exists>n. pt_ext s' pt fl' n u
          \<and> (\<forall>a. pte_at (mem u) pt a = pte_at (mem s') pt a)
          \<and> (if x = 0 then drop n fl' = []
             else \<exists>v. leaf_table (mem u) pt va = Some v \<and> x = v + 8 * PX 0 va))"
        using Suc.prems(3,4) by (intro Suc.IH [OF _ ins(3)]) (simp_all add: js)
      show ?thesis
        unfolding step
      proof (rule returns_mono [OF IH], elim exE conjE)
        fix x u n
        assume e: "pt_ext s' pt fl' n u" and p: "\<forall>a. pte_at (mem u) pt a = pte_at (mem s') pt a"
          and x: "if x = 0 then drop n fl' = [] else \<exists>v. leaf_table (mem u) pt va = Some v \<and> x = v + 8 * PX 0 va"
        have "pt_ext s pt fl (1 + n) u" using pt_ext_trans [OF ins(1)] e by (simp add: Cons)
        moreover have "\<forall>a. pte_at (mem u) pt a = pte_at (mem s) pt a" using p ins(2) by simp
        ultimately show "\<exists>n. pt_ext s pt fl n u \<and> (\<forall>a. pte_at (mem u) pt a = pte_at (mem s) pt a)
            \<and> (if x = 0 then drop n fl = []
               else \<exists>v. leaf_table (mem u) pt va = Some v \<and> x = v + 8 * PX 0 va)"
          using x by (intro exI [of _ "1 + n"]) (simp add: Cons)
      qed
    qed
  qed
qed

lemma walk_alloc:
  assumes "pt_ok s pt fl" and "va < MAXVA"
  shows "returns (walk pt va True s) (\<lambda>r s'. \<exists>n. pt_ext s pt fl n s'
     \<and> (\<forall>a. pte_at (mem s') pt a = pte_at (mem s) pt a)
     \<and> (if r = 0 then drop n fl = []
        else \<exists>u. leaf_table (mem s') pt va = Some u \<and> r = u + 8 * PX 0 va))"
  using walk_loop_alloc [OF assms(1), of "[]" pt va _ 2] assms(2) by (simp add: walk_def not_le)

text \<open>Writing an entry of a leaf table.\<close>

lemma node_leaf_store:
  assumes tree: "pt_tree m pt" and al: "\<forall>u\<in>tables m pt. aligned u" and lt: "leaf_table m pt va = Some t"
    and m': "m' = store64 m (t + 8 * PX 0 va) v" and js: "js \<in> table_paths"
  shows "node m' pt js = node m pt js"
proof (rule node_cong)
  fix as k ks u assume H: "js = as @ k # ks" "node m pt as = Some u"
  have as: "as \<in> table_paths" "length as < 2" and k: "k < 512" using H(1) js by (auto simp: table_paths_def)
  have "u \<noteq> t" using pt_treeD [OF tree as(1) leaf_path H(2)] lt as(2) by (auto simp: leaf_table_def)
  moreover have "aligned u" "aligned t"
    using al tablesI [OF as(1) H(2)] tablesI [OF leaf_path] lt by (auto simp: leaf_table_def)
  ultimately show "load64 m' (u + 8 * k) = load64 m (u + 8 * k)"
    unfolding m' using k by (intro load64_page_eq store64_other_page) auto
qed

lemma pt_ext_leaf_store:
  assumes ok: "pt_ok s pt fl" and lt: "leaf_table (mem s) pt va = Some t"
    and s': "s' = s\<lparr>mem := store64 (mem s) (t + 8 * PX 0 va) v\<rparr>"
  shows "pt_ext s pt fl 0 s'"
proof -
  have tree: "pt_tree (mem s) pt" and fp: "free_pages s fl"
    and tok: "\<forall>u\<in>tables (mem s) pt. page_ok s u \<and> u \<notin> set fl" using ok by (auto simp: pt_ok_def)
  have al: "\<forall>u\<in>tables (mem s) pt. aligned u" using tok by (auto simp: page_ok_aligned)
  have m': "mem s' = store64 (mem s) (t + 8 * PX 0 va) v" by (simp add: s')
  note nd = node_leaf_store [OF tree al lt m']
  have t: "t \<in> tables (mem s) pt" "aligned t"
    using tablesI [OF leaf_path] lt al by (auto simp: leaf_table_def)
  have pe: "page_eq (mem s) (mem s') q" if "q \<noteq> t" for q
    unfolding m' using that t by (intro store64_other_page) auto
  have tb: "tables (mem s') pt = tables (mem s) pt" using nd by (simp add: tables_def)
  have "page_eq (mem s) (mem s') q" if "q \<in> set fl" for q
    using pe [of q] tok t that by auto
  then have "free_pages s' fl"
    using free_pages_write [OF fp, of "mem s'"] by (simp add: s')
  moreover have "pt_tree (mem s') pt"
  proof -
    have "load64 (mem s') (u + 8 * k) = load64 (mem s) (u + 8 * k)"
      if "as @ [k] \<in> table_paths" "node (mem s) pt as = Some u" for as k u
    proof -
      have as: "as \<in> table_paths" "length as < 2" "k < 512" using that by (auto simp: table_paths_def)
      then have "u \<noteq> t" "aligned u"
        using pt_treeD [OF tree as(1) leaf_path that(2)] lt al tablesI [OF as(1) that(2)]
        by (auto simp: leaf_table_def)
      then show ?thesis using load64_page_eq [OF pe] as by auto
    qed
    moreover have "as \<in> table_paths" if "as @ [k] \<in> table_paths" for as k
      using that by (rule table_paths_prefix)
    ultimately show ?thesis using tree nd unfolding pt_tree_def by (metis (no_types, lifting))
  qed
  moreover have "page_eq (mem s) (mem s') q" if "q \<notin> tables (mem s) pt" for q
    using pe [of q] t that by auto
  ultimately show ?thesis
    using tok by (simp add: pt_ext_def pt_ok_def tb) (simp add: s')
qed

lemma leaf_table_leaf_store:
  assumes "pt_ok s pt fl" and "leaf_table (mem s) pt va = Some t"
  shows "leaf_table (store64 (mem s) (t + 8 * PX 0 va) v) pt va' = leaf_table (mem s) pt va'"
proof -
  have "pt_tree (mem s) pt" "\<forall>u\<in>tables (mem s) pt. aligned u"
    using assms(1) by (auto simp: pt_ok_def page_ok_aligned)
  from node_leaf_store [OF this assms(2) refl leaf_path] show ?thesis by (simp only: leaf_table_def)
qed

lemma pte_at_leaf_store:
  assumes ok: "pt_ok s pt fl" and lt: "leaf_table (mem s) pt va = Some t" and "va < MAXVA" "va' < MAXVA"
  shows "pte_at (store64 (mem s) (t + 8 * PX 0 va) v) pt va' =
     (if PGROUNDDOWN va' = PGROUNDDOWN va then v else pte_at (mem s) pt va')"
proof -
  have tree: "pt_tree (mem s) pt" and al: "\<forall>u\<in>tables (mem s) pt. aligned u"
    using ok by (auto simp: pt_ok_def page_ok_aligned)
  have at: "aligned t" using tablesI [OF leaf_path] lt al by (auto simp: leaf_table_def)
  have lf: "leaf_table (store64 (mem s) (t + 8 * PX 0 va) v) pt va' = leaf_table (mem s) pt va'"
    by (rule leaf_table_leaf_store [OF ok lt])
  have iff: "PGROUNDDOWN va' = PGROUNDDOWN va \<longleftrightarrow> PX 2 va' = PX 2 va \<and> PX 1 va' = PX 1 va \<and> PX 0 va' = PX 0 va"
    using PX_eq_iff [OF assms(4,3)] by simp
  show ?thesis
  proof (cases "leaf_table (mem s) pt va' = Some t")
    case True
    then have "PX 2 va' = PX 2 va \<and> PX 1 va' = PX 1 va"
      using pt_treeD [OF tree leaf_path leaf_path, of va' t va] lt by (simp add: leaf_table_def)
    then show ?thesis using True at by (auto simp: pte_at_def lf iff load64_store64_slot)
  next
    case False
    then have "PGROUNDDOWN va' \<noteq> PGROUNDDOWN va" using lt unfolding leaf_table_def iff by (auto simp del: node.simps)
    moreover have "load64 (store64 (mem s) (t + 8 * PX 0 va) v) (u + 8 * PX 0 va') = load64 (mem s) (u + 8 * PX 0 va')"
      if "leaf_table (mem s) pt va' = Some u" for u
      using that False at al tablesI [OF leaf_path]
      by (intro load64_page_eq store64_other_page) (auto simp: leaf_table_def)
    ultimately show ?thesis by (auto simp: pte_at_def lf split: option.splits)
  qed
qed

section \<open>Mapping a range\<close>

lemma page_range_iff:
  assumes "aligned a"
  shows "PGROUNDDOWN va = a \<longleftrightarrow> unat a \<le> unat va \<and> unat va < unat a + 4096"
proof -
  from unat_aligned [THEN iffD1, OF assms] obtain k where k: "unat a = 4096 * k" ..
  have "PGROUNDDOWN va = a \<longleftrightarrow> unat va div 4096 * 4096 = 4096 * k"
    by (simp add: word_unat_eq_iff unat_PGROUNDDOWN k)
  also have "\<dots> \<longleftrightarrow> unat a \<le> unat va \<and> unat va < unat a + 4096"
    using page_div_iff [of k "unat va"] k by (cases "4096 * k \<le> unat va") (auto simp: )
  finally show ?thesis .
qed

text \<open>The entries of \<open>j\<close> pages from \<open>a\<close> on are given by \<open>f\<close>, all others are unchanged.\<close>

definition pte_upd :: "u64 \<Rightarrow> mem \<Rightarrow> mem \<Rightarrow> u64 \<Rightarrow> nat \<Rightarrow> (u64 \<Rightarrow> u64) \<Rightarrow> bool" where
  "pte_upd pt m m' a j f \<longleftrightarrow> (\<forall>va<MAXVA. pte_at m' pt va =
     (if unat a \<le> unat va \<and> unat va < unat a + 4096 * j then f va else pte_at m pt va))"

lemma pte_upd_0: "(\<And>va. va < MAXVA \<Longrightarrow> pte_at m' pt va = pte_at m pt va) \<Longrightarrow> pte_upd pt m m' a 0 f"
  by (auto simp: pte_upd_def)

lemma pte_upd_Suc:
  assumes "pte_upd pt m m' a 1 f" and "pte_upd pt m' m'' (a + 4096) j f" and "unat (a + 4096) = unat a + 4096"
  shows "pte_upd pt m m'' a (Suc j) f"
  using assms by (auto simp: pte_upd_def)

lemma aligned_add_page': "aligned p \<Longrightarrow> unat p < 274877906944 \<Longrightarrow> aligned (p + 4096) \<and> unat (p + 4096) = unat p + 4096"
proof -
  assume "aligned p" "unat p < 274877906944"
  moreover from this obtain k where "unat p = 4096 * k" by (auto simp: unat_aligned)
  moreover have "unat (p + 4096) = unat p + 4096" using calculation by (simp add: unat_word_ariths)
  ultimately show ?thesis by (auto simp: unat_aligned intro!: exI [of _ "Suc k"])
qed

text \<open>The entry \<open>mappages\<close> writes for an address when it maps page \<open>a\<close> to \<open>pa\<close>, the next page to the
  next frame, and so on.\<close>

definition mapped_pte :: "u64 \<Rightarrow> u64 \<Rightarrow> u64 \<Rightarrow> u64 \<Rightarrow> u64" where
  "mapped_pte a pa perm va = PA2PTE (pa + (PGROUNDDOWN va - a)) OR perm OR PTE_V"

lemma mapped_pte_shift: "mapped_pte (a + 4096) (pa + 4096) perm = mapped_pte a pa perm"
  by (rule ext) (simp add: mapped_pte_def)

lemma mapped_pte_here:
  "aligned a \<Longrightarrow> unat a \<le> unat va \<Longrightarrow> unat va < unat a + 4096 \<Longrightarrow> mapped_pte a pa perm va = PA2PTE pa OR perm OR PTE_V"
  using page_range_iff [of a va] by (simp add: mapped_pte_def)

lemma mappages_step:
  assumes ok: "pt_ok s pt fl" and a: "aligned a" "a < MAXVA" and inval: "\<not> bit (pte_at (mem s) pt a) 0"
  shows "(\<exists>s' n. mappages_loop pt a lst pa perm s = Done (- 1) s' \<and> pt_ext s pt fl n s' \<and> drop n fl = []
       \<and> pte_upd pt (mem s) (mem s') a 0 (mapped_pte a pa perm))
    \<or> (\<exists>s' n. pt_ext s pt fl n s' \<and> pte_upd pt (mem s) (mem s') a 1 (mapped_pte a pa perm)
       \<and> mappages_loop pt a lst pa perm s =
           (if a = lst then Done 0 s' else mappages_loop pt (a + 4096) lst (pa + 4096) perm s'))"
proof -
  obtain r s1 n where w: "walk pt a True s = Done r s1" and e: "pt_ext s pt fl n s1"
    and p: "\<forall>va. pte_at (mem s1) pt va = pte_at (mem s) pt va"
    and r: "if r = 0 then drop n fl = [] else \<exists>u. leaf_table (mem s1) pt a = Some u \<and> r = u + 8 * PX 0 a"
    using walk_alloc [OF ok a(2)] by (auto elim: returnsE)
  show ?thesis
  proof (cases "r = 0")
    case True
    then have "mappages_loop pt a lst pa perm s = Done (- 1) s1" by (subst mappages_loop.simps) (simp add: w)
    then show ?thesis using e r p True pte_upd_0 by auto
  next
    case False
    then obtain u where u: "leaf_table (mem s1) pt a = Some u" "r = u + 8 * PX 0 a" using r by auto
    define s2 where "s2 = s1\<lparr>mem := store64 (mem s1) (u + 8 * PX 0 a) (PA2PTE pa OR perm OR PTE_V)\<rparr>"
    have ok1: "pt_ok s1 pt (drop n fl)" using e by (simp add: pt_ext_def)
    have "load64 (mem s1) r = pte_at (mem s1) pt a" using u by (simp add: pte_at_def)
    also have "\<dots> = pte_at (mem s) pt a" using p by simp
    finally have "load64 (mem s1) r = pte_at (mem s) pt a" .
    then have step: "mappages_loop pt a lst pa perm s =
        (if a = lst then Done 0 s2 else mappages_loop pt (a + 4096) lst (pa + 4096) perm s2)"
      using False inval by (subst mappages_loop.simps) (simp add: w u s2_def PTE_V_bit Let_def)
    have "pt_ext s pt fl (n + 0) s2"
      using pt_ext_trans [OF e pt_ext_leaf_store [OF ok1 u(1) s2_def]] .
    moreover have "pte_upd pt (mem s) (mem s2) a 1 (mapped_pte a pa perm)"
      unfolding pte_upd_def s2_def
      using pte_at_leaf_store [OF ok1 u(1) a(2)] p page_range_iff [OF a(1)] mapped_pte_here [OF a(1)] a
      by auto
    ultimately show ?thesis using step by auto
  qed
qed

lemma mappages_loop_maps:
  assumes "pt_ok s pt fl" and "aligned a" and "unat lst = unat a + 4096 * k" and "lst < MAXVA"
    and "\<forall>va<MAXVA. unat a \<le> unat va \<and> unat va < unat a + 4096 * Suc k \<longrightarrow> \<not> bit (pte_at (mem s) pt va) 0"
  shows "returns (mappages_loop pt a lst pa perm s) (\<lambda>r s'. \<exists>n j. pt_ext s pt fl n s'
     \<and> pte_upd pt (mem s) (mem s') a j (mapped_pte a pa perm)
     \<and> (if r = 0 then j = Suc k else r = - 1 \<and> j \<le> k \<and> drop n fl = []))"
  using assms
proof (induction k arbitrary: s fl a pa)
  case (0 s fl a pa)
  then have a: "a = lst" by (simp add: word_unat_eq_iff)
  have ia: "\<not> bit (pte_at (mem s) pt a) 0" and am: "a < MAXVA" using 0(4,5) a by simp_all
  from mappages_step [OF 0(1,2) am ia, of lst pa perm] show ?case
  proof (elim disjE exE conjE)
    fix s' n assume "mappages_loop pt a lst pa perm s = Done (- 1) s'" "pt_ext s pt fl n s'" "drop n fl = []"
      "pte_upd pt (mem s) (mem s') a 0 (mapped_pte a pa perm)"
    then show ?thesis by (simp, intro exI [of _ n] exI [of _ 0]) auto
  next
    fix s' n assume "pt_ext s pt fl n s'" "pte_upd pt (mem s) (mem s') a 1 (mapped_pte a pa perm)"
      "mappages_loop pt a lst pa perm s = (if a = lst then Done 0 s' else mappages_loop pt (a + 4096) lst (pa + 4096) perm s')"
    then show ?thesis using a by auto
  qed
next
  case (Suc k s fl a pa)
  have a: "a < MAXVA" "a \<noteq> lst" and ia: "\<not> bit (pte_at (mem s) pt a) 0"
    using Suc.prems(3,4,5) by (auto simp: unat_MAXVA)
  have a': "aligned (a + 4096)" "unat (a + 4096) = unat a + 4096"
    using aligned_add_page' [OF Suc.prems(2)] a(1) by (auto simp: unat_MAXVA)
  from mappages_step [OF Suc.prems(1,2) a(1) ia, of lst pa perm] show ?case
  proof (elim disjE exE conjE)
    fix s' n assume "mappages_loop pt a lst pa perm s = Done (- 1) s'" "pt_ext s pt fl n s'" "drop n fl = []"
      "pte_upd pt (mem s) (mem s') a 0 (mapped_pte a pa perm)"
    then show ?thesis by (simp, intro exI [of _ n] exI [of _ 0]) auto
  next
    fix s' n assume e: "pt_ext s pt fl n s'" and u: "pte_upd pt (mem s) (mem s') a 1 (mapped_pte a pa perm)"
      and st: "mappages_loop pt a lst pa perm s = (if a = lst then Done 0 s' else mappages_loop pt (a + 4096) lst (pa + 4096) perm s')"
    have ok: "pt_ok s' pt (drop n fl)" using e by (simp add: pt_ext_def)
    have "\<forall>va<MAXVA. unat (a + 4096) \<le> unat va \<and> unat va < unat (a + 4096) + 4096 * Suc k \<longrightarrow> \<not> bit (pte_at (mem s') pt va) 0"
      using Suc.prems(5) u a' by (auto simp: pte_upd_def)
    then have IH: "returns (mappages_loop pt (a + 4096) lst (pa + 4096) perm s') (\<lambda>r s''. \<exists>m j. pt_ext s' pt (drop n fl) m s''
       \<and> pte_upd pt (mem s') (mem s'') (a + 4096) j (mapped_pte (a + 4096) (pa + 4096) perm)
       \<and> (if r = 0 then j = Suc k else r = - 1 \<and> j \<le> k \<and> drop m (drop n fl) = []))"
      using Suc.prems a' by (intro Suc.IH ok) auto
    have st': "mappages_loop pt a lst pa perm s = mappages_loop pt (a + 4096) lst (pa + 4096) perm s'"
      using st a(2) by simp
    show ?thesis
      unfolding st'
    proof (rule returns_mono [OF IH], elim exE conjE)
      fix r s'' m j
      assume "pt_ext s' pt (drop n fl) m s''" and "pte_upd pt (mem s') (mem s'') (a + 4096) j (mapped_pte (a + 4096) (pa + 4096) perm)"
        and "if r = 0 then j = Suc k else r = - 1 \<and> j \<le> k \<and> drop m (drop n fl) = []"
      then show "\<exists>n j. pt_ext s pt fl n s'' \<and> pte_upd pt (mem s) (mem s'') a j (mapped_pte a pa perm)
          \<and> (if r = 0 then j = Suc (Suc k) else r = - 1 \<and> j \<le> Suc k \<and> drop n fl = [])"
        using pt_ext_trans [OF e, of m s''] pte_upd_Suc [OF u _ a'(2), of "mem s''" j]
        by (intro exI [of _ "n + m"] exI [of _ "Suc j"]) (auto simp: mapped_pte_shift split: if_splits)
    qed
  qed
qed

end
