(* ===== verification/Vm_Space.thy ===== *)
theory Vm_Space
  imports Vm_Tables
begin

text \<open>
  Address spaces: unmapping and growing a range (\<open>uvmunmap\<close>, \<open>uvmdealloc\<close>, \<open>uvmalloc\<close> of
  \<open>kernel/vm.c\<close>) with the pages that return to or leave the allocator, and user memory read and
  written through the page table (\<open>copyout\<close>, \<open>copyin\<close>).
\<close>

lemma mappages_page:
  assumes ok: "pt_ok s pt fl" and a: "aligned a" "a < MAXVA" and inval: "\<not> bit (pte_at (mem s) pt a) 0"
  shows "returns (mappages pt a 4096 pa perm s) (\<lambda>r s'. \<exists>n. pt_ext s pt fl n s'
     \<and> (if r = 0 then pte_upd pt (mem s) (mem s') a 1 (mapped_pte a pa perm)
        else r = - 1 \<and> drop n fl = [] \<and> pte_upd pt (mem s) (mem s') a 0 (mapped_pte a pa perm)))"
proof -
  have "PGROUNDDOWN (a + 4096 - 1) = a"
    using PGROUNDDOWN_offset [OF a(1), of 4095] by (simp add: add_diff_eq [symmetric])
  then have m: "mappages pt a 4096 pa perm s = mappages_loop pt a a pa perm s"
    using a by (simp add: mappages_def)
  from mappages_step [OF ok a inval, of a pa perm] show ?thesis
    unfolding m by (elim disjE exE conjE) auto
qed

section \<open>Changing other memory\<close>

lemma tables_frame:
  assumes "\<forall>t\<in>tables m pt. aligned t \<and> page_eq m m' t"
  shows "js \<in> table_paths \<Longrightarrow> node m' pt js = node m pt js" and "tables m' pt = tables m pt"
    and "pte_at m' pt va = pte_at m pt va" and "leaf_table m' pt va = leaf_table m pt va"
    and "pt_tree m pt \<Longrightarrow> pt_tree m' pt"
proof -
  have same: "load64 m' (u + 8 * k) = load64 m (u + 8 * k)"
    if "as \<in> table_paths" "node m pt as = Some u" "k < 512" for as u k
    using assms tablesI [OF that(1,2)] that(3) by (auto intro: load64_page_eq)
  have nd: "node m' pt js = node m pt js" if "js \<in> table_paths" for js
    using that by (intro node_cong same) (auto simp: table_paths_def)
  show "node m' pt js = node m pt js" if "js \<in> table_paths" for js by (rule nd [OF that])
  show "tables m' pt = tables m pt" using nd by (simp add: tables_def)
  show lf: "leaf_table m' pt va = leaf_table m pt va" for va
    unfolding leaf_table_def by (rule nd [OF leaf_path])
  show "pte_at m' pt va = pte_at m pt va"
    using same [OF leaf_path] by (auto simp: pte_at_def lf) (auto simp: leaf_table_def split: option.splits)
  show "pt_tree m' pt" if tree: "pt_tree m pt"
    unfolding pt_tree_def
  proof (intro conjI ballI allI impI)
    fix as bs assume "as \<in> table_paths" "bs \<in> table_paths" "node m' pt as \<noteq> None" "node m' pt as = node m' pt bs"
    then show "as = bs" using tree nd [of as] nd [of bs] by (simp add: pt_tree_def)
  next
    fix as k u assume H: "as @ [k] \<in> table_paths \<and> node m' pt as = Some u \<and> load64 m' (u + 8 * k) AND PTE_V \<noteq> 0"
    then have as: "as \<in> table_paths" "k < 512" by (auto simp: table_paths_def)
    with H have u: "node m pt as = Some u" using nd [of as] by simp
    then show "PTE_FLAGS (load64 m' (u + 8 * k)) = PTE_V"
      using H tree same [OF as(1) u as(2)] unfolding pt_tree_def by metis
  qed
qed

text \<open>What removing mappings may change: pages \<open>gl\<close> become free, the table pages stay.\<close>

definition pt_free :: "'a kmem_state_scheme \<Rightarrow> u64 \<Rightarrow> u64 list \<Rightarrow> u64 list \<Rightarrow> 'a kmem_state_scheme \<Rightarrow> bool" where
  "pt_free s pt fl gl s' \<longleftrightarrow> pt_ok s' pt (gl @ fl) \<and> tables (mem s') pt = tables (mem s) pt
     \<and> (\<forall>q. q \<notin> tables (mem s) pt \<union> set gl \<longrightarrow> page_eq (mem s) (mem s') q)
     \<and> mem_only s s'"

lemma pt_free_refl: "pt_ok s pt fl \<Longrightarrow> pt_free s pt fl [] s"
  by (auto simp: pt_free_def)

lemma pt_free_trans:
  assumes "pt_free s pt fl gl s'" and "pt_free s' pt (gl @ fl) hl s''"
  shows "pt_free s pt fl (hl @ gl) s''"
  using assms unfolding pt_free_def by (auto intro: page_eq_trans mem_only_trans)

lemma pt_ok_frame:
  assumes "pt_ok s pt fl" and "free_pages s' fl'" and "\<forall>t\<in>tables (mem s) pt. page_eq (mem s) (mem s') t"
    and "\<forall>t\<in>tables (mem s) pt. t \<notin> set fl'" and "kend s' = kend s"
  shows "pt_ok s' pt fl'" and "tables (mem s') pt = tables (mem s) pt"
    and "pte_at (mem s') pt va = pte_at (mem s) pt va" and "leaf_table (mem s') pt va = leaf_table (mem s) pt va"
proof -
  have al: "\<forall>t\<in>tables (mem s) pt. aligned t \<and> page_eq (mem s) (mem s') t"
    using assms(1,3) by (auto simp: pt_ok_def page_ok_aligned)
  note fr = tables_frame [OF al]
  show "tables (mem s') pt = tables (mem s) pt" "pte_at (mem s') pt va = pte_at (mem s) pt va"
    "leaf_table (mem s') pt va = leaf_table (mem s) pt va" by (fact fr)+
  show "pt_ok s' pt fl'" using assms by (auto simp: pt_ok_def fr page_ok_def)
qed

text \<open>\<open>kfree\<close> of a page that is not a table page.\<close>

lemma kfree_pt_free:
  assumes ok: "pt_ok s pt fl" and f: "page_ok s f" "f \<notin> set fl" "f \<notin> tables (mem s) pt"
  shows "\<exists>s'. kfree f s = Done () s' \<and> pt_free s pt fl [f] s'
    \<and> (\<forall>va. pte_at (mem s') pt va = pte_at (mem s) pt va \<and> leaf_table (mem s') pt va = leaf_table (mem s) pt va)"
proof -
  define s' where "s' = s\<lparr>mem := store64 (memset (mem s) f 1 4096) f (freelist s), freelist := f\<rparr>"
  have fp: "free_pages s fl" using ok by (simp add: pt_ok_def)
  have k: "kfree f s = Done () s'" using kfree_ok [OF f(1)] fp by (simp add: free_pages_def s'_def)
  have fp': "free_pages s' (f # fl)" using free_pages_free [OF fp f(1,2)] by (simp add: s'_def)
  have pe: "page_eq (mem s) (mem s') q" if "q \<noteq> f" for q
    using kfree_other_page [OF page_ok_aligned [OF f(1)] that] by (simp add: s'_def)
  have te: "\<forall>t\<in>tables (mem s) pt. page_eq (mem s) (mem s') t"
    by (intro ballI pe) (use f(3) in auto)
  have tf: "\<forall>t\<in>tables (mem s) pt. t \<notin> set (f # fl)" using ok f(3) by (auto simp: pt_ok_def)
  note fr = pt_ok_frame [OF ok fp' te tf]
  have "kend s' = kend s" by (simp add: s'_def)
  note fr = fr [OF this]
  have "pt_free s pt fl [f] s'"
    using fr(1,2) pe by (simp add: pt_free_def) (simp add: s'_def)
  then show ?thesis using k fr(3,4) by blast
qed

section \<open>Removing mappings\<close>

text \<open>
  The frames mapped in \<open>j\<close> pages from \<open>a\<close> on belong to this address space alone: they are legal
  pages, neither free nor table pages, and no two virtual pages share one.
\<close>

definition frames_ok :: "'a kmem_state_scheme \<Rightarrow> u64 \<Rightarrow> u64 list \<Rightarrow> u64 \<Rightarrow> nat \<Rightarrow> bool" where
  "frames_ok s pt fl a j \<longleftrightarrow> (\<forall>va<MAXVA. unat a \<le> unat va \<and> unat va < unat a + 4096 * j \<and> bit (pte_at (mem s) pt va) 0 \<longrightarrow>
     (let e = pte_at (mem s) pt va; f = PTE2PA e in PTE_FLAGS e \<noteq> PTE_V \<and> page_ok s f \<and> f \<notin> set fl \<and> f \<notin> tables (mem s) pt
      \<and> (\<forall>va'<MAXVA. bit (pte_at (mem s) pt va') 0 \<and> PTE2PA (pte_at (mem s) pt va') = f \<longrightarrow> PGROUNDDOWN va' = PGROUNDDOWN va)))"

text \<open>The frames mapped in a range.\<close>

definition frames :: "mem \<Rightarrow> u64 \<Rightarrow> u64 \<Rightarrow> nat \<Rightarrow> u64 set" where
  "frames m pt a j = {PTE2PA (pte_at m pt va) |va. va < MAXVA \<and> unat a \<le> unat va \<and> unat va < unat a + 4096 * j
     \<and> bit (pte_at m pt va) 0}"

definition cleared :: "mem \<Rightarrow> u64 \<Rightarrow> u64 \<Rightarrow> u64" where
  "cleared m pt va = (if bit (pte_at m pt va) 0 then 0 else pte_at m pt va)"

lemma pte_at_page: "va < MAXVA \<Longrightarrow> aligned a \<Longrightarrow> unat a \<le> unat va \<Longrightarrow> unat va < unat a + 4096 \<Longrightarrow> pte_at m pt va = pte_at m pt a"
proof -
  assume "va < MAXVA" "aligned a" "unat a \<le> unat va" "unat va < unat a + 4096"
  moreover from this have "PGROUNDDOWN va = PGROUNDDOWN a" "a < MAXVA"
    using page_range_iff [of a va] by (auto simp: unat_MAXVA)
  ultimately have "PX 2 va = PX 2 a" "PX 1 va = PX 1 a" "PX 0 va = PX 0 a"
    using PX_eq_iff [of va a] by auto
  then show ?thesis by (simp only: pte_at_def leaf_table_def)
qed

lemma frames_one:
  assumes "aligned a" and "a < MAXVA"
  shows "frames m pt a 1 = (if bit (pte_at m pt a) 0 then {PTE2PA (pte_at m pt a)} else {})"
proof -
  have "frames m pt a 1 = {PTE2PA (pte_at m pt a) |va. va < MAXVA \<and> unat a \<le> unat va \<and> unat va < unat a + 4096
      \<and> bit (pte_at m pt a) 0}"
    unfolding frames_def using pte_at_page [OF _ assms(1), of _ m pt] by (intro Collect_cong) (metis mult.right_neutral)
  also have "\<dots> = (if bit (pte_at m pt a) 0 then {PTE2PA (pte_at m pt a)} else {})"
    using assms(2) by (auto intro: exI [of _ a])
  finally show ?thesis .
qed

text \<open>One turn of the loop of \<open>uvmunmap\<close> with \<open>do_free\<close> set, on an address whose leaf table exists.\<close>

lemma uvmunmap_step:
  assumes ok: "pt_ok s pt fl" and a: "aligned a" "a < MAXVA" "a < stop" and lt: "leaf_table (mem s) pt a = Some t"
    and fr: "frames_ok s pt fl a (Suc j)"
  shows "\<exists>s' gl. uvmunmap_loop pt a stop True s = uvmunmap_loop pt (a + 4096) stop True s'
    \<and> pt_free s pt fl gl s' \<and> set gl = frames (mem s) pt a 1
    \<and> pte_upd pt (mem s) (mem s') a 1 (cleared (mem s) pt)
    \<and> (\<forall>va. leaf_table (mem s') pt va = leaf_table (mem s) pt va)"
proof -
  let ?e = "pte_at (mem s) pt a"
  have t: "t \<in> tables (mem s) pt" using tablesI [OF leaf_path] lt by (simp add: leaf_table_def)
  have tok: "page_ok s t" "0 < kend s" using ok t by (auto simp: pt_ok_def free_pages_def)
  then have nz: "t + 8 * PX 0 a \<noteq> 0"
    by (intro slot_nonzero) (auto simp: page_ok_aligned dest: page_ok_nonzero)
  have w: "walk pt a False s = Done (t + 8 * PX 0 a) s" using lt a(2) by (simp add: walk_noalloc)
  have e: "load64 (mem s) (t + 8 * PX 0 a) = ?e" using lt by (simp add: pte_at_def)
  have here: "pte_at (mem s) pt va = ?e" if "va < MAXVA" "unat a \<le> unat va" "unat va < unat a + 4096" for va
    using pte_at_page [OF that(1) a(1) that(2,3)] .
  show ?thesis
  proof (cases "bit ?e 0")
    case False
    have "uvmunmap_loop pt a stop True s = uvmunmap_loop pt (a + 4096) stop True s"
      using a(3) False nz by (subst uvmunmap_loop.simps) (simp add: w e PTE_V_bit)
    moreover have "frames (mem s) pt a 1 = {}" using False frames_one [OF a(1,2)] by simp
    moreover have "pte_upd pt (mem s) (mem s) a 1 (cleared (mem s) pt)"
      using False here by (auto simp: pte_upd_def cleared_def)
    ultimately show ?thesis using pt_free_refl [OF ok] by (intro exI [of _ s] exI [of _ "[]"]) auto
  next
    case True
    let ?f = "PTE2PA ?e"
    have f: "PTE_FLAGS ?e \<noteq> PTE_V" "page_ok s ?f" "?f \<notin> set fl" "?f \<notin> tables (mem s) pt"
      using fr a(2) True by (auto simp: frames_ok_def Let_def)
    obtain s1 where k: "kfree ?f s = Done () s1" and p1: "pt_free s pt fl [?f] s1"
      and v1: "\<And>va. pte_at (mem s1) pt va = pte_at (mem s) pt va" "\<And>va. leaf_table (mem s1) pt va = leaf_table (mem s) pt va"
      using kfree_pt_free [OF ok f(2-4)] by blast
    have ok1: "pt_ok s1 pt ([?f] @ fl)" using p1 by (simp add: pt_free_def)
    have lt1: "leaf_table (mem s1) pt a = Some t" using v1 lt by simp
    define s2 where "s2 = s1\<lparr>mem := store64 (mem s1) (t + 8 * PX 0 a) 0\<rparr>"
    have "pt_ext s1 pt ([?f] @ fl) 0 s2" by (rule pt_ext_leaf_store [OF ok1 lt1 s2_def])
    then have "pt_free s1 pt ([?f] @ fl) [] s2" by (simp add: pt_ext_def pt_free_def)
    from pt_free_trans [OF p1 this] have pf: "pt_free s pt fl [?f] s2" by simp
    have lf: "leaf_table (mem s2) pt va = leaf_table (mem s) pt va" for va
      using leaf_table_leaf_store [OF ok1 lt1, of 0 va] v1(2) [of va] by (simp add: s2_def)
    have "uvmunmap_loop pt a stop True s = uvmunmap_loop pt (a + 4096) stop True s2"
      using a(3) True nz f(1) by (subst uvmunmap_loop.simps) (simp add: w e k PTE_V_bit s2_def)
    moreover have "frames (mem s) pt a 1 = {?f}" using True frames_one [OF a(1,2)] by simp
    moreover have "pte_upd pt (mem s) (mem s2) a 1 (cleared (mem s) pt)"
      unfolding pte_upd_def s2_def
      using pte_at_leaf_store [OF ok1 lt1 a(2)] v1(1) page_range_iff [OF a(1)] here True a(1)
      by (auto simp: cleared_def)
    ultimately show ?thesis using pf lf by (intro exI [of _ s2] exI [of _ "[?f]"]) simp
  qed
qed

lemma frames_Suc:
  assumes "unat (a + 4096) = unat a + 4096"
  shows "frames m pt a (Suc j) = frames m pt a 1 \<union> frames m pt (a + 4096) j"
proof -
  have "unat a \<le> unat va \<and> unat va < unat a + 4096 * Suc j \<longleftrightarrow>
      unat a \<le> unat va \<and> unat va < unat a + 4096 * 1 \<or>
      unat (a + 4096) \<le> unat va \<and> unat va < unat (a + 4096) + 4096 * j" for va :: u64
    unfolding assms by auto
  then show ?thesis unfolding frames_def by blast
qed

lemma frames_cong:
  "(\<And>va. va < MAXVA \<Longrightarrow> unat a \<le> unat va \<Longrightarrow> unat va < unat a + 4096 * j \<Longrightarrow> pte_at m' pt va = pte_at m pt va) \<Longrightarrow>
   frames m' pt a j = frames m pt a j"
  unfolding frames_def by (intro Collect_cong) metis

lemma frames_okD:
  assumes "frames_ok s pt fl a j" and "va < MAXVA" and "unat a \<le> unat va" and "unat va < unat a + 4096 * j"
    and "bit (pte_at (mem s) pt va) 0" and "e = pte_at (mem s) pt va"
  shows "PTE_FLAGS e \<noteq> PTE_V \<and> page_ok s (PTE2PA e) \<and> PTE2PA e \<notin> set fl \<and> PTE2PA e \<notin> tables (mem s) pt
    \<and> (\<forall>va'<MAXVA. bit (pte_at (mem s) pt va') 0 \<and> PTE2PA (pte_at (mem s) pt va') = PTE2PA e
         \<longrightarrow> PGROUNDDOWN va' = PGROUNDDOWN va)"
  using assms unfolding frames_ok_def Let_def by blast

lemma frames_ok_step:
  assumes fr: "frames_ok s pt fl a (Suc j)" and a: "aligned a" "a < MAXVA" "unat (a + 4096) = unat a + 4096"
    and pf: "pt_free s pt fl gl s'" and gl: "set gl = frames (mem s) pt a 1"
    and u: "pte_upd pt (mem s) (mem s') a 1 (cleared (mem s) pt)"
  shows "frames_ok s' pt (gl @ fl) (a + 4096) j"
  unfolding frames_ok_def
proof (intro allI impI, elim conjE)
  fix va assume va: "va < MAXVA" "unat (a + 4096) \<le> unat va" "unat va < unat (a + 4096) + 4096 * j" "bit (pte_at (mem s') pt va) 0"
  have e: "pte_at (mem s') pt va = pte_at (mem s) pt va" using u va a(3) by (auto simp: pte_upd_def)
  let ?f = "PTE2PA (pte_at (mem s) pt va)"
  have old: "PTE_FLAGS (pte_at (mem s) pt va) \<noteq> PTE_V \<and> page_ok s ?f \<and> ?f \<notin> set fl \<and> ?f \<notin> tables (mem s) pt
      \<and> (\<forall>va'<MAXVA. bit (pte_at (mem s) pt va') 0 \<and> PTE2PA (pte_at (mem s) pt va') = ?f \<longrightarrow> PGROUNDDOWN va' = PGROUNDDOWN va)"
    using va a(3) by (intro frames_okD [OF fr]) (auto simp: e)
  have "?f \<notin> set gl"
  proof
    assume "?f \<in> set gl"
    then have "bit (pte_at (mem s) pt a) 0" "PTE2PA (pte_at (mem s) pt a) = ?f"
      using gl frames_one [OF a(1,2), of "mem s" pt] by (auto split: if_splits)
    then have "PGROUNDDOWN va = a" using old a(1,2) by auto
    then show False using va a by (simp add: page_range_iff)
  qed
  moreover have "tables (mem s') pt = tables (mem s) pt" "page_ok s' = page_ok s"
    using pf mem_onlyD [of s s'] by (simp_all add: pt_free_def)
  moreover have "bit (pte_at (mem s) pt va') 0 \<and> pte_at (mem s) pt va' = pte_at (mem s') pt va'"
    if "va' < MAXVA" "bit (pte_at (mem s') pt va') 0" for va'
    using u that by (auto simp: pte_upd_def cleared_def split: if_splits)
  ultimately show "let e = pte_at (mem s') pt va; f = PTE2PA e in PTE_FLAGS e \<noteq> PTE_V \<and> page_ok s' f \<and> f \<notin> set (gl @ fl)
      \<and> f \<notin> tables (mem s') pt \<and> (\<forall>va'<MAXVA. bit (pte_at (mem s') pt va') 0 \<and> PTE2PA (pte_at (mem s') pt va') = f \<longrightarrow> PGROUNDDOWN va' = PGROUNDDOWN va)"
    using old unfolding Let_def e by auto
qed

lemma uvmunmap_loop_frees:
  assumes "pt_ok s pt fl" and "aligned a" and "unat stop = unat a + 4096 * j" and "unat stop \<le> 274877906944"
    and "frames_ok s pt fl a j"
    and "\<forall>va. unat a \<le> unat va \<and> unat va < unat stop \<longrightarrow> leaf_table (mem s) pt va \<noteq> None"
  shows "returns (uvmunmap_loop pt a stop True s) (\<lambda>_ s'. \<exists>gl. pt_free s pt fl gl s'
    \<and> set gl = frames (mem s) pt a j \<and> pte_upd pt (mem s) (mem s') a j (cleared (mem s) pt)
    \<and> (\<forall>va. leaf_table (mem s') pt va = leaf_table (mem s) pt va))"
  using assms
proof (induction j arbitrary: s fl a)
  case 0
  then have "a = stop" by (simp add: word_unat_eq_iff)
  then show ?case
    using pt_free_refl [OF 0(1)]
    by (subst uvmunmap_loop.simps) (auto simp: frames_def pte_upd_def intro!: exI [of _ "[]"])
next
  case (Suc j)
  have a: "a < MAXVA" using Suc.prems(3,4) by (simp add: unat_MAXVA)
  have "a < stop" using Suc.prems(3) by (simp add: word_less_nat_alt)
  note a = a this
  have a': "aligned (a + 4096)" "unat (a + 4096) = unat a + 4096"
    using aligned_add_page' [OF Suc.prems(2)] a(1) by (auto simp: unat_MAXVA)
  obtain t where "leaf_table (mem s) pt a = Some t" using Suc.prems(3,6) by fastforce
  from uvmunmap_step [OF Suc.prems(1,2) a this Suc.prems(5)] obtain s' gl where
    st: "uvmunmap_loop pt a stop True s = uvmunmap_loop pt (a + 4096) stop True s'"
    and pf: "pt_free s pt fl gl s'" and gl: "set gl = frames (mem s) pt a 1"
    and u: "pte_upd pt (mem s) (mem s') a 1 (cleared (mem s) pt)"
    and lf: "\<forall>va. leaf_table (mem s') pt va = leaf_table (mem s) pt va" by blast
  have fr': "frames_ok s' pt (gl @ fl) (a + 4096) j"
    by (rule frames_ok_step [OF Suc.prems(5,2) a(1) a'(2) pf gl u])
  have same: "pte_at (mem s') pt va = pte_at (mem s) pt va" if "va < MAXVA" "unat (a + 4096) \<le> unat va" for va
    using u that a'(2) by (auto simp: pte_upd_def)
  have fs: "frames (mem s') pt (a + 4096) j = frames (mem s) pt (a + 4096) j"
    by (rule frames_cong) (rule same)
  have IH: "returns (uvmunmap_loop pt (a + 4096) stop True s') (\<lambda>_ s''. \<exists>hl. pt_free s' pt (gl @ fl) hl s''
    \<and> set hl = frames (mem s') pt (a + 4096) j \<and> pte_upd pt (mem s') (mem s'') (a + 4096) j (cleared (mem s') pt)
    \<and> (\<forall>va. leaf_table (mem s'') pt va = leaf_table (mem s') pt va))"
    using pf Suc.prems a' fr' lf by (intro Suc.IH) (auto simp: pt_free_def)
  show ?case
    unfolding st
  proof (rule returns_mono [OF IH], elim exE conjE)
    fix s'' hl
    assume H: "pt_free s' pt (gl @ fl) hl s''" "set hl = frames (mem s') pt (a + 4096) j"
      "pte_upd pt (mem s') (mem s'') (a + 4096) j (cleared (mem s') pt)"
      "\<forall>va. leaf_table (mem s'') pt va = leaf_table (mem s') pt va"
    have "pte_upd pt (mem s') (mem s'') (a + 4096) j (cleared (mem s) pt)"
      using H(3) same by (auto simp: pte_upd_def cleared_def)
    then have "pte_upd pt (mem s) (mem s'') a (Suc j) (cleared (mem s) pt)"
      by (rule pte_upd_Suc [OF u _ a'(2)])
    moreover have "set (hl @ gl) = frames (mem s) pt a (Suc j)"
      using H(2) gl fs frames_Suc [OF a'(2), of "mem s" pt j] by auto
    ultimately show "\<exists>gl. pt_free s pt fl gl s'' \<and> set gl = frames (mem s) pt a (Suc j)
        \<and> pte_upd pt (mem s) (mem s'') a (Suc j) (cleared (mem s) pt)
        \<and> (\<forall>va. leaf_table (mem s'') pt va = leaf_table (mem s) pt va)"
      using pt_free_trans [OF pf H(1)] H(4) lf by (intro exI [of _ "hl @ gl"]) simp
  qed
qed

section \<open>User memory\<close>

text \<open>The frame that user code reaches at a virtual page, and the byte at an address.\<close>

definition uframe :: "mem \<Rightarrow> u64 \<Rightarrow> u64 \<Rightarrow> u64 option" where
  "uframe m pt va = (let e = pte_at m pt va
     in if va < MAXVA \<and> e AND PTE_V \<noteq> 0 \<and> e AND PTE_U \<noteq> 0 then Some (PTE2PA e) else None)"

definition ubyte :: "mem \<Rightarrow> u64 \<Rightarrow> u64 \<Rightarrow> u8 option" where
  "ubyte m pt va = (case uframe m pt (PGROUNDDOWN va) of None \<Rightarrow> None | Some f \<Rightarrow> Some (m (f + (va - PGROUNDDOWN va))))"

text \<open>An address space whose user frames are its own.\<close>

definition space_ok :: "'a kmem_state_scheme \<Rightarrow> u64 \<Rightarrow> u64 list \<Rightarrow> bool" where
  "space_ok s pt fl \<longleftrightarrow> pt_ok s pt fl \<and> (\<forall>va f. uframe (mem s) pt va = Some f \<longrightarrow>
     page_ok s f \<and> f \<notin> set fl \<and> f \<notin> tables (mem s) pt
     \<and> (\<forall>va'. uframe (mem s) pt va' = Some f \<longrightarrow> PGROUNDDOWN va' = PGROUNDDOWN va))"

lemma space_okD:
  "space_ok s pt fl \<Longrightarrow> uframe (mem s) pt va = Some f \<Longrightarrow> page_ok s f \<and> f \<notin> set fl \<and> f \<notin> tables (mem s) pt
     \<and> (\<forall>va'. uframe (mem s) pt va' = Some f \<longrightarrow> PGROUNDDOWN va' = PGROUNDDOWN va)"
  unfolding space_ok_def by blast

lemma walkaddr_uframe:
  assumes "pt_ok s pt fl"
  shows "walkaddr pt va s = Done (case uframe (mem s) pt va of None \<Rightarrow> 0 | Some f \<Rightarrow> f) s"
proof (cases "va < MAXVA")
  case True
  show ?thesis
  proof (cases "leaf_table (mem s) pt va")
    case None
    then show ?thesis using True by (simp add: walkaddr_def walk_noalloc uframe_def pte_at_def)
  next
    case (Some t)
    then have "page_ok s t" "0 < kend s"
      using assms pt_ok_table [OF assms leaf_path, of va t]
      by (auto simp: leaf_table_def pt_ok_def free_pages_def)
    then have "t + 8 * PX 0 va \<noteq> 0"
      by (intro slot_nonzero) (auto simp: page_ok_aligned dest: page_ok_nonzero)
    then show ?thesis
      using True Some by (auto simp: walkaddr_def walk_noalloc uframe_def pte_at_def)
  qed
qed (auto simp: walkaddr_def uframe_def Let_def not_less)

lemma range_iff:
  fixes a va :: u64
  assumes "unat va + n \<le> 18446744073709551616"
  shows "unat (a - va) < n \<longleftrightarrow> unat va \<le> unat a \<and> unat a < unat va + n"
proof (cases "unat va \<le> unat a")
  case True
  then have "unat (a - va) = unat a - unat va" by (simp add: unat_sub_if')
  then show ?thesis using True by auto
next
  case False
  then have "unat (a - va) = unat a + 18446744073709551616 - unat va" by (simp add: unat_sub_if')
  then show ?thesis using False assms by auto
qed

text \<open>Writing within one user page.\<close>

lemma page_write:
  assumes f: "aligned f" and "unat off + length bs \<le> 4096" and q: "q \<noteq> f"
  shows "page_eq m (mem_write m (f + off) bs) q"
  unfolding page_eq_def
proof (intro allI impI)
  fix b assume b: "PGROUNDDOWN b = q"
  have "\<not> unat (b - (f + off)) < length bs"
  proof
    define d where "d = b - (f + off)"
    assume "unat (b - (f + off)) < length bs"
    then have h: "unat d < length bs" by (simp add: d_def)
    have "unat (off + d) = unat off + unat d"
      using assms(2) h by (simp add: unat_word_ariths)
    then have "off + d < 4096" using assms(2) h by (simp add: word_less_nat_alt)
    from PGROUNDDOWN_offset [OF f this] b q show False by (simp add: d_def algebra_simps)
  qed
  then show "mem_write m (f + off) bs b = m b" by (simp add: mem_write_def)
qed

lemma space_ok_write:
  assumes ok: "space_ok s pt fl" and f: "uframe (mem s) pt va = Some f" and off: "unat off + length bs \<le> 4096"
    and s': "s' = s\<lparr>mem := mem_write (mem s) (f + off) bs\<rparr>"
  shows "space_ok s' pt fl" and "uframe (mem s') pt a = uframe (mem s) pt a"
    and "\<forall>q. q \<noteq> f \<longrightarrow> page_eq (mem s) (mem s') q"
proof -
  have fo: "page_ok s f" "f \<notin> set fl" "f \<notin> tables (mem s) pt" and po: "pt_ok s pt fl"
    using ok f unfolding space_ok_def by blast+
  have pe: "page_eq (mem s) (mem s') q" if "q \<noteq> f" for q
    using page_write [OF page_ok_aligned [OF fo(1)] off that] by (simp add: s')
  then show "\<forall>q. q \<noteq> f \<longrightarrow> page_eq (mem s) (mem s') q" by simp
  have "page_eq (mem s) (mem s') q" if "q \<in> set fl" for q by (rule pe) (use fo(2) that in auto)
  then have fp: "free_pages s' fl"
    using free_pages_write [of s fl "mem s'"] po by (simp add: pt_ok_def s')
  have te: "\<forall>t\<in>tables (mem s) pt. page_eq (mem s) (mem s') t" by (intro ballI pe) (use fo(3) in auto)
  have tf: "\<forall>t\<in>tables (mem s) pt. t \<notin> set fl" using po by (auto simp: pt_ok_def)
  have ke: "kend s' = kend s" by (simp add: s')
  note fr = pt_ok_frame [OF po fp te tf ke]
  show uf: "uframe (mem s') pt a = uframe (mem s) pt a" for a by (simp add: uframe_def fr(3))
  have pk: "page_ok s' = page_ok s" by (simp add: s' fun_eq_iff)
  show "space_ok s' pt fl" using ok fr(1) unfolding space_ok_def uf fr(2) pk by blast
qed

lemma ubyte_write:
  assumes ok: "space_ok s pt fl" and f: "uframe (mem s) pt (PGROUNDDOWN va) = Some f"
    and n: "unat va mod 4096 + length bs \<le> 4096"
    and s': "s' = s\<lparr>mem := mem_write (mem s) (f + (va - PGROUNDDOWN va)) bs\<rparr>"
  shows "ubyte (mem s') pt a = (if unat va \<le> unat a \<and> unat a < unat va + length bs
     then Some (bs ! (unat a - unat va)) else ubyte (mem s) pt a)"
proof -
  have off: "unat (va - PGROUNDDOWN va) + length bs \<le> 4096" using n by (simp add: page_offset)
  note w = space_ok_write [OF ok f off s']
  have va: "unat va = unat (PGROUNDDOWN va) + unat va mod 4096" by (simp add: unat_PGROUNDDOWN)
  have wrap: "unat va + length bs \<le> 18446744073709551616"
  proof -
    obtain k where k: "unat (PGROUNDDOWN va) = 4096 * k" using unat_aligned PGROUNDDOWN_aligned by blast
    then have "4096 * k < 4096 * 4503599627370496" using unat_less64 [of "PGROUNDDOWN va"] by simp
    then have "Suc k \<le> 4503599627370496" by simp
    then show ?thesis using n va k by linarith
  qed
  show ?thesis
  proof (cases "PGROUNDDOWN a = PGROUNDDOWN va")
    case True
    have "f + (a - PGROUNDDOWN va) - (f + (va - PGROUNDDOWN va)) = a - va" by simp
    moreover have "unat (a - va) = unat a - unat va" if "unat va \<le> unat a"
      using that by (simp add: unat_sub_if')
    ultimately show ?thesis
      using range_iff [OF wrap, of a] f
      by (auto simp: ubyte_def w(2) True) (auto simp: s' mem_write_def)
  next
    case False
    then have "\<not> (unat va \<le> unat a \<and> unat a < unat va + length bs)"
      using page_range_iff [OF PGROUNDDOWN_aligned [of va], of a] va n by auto
    moreover have "mem s' (f' + (a - PGROUNDDOWN a)) = mem s (f' + (a - PGROUNDDOWN a))"
      if f': "uframe (mem s) pt (PGROUNDDOWN a) = Some f'" for f'
    proof -
      have "f' \<noteq> f" using space_okD [OF ok f] f' False by auto
      moreover have "aligned f'" using space_okD [OF ok f'] by (blast dest: page_ok_aligned)
      moreover have "a - PGROUNDDOWN a < 4096"
        using page_offset [of a] by (simp add: word_less_nat_alt)
      ultimately show ?thesis using w(3) by (simp add: page_eq_def PGROUNDDOWN_offset)
    qed
    ultimately show ?thesis by (auto simp: ubyte_def w(2) split: option.splits)
  qed
qed

lemma space_ok_pt: "space_ok s pt fl \<Longrightarrow> pt_ok s pt fl"
  by (simp add: space_ok_def)

lemma uframe_nonzero:
  assumes "space_ok s pt fl" and "uframe (mem s) pt va = Some f"
  shows "f \<noteq> 0"
proof -
  have "page_ok s f" using space_okD [OF assms] by blast
  moreover have "0 < kend s" using space_ok_pt [OF assms(1)] by (simp add: pt_ok_def free_pages_def)
  ultimately show ?thesis by (rule page_ok_nonzero)
qed

lemma copyout_step:
  assumes ok: "space_ok s pt fl" and ne: "src \<noteq> []" and f: "uframe (mem s) pt (PGROUNDDOWN va) = Some f"
    and n: "n = page_chunk va (length src)"
  shows "copyout pt va src s = copyout pt (PGROUNDDOWN va + 4096) (drop n src)
    (s\<lparr>mem := mem_write (mem s) (f + (va - PGROUNDDOWN va)) (take n src)\<rparr>)"
  using ne f uframe_nonzero [OF ok f]
  by (subst copyout.simps) (simp add: walkaddr_uframe [OF space_ok_pt [OF ok]] n Let_def)

lemma next_page:
  assumes "unat va < 274877906944"
  shows "unat (PGROUNDDOWN va + 4096) = unat va + (4096 - unat va mod 4096)"
proof -
  have "unat (PGROUNDDOWN va) \<le> unat va" by (simp add: unat_PGROUNDDOWN)
  then have "unat (PGROUNDDOWN va + 4096) = unat (PGROUNDDOWN va) + 4096"
    using assms by (simp add: unat_word_ariths)
  moreover have "unat va = unat (PGROUNDDOWN va) + unat va mod 4096" by (simp add: unat_PGROUNDDOWN)
  moreover have "unat va mod 4096 < 4096" by simp
  ultimately show ?thesis by linarith
qed

text \<open>A range of user memory is mapped when every byte of it can be reached.\<close>

definition umapped :: "mem \<Rightarrow> u64 \<Rightarrow> u64 \<Rightarrow> nat \<Rightarrow> bool" where
  "umapped m pt va n \<longleftrightarrow> unat va + n \<le> 274877906944 \<and>
     (\<forall>a. unat va \<le> unat a \<and> unat a < unat va + n \<longrightarrow> ubyte m pt a \<noteq> None)"

lemma copyout_writes:
  assumes "space_ok s pt fl" and "umapped (mem s) pt va (length src)"
  shows "returns (copyout pt va src s) (\<lambda>r s'. r = 0 \<and> space_ok s' pt fl \<and> mem_only s s'
    \<and> (\<forall>a. uframe (mem s') pt a = uframe (mem s) pt a)
    \<and> (\<forall>a. ubyte (mem s') pt a = (if unat va \<le> unat a \<and> unat a < unat va + length src
         then Some (src ! (unat a - unat va)) else ubyte (mem s) pt a)))"
  using assms
proof (induction "length src" arbitrary: src va s rule: less_induct)
  case less
  show ?case
  proof (cases "src = []")
    case True
    then show ?thesis using less.prems by (subst copyout.simps) auto
  next
    case False
    let ?n = "page_chunk va (length src)" and ?p = "PGROUNDDOWN va"
    have len: "0 < length src" using False by simp
    have va: "unat va < 274877906944"
      using less.prems(2) len unfolding umapped_def by linarith
    have "ubyte (mem s) pt va \<noteq> None" using less.prems(2) len by (simp add: umapped_def)
    then obtain f where f: "uframe (mem s) pt ?p = Some f" by (auto simp: ubyte_def split: option.splits)
    have n: "0 < ?n" "?n \<le> length src" "unat va mod 4096 + length (take ?n src) \<le> 4096"
      using page_chunk_pos [OF len] by (simp_all add: page_chunk_eq)
    define s1 where "s1 = s\<lparr>mem := mem_write (mem s) (f + (va - ?p)) (take ?n src)\<rparr>"
    note ub = ubyte_write [OF less.prems(1) f n(3) s1_def]
    have off: "unat (va - ?p) + length (take ?n src) \<le> 4096" using n(3) by (simp add: page_offset)
    note sp = space_ok_write [OF less.prems(1) f off s1_def]
    let ?rest = "drop ?n src"
    have nxt: "unat (?p + 4096) = unat va + ?n" if "?rest \<noteq> []"
      using next_page [OF va] that by (auto simp: page_chunk_eq min_def)
    have um: "umapped (mem s1) pt (?p + 4096) (length ?rest)" if "?rest \<noteq> []"
      using less.prems(2) nxt [OF that] n ub by (auto simp: umapped_def)
    have st: "copyout pt va src s = copyout pt (?p + 4096) ?rest s1"
      using copyout_step [OF less.prems(1) False f refl] by (simp add: s1_def)
    show ?thesis
    proof (cases "?rest = []")
      case True
      then have "?n = length src" using n(2) by simp
      then show ?thesis
        unfolding st True using sp(1,2) ub by (subst copyout.simps) (simp add: s1_def)
    next
      case rest: False
      have IH: "returns (copyout pt (?p + 4096) ?rest s1) (\<lambda>r s'. r = 0 \<and> space_ok s' pt fl \<and> mem_only s1 s'
        \<and> (\<forall>a. uframe (mem s') pt a = uframe (mem s1) pt a)
        \<and> (\<forall>a. ubyte (mem s') pt a = (if unat (?p + 4096) \<le> unat a \<and> unat a < unat (?p + 4096) + length ?rest
             then Some (?rest ! (unat a - unat (?p + 4096))) else ubyte (mem s1) pt a)))"
        using n len by (intro less.hyps sp(1) um [OF rest]) simp
      show ?thesis
        unfolding st
      proof (rule returns_mono [OF IH], elim conjE, intro conjI)
        fix r s'
        assume H: "r = 0" "space_ok s' pt fl" "mem_only s1 s'" "\<forall>a. uframe (mem s') pt a = uframe (mem s1) pt a"
          "\<forall>a. ubyte (mem s') pt a = (if unat (?p + 4096) \<le> unat a \<and> unat a < unat (?p + 4096) + length ?rest
             then Some (?rest ! (unat a - unat (?p + 4096))) else ubyte (mem s1) pt a)"
        show "r = 0" "space_ok s' pt fl" by (fact H)+
        have "mem_only s s1" by (simp add: s1_def)
        then show "mem_only s s'" using H(3) by (rule mem_only_trans)
        show "\<forall>a. uframe (mem s') pt a = uframe (mem s) pt a" using H(4) sp(2) by simp
        show "\<forall>a. ubyte (mem s') pt a = (if unat va \<le> unat a \<and> unat a < unat va + length src
           then Some (src ! (unat a - unat va)) else ubyte (mem s) pt a)"
          using H(5) ub nxt [OF rest] n by (auto simp: nth_append)
      qed
    qed
  qed
qed

lemma copyin_step:
  assumes ok: "space_ok s pt fl" and "0 < len" and f: "uframe (mem s) pt (PGROUNDDOWN va) = Some f"
    and n: "n = page_chunk va len"
  shows "copyin pt dst va len s = copyin pt (dst @ mem_read (mem s) (f + (va - PGROUNDDOWN va)) n)
    (PGROUNDDOWN va + 4096) (len - n) s"
  using assms(2) f uframe_nonzero [OF ok f]
  by (subst copyin.simps) (simp add: walkaddr_uframe [OF space_ok_pt [OF ok]] n Let_def)

lemma mem_read_ubytes:
  assumes f: "uframe m pt (PGROUNDDOWN va) = Some f" and n: "unat va mod 4096 + n \<le> 4096"
  shows "map Some (mem_read m (f + (va - PGROUNDDOWN va)) n) = map (\<lambda>i. ubyte m pt (va + of_nat i)) [0..<n]"
proof (rule nth_equalityI)
  fix i assume "i < length (map Some (mem_read m (f + (va - PGROUNDDOWN va)) n))"
  then have i: "i < n" by simp
  have off: "unat (va - PGROUNDDOWN va) = unat va mod 4096" by (rule page_offset)
  have "unat (va - PGROUNDDOWN va + of_nat i) = unat va mod 4096 + i"
    using n i off by (simp add: unat_word_ariths unat_of_nat64)
  then have "PGROUNDDOWN (PGROUNDDOWN va + (va - PGROUNDDOWN va + of_nat i)) = PGROUNDDOWN va"
    using n i by (intro PGROUNDDOWN_offset) (simp_all add: word_less_nat_alt)
  then have p: "PGROUNDDOWN (va + of_nat i) = PGROUNDDOWN va" by (simp add: algebra_simps)
  then show "map Some (mem_read m (f + (va - PGROUNDDOWN va)) n) ! i =
      map (\<lambda>i. ubyte m pt (va + of_nat i)) [0..<n] ! i"
    using i f by (simp add: ubyte_def algebra_simps)
qed simp

lemma copyin_reads:
  assumes "space_ok s pt fl" and "umapped (mem s) pt va len"
  shows "\<exists>bs. copyin pt dst va len s = Done (0, dst @ bs) s
    \<and> map Some bs = map (\<lambda>i. ubyte (mem s) pt (va + of_nat i)) [0..<len]"
  using assms(2)
proof (induction len arbitrary: dst va rule: less_induct)
  case (less len)
  show ?case
  proof (cases "len = 0")
    case True
    then show ?thesis by (subst copyin.simps) simp
  next
    case False
    then have len: "0 < len" by simp
    let ?n = "page_chunk va len" and ?p = "PGROUNDDOWN va"
    have va: "unat va < 274877906944" using less.prems len by (simp add: umapped_def)
    have "ubyte (mem s) pt va \<noteq> None" using less.prems len by (simp add: umapped_def)
    then obtain f where f: "uframe (mem s) pt ?p = Some f" by (auto simp: ubyte_def split: option.splits)
    have n: "0 < ?n" "?n \<le> len" "unat va mod 4096 + ?n \<le> 4096"
      using page_chunk_pos [OF len] by (simp_all add: page_chunk_eq)
    let ?b = "mem_read (mem s) (f + (va - ?p)) ?n"
    note st = copyin_step [OF assms(1) len f refl]
    note rd = mem_read_ubytes [OF f n(3)]
    show ?thesis
    proof (cases "len = ?n")
      case True
      then have "copyin pt dst va len s = Done (0, dst @ ?b) s"
        unfolding st by (subst copyin.simps) simp
      then show ?thesis using rd True by (intro exI [of _ ?b]) simp
    next
      case f: False
      then have c: "?n = 4096 - unat va mod 4096" using n by (simp add: page_chunk_eq min_def split: if_splits)
      have nxt: "unat (?p + 4096) = unat va + ?n" using next_page [OF va] c by simp
      then have nw: "?p + 4096 = va + of_nat ?n"
        using va n by (simp add: word_unat_eq_iff unat_word_ariths unat_of_nat64)
      have "umapped (mem s) pt (?p + 4096) (len - ?n)"
        using less.prems nxt n by (auto simp: umapped_def)
      then obtain bs where bs: "copyin pt (dst @ ?b) (?p + 4096) (len - ?n) s = Done (0, (dst @ ?b) @ bs) s"
        "map Some bs = map (\<lambda>i. ubyte (mem s) pt (?p + 4096 + of_nat i)) [0..<len - ?n]"
        using less.IH [of "len - ?n" "?p + 4096" "dst @ ?b"] n len by auto
      have "[0..<len] = [0..<?n] @ map (\<lambda>i. ?n + i) [0..<len - ?n]"
        using n by (intro nth_equalityI) (auto simp: nth_append)
      then have "map Some (?b @ bs) = map (\<lambda>i. ubyte (mem s) pt (va + of_nat i)) [0..<len]"
        using rd bs(2) by (simp add: nw add.assoc)
      then show ?thesis using st bs(1) by (intro exI [of _ "?b @ bs"]) simp
    qed
  qed
qed

text \<open>A copy that meets an unmapped page fails.\<close>

lemma page_below_MAXVA:
  assumes "PGROUNDDOWN va < MAXVA"
  shows "unat va < 274877906944" "unat va + (4096 - unat va mod 4096) \<le> 274877906944"
proof -
  have "4096 * (unat va div 4096) < 4096 * 67108864" using assms by (simp add: unat_MAXVA unat_PGROUNDDOWN mult.commute)
  then have "unat va div 4096 + 1 \<le> 67108864" by simp
  moreover have "unat va = 4096 * (unat va div 4096) + unat va mod 4096" "unat va mod 4096 < 4096" by simp_all
  ultimately show "unat va < 274877906944" "unat va + (4096 - unat va mod 4096) \<le> 274877906944" by linarith+
qed

lemma copyout_unmapped:
  assumes "space_ok s pt fl" and "src \<noteq> []" and "\<not> umapped (mem s) pt va (length src)"
  shows "returns (copyout pt va src s) (\<lambda>r _. r = - 1)"
  using assms
proof (induction "length src" arbitrary: src va s rule: less_induct)
  case less
  note ne = less.prems(2)
  then have len: "0 < length src" by simp
  let ?n = "page_chunk va (length src)" and ?p = "PGROUNDDOWN va"
  show ?case
  proof (cases "uframe (mem s) pt ?p")
    case None
    then show ?thesis
      using ne by (subst copyout.simps) (simp add: walkaddr_uframe [OF space_ok_pt [OF less.prems(1)]] Let_def)
  next
    case (Some f)
    then have "?p < MAXVA" by (auto simp: uframe_def Let_def split: if_splits)
    have va: "unat va < 274877906944" and pg: "unat va + (4096 - unat va mod 4096) \<le> 274877906944"
      using page_below_MAXVA [OF \<open>?p < MAXVA\<close>] by simp_all
    have n: "0 < ?n" "?n \<le> length src" "unat va mod 4096 + length (take ?n src) \<le> 4096"
      using page_chunk_pos [OF len] by (simp_all add: page_chunk_eq)
    have bnd: "unat va + ?n \<le> 274877906944" using pg n(3) by (simp add: page_chunk_eq)
    define s1 where "s1 = s\<lparr>mem := mem_write (mem s) (f + (va - ?p)) (take ?n src)\<rparr>"
    note ub = ubyte_write [OF less.prems(1) Some n(3) s1_def]
    have off: "unat (va - ?p) + length (take ?n src) \<le> 4096" using n(3) by (simp add: page_offset)
    note sp = space_ok_write [OF less.prems(1) Some off s1_def]
    have here: "ubyte (mem s) pt a \<noteq> None" if "unat va \<le> unat a" "unat a < unat va + ?n" for a
    proof -
      have "PGROUNDDOWN a = ?p"
        using that n(3) page_range_iff [OF PGROUNDDOWN_aligned [of va], of a] n(2)
          page_range_iff [OF PGROUNDDOWN_aligned [of va], of va]
        by (simp add: unat_PGROUNDDOWN) (use minus_mod_eq_div_mult [of "unat va" 4096] in linarith)
      then show ?thesis using Some by (simp add: ubyte_def)
    qed
    have less: "?n < length src"
    proof (rule ccontr)
      assume "\<not> ?n < length src"
      then have "umapped (mem s) pt va (length src)" using here bnd n(2) by (auto simp: umapped_def)
      then show False using less.prems(3) by simp
    qed
    then have c: "?n = 4096 - unat va mod 4096" by (simp add: page_chunk_eq min_def split: if_splits)
    have nxt: "unat (?p + 4096) = unat va + ?n" using next_page [OF va] c by simp
    have "\<not> umapped (mem s1) pt (?p + 4096) (length (drop ?n src))"
    proof
      assume u: "umapped (mem s1) pt (?p + 4096) (length (drop ?n src))"
      have "ubyte (mem s) pt a \<noteq> None" if "unat va \<le> unat a" "unat a < unat va + length src" for a
      proof (cases "unat a < unat va + ?n")
        case False
        have "ubyte (mem s1) pt a \<noteq> None" using u False that nxt n(2) unfolding umapped_def by simp
        then show ?thesis using ub [of a] False n(2) by simp
      qed (use here that in blast)
      moreover have "unat va + length src \<le> 274877906944" using u nxt n(2) by (simp add: umapped_def)
      ultimately show False using less.prems(3) by (auto simp: umapped_def)
    qed
    then have "returns (copyout pt (?p + 4096) (drop ?n src) s1) (\<lambda>r _. r = - 1)"
      using n len less by (intro less.hyps sp(1)) auto
    then show ?thesis
      using copyout_step [OF less.prems(1) ne Some refl] by (simp add: s1_def)
  qed
qed

section \<open>What the address-space operations promise\<close>

text \<open>C29: \<open>mappages\<close> on a well-formed page table and a non-empty range of unmapped pages below
  \<open>MAXVA\<close> returns. On 0 every page of the range has an entry for its frame with the given
  permissions and all other addresses translate as before; -1 only when no free page is left.
  The table stays well-formed, and outside its own pages and the free pages it took no memory
  changes.\<close>

theorem mappages_maps_range:
  assumes ok: "pt_ok s pt fl" and sz: "0 < sz" "unat va + unat sz \<le> 274877906944"
    and inval: "\<forall>a<MAXVA. PGROUNDDOWN va \<le> a \<and> PGROUNDDOWN a \<le> PGROUNDDOWN (va + sz - 1) \<longrightarrow> pte_at (mem s) pt a AND PTE_V = 0"
  shows "returns (mappages pt va sz pa perm s) (\<lambda>r s'. \<exists>n. pt_ext s pt fl n s'
    \<and> (if r = 0 then \<forall>a<MAXVA. pte_at (mem s') pt a =
           (if PGROUNDDOWN va \<le> a \<and> PGROUNDDOWN a \<le> PGROUNDDOWN (va + sz - 1)
            then PA2PTE (pa + (PGROUNDDOWN a - PGROUNDDOWN va)) OR perm OR PTE_V else pte_at (mem s) pt a)
       else r = - 1 \<and> drop n fl = []))"
proof -
  let ?a = "PGROUNDDOWN va" and ?l = "PGROUNDDOWN (va + sz - 1)"
  define k where "k = (unat va + unat sz - 1) div 4096 - unat va div 4096"
  have e: "unat (va + sz - 1) = unat va + unat sz - 1"
  proof -
    have "0 < unat sz" using sz(1) by (simp add: word_less_nat_alt)
    moreover have "unat (va + sz) = unat va + unat sz" using sz(2) by (simp add: unat_word_ariths)
    moreover from calculation have "va + sz \<noteq> 0" by (auto simp: unat_eq_0 [symmetric])
    ultimately show ?thesis using unat_minus_one [of "va + sz"] by simp
  qed
  have le: "unat va div 4096 \<le> (unat va + unat sz - 1) div 4096"
    using sz(1) by (intro div_le_mono) (simp add: word_less_nat_alt)
  then obtain d where d: "(unat va + unat sz - 1) div 4096 = unat va div 4096 + d"
    using le_Suc_ex by blast
  have l: "unat ?l = unat ?a + 4096 * k"
    unfolding unat_PGROUNDDOWN e k_def d by simp
  have "unat ?l \<le> unat va + unat sz - 1" unfolding unat_PGROUNDDOWN e by simp
  moreover have "0 < unat sz" using sz(1) by (simp add: word_less_nat_alt)
  ultimately have lm: "?l < MAXVA" using sz(2) by (simp add: unat_MAXVA)
  have rng: "unat ?a \<le> unat a \<and> unat a < unat ?a + 4096 * Suc k \<longleftrightarrow> ?a \<le> a \<and> PGROUNDDOWN a \<le> ?l" for a
  proof -
    obtain j where j: "unat ?l = 4096 * j" using unat_aligned PGROUNDDOWN_aligned by blast
    have "unat ?a + 4096 * Suc k = 4096 * Suc j" using l j by simp
    then have "unat a < unat ?a + 4096 * Suc k \<longleftrightarrow> unat a < 4096 * Suc j" by (simp only:)
    also have "\<dots> \<longleftrightarrow> unat a < Suc j * 4096" by (simp only: mult.commute)
    also have "\<dots> \<longleftrightarrow> unat a div 4096 < Suc j" by (subst div_less_iff_less_mult) simp_all
    also have "\<dots> \<longleftrightarrow> unat a div 4096 * 4096 \<le> 4096 * j" by (simp add: less_Suc_eq_le mult.commute)
    also have "\<dots> \<longleftrightarrow> unat (PGROUNDDOWN a) \<le> unat ?l" by (simp add: unat_PGROUNDDOWN [of a] j)
    finally show ?thesis by (simp add: word_le_nat_alt)
  qed
  have "\<forall>a<MAXVA. unat ?a \<le> unat a \<and> unat a < unat ?a + 4096 * Suc k \<longrightarrow> \<not> bit (pte_at (mem s) pt a) 0"
    unfolding rng using inval by (simp add: PTE_V_bit)
  from mappages_loop_maps [OF ok _ l lm this, of pa perm]
  have "returns (mappages pt va sz pa perm s) (\<lambda>r s'. \<exists>n j. pt_ext s pt fl n s'
     \<and> pte_upd pt (mem s) (mem s') ?a j (mapped_pte ?a pa perm)
     \<and> (if r = 0 then j = Suc k else r = - 1 \<and> j \<le> k \<and> drop n fl = []))" by (simp add: mappages_def)
  then show ?thesis
  proof (rule returns_mono, elim exE conjE)
    fix r s' n j
    assume H: "pt_ext s pt fl n s'" "pte_upd pt (mem s) (mem s') ?a j (mapped_pte ?a pa perm)"
      "if r = 0 then j = Suc k else r = - 1 \<and> j \<le> k \<and> drop n fl = []"
    have "\<forall>a<MAXVA. pte_at (mem s') pt a = (if ?a \<le> a \<and> PGROUNDDOWN a \<le> ?l
        then PA2PTE (pa + (PGROUNDDOWN a - ?a)) OR perm OR PTE_V else pte_at (mem s) pt a)" if "r = 0"
    proof -
      have "j = Suc k" using H(3) that by simp
      then show ?thesis using H(2) unfolding pte_upd_def mapped_pte_def by (simp only: rng)
    qed
    then show "\<exists>n. pt_ext s pt fl n s' \<and> (if r = 0 then \<forall>a<MAXVA. pte_at (mem s') pt a =
           (if ?a \<le> a \<and> PGROUNDDOWN a \<le> ?l then PA2PTE (pa + (PGROUNDDOWN a - ?a)) OR perm OR PTE_V else pte_at (mem s) pt a)
       else r = - 1 \<and> drop n fl = [])"
      using H(1,3) by (intro exI [of _ n]) simp
  qed
qed

text \<open>C30: \<open>uvmunmap\<close> with \<open>do_free\<close> on a page-aligned range whose leaf tables exist and whose frames
  belong to this address space returns; afterwards no page of the range is mapped, other
  addresses translate as before, and exactly the frames that were mapped there have become free.\<close>

theorem uvmunmap_frees_range:
  assumes ok: "pt_ok s pt fl" and "aligned va" and "unat va + 4096 * unat npages \<le> 274877906944"
    and "frames_ok s pt fl va (unat npages)"
    and "\<forall>a. unat va \<le> unat a \<and> unat a < unat va + 4096 * unat npages \<longrightarrow> leaf_table (mem s) pt a \<noteq> None"
  shows "returns (uvmunmap pt va npages True s) (\<lambda>_ s'. \<exists>gl. pt_free s pt fl gl s'
    \<and> set gl = frames (mem s) pt va (unat npages)
    \<and> (\<forall>a<MAXVA. if unat va \<le> unat a \<and> unat a < unat va + 4096 * unat npages
         then pte_at (mem s') pt a AND PTE_V = 0 else pte_at (mem s') pt a = pte_at (mem s) pt a))"
proof -
  have stop: "unat (va + npages * 4096) = unat va + 4096 * unat npages"
    using assms(3) by (simp add: unat_word_ariths mult.commute)
  have "va mod 4096 = 0" using assms(2) by (simp add: aligned_def)
  then have eq: "uvmunmap pt va npages True s = uvmunmap_loop pt va (va + npages * 4096) True s"
    by (simp add: uvmunmap_def)
  from uvmunmap_loop_frees [OF ok assms(2) stop _ assms(4)] assms(3,5)
  show ?thesis
    unfolding eq stop by (auto elim!: returns_mono simp: pte_upd_def cleared_def PTE_V_bit)
qed

text \<open>C28: bytes that \<open>copyout\<close> puts into mapped user memory are what \<open>copyin\<close> reads back from there,
  and no other user byte changes.\<close>

theorem copyout_copyin:
  assumes "space_ok s pt fl" and "umapped (mem s) pt va (length bs)"
  shows "returns (andthen (copyout pt va bs s) (\<lambda>r s. copyin pt [] va (length bs) s)) (\<lambda>x s'. x = (0, bs)
    \<and> (\<forall>a. \<not> (unat va \<le> unat a \<and> unat a < unat va + length bs) \<longrightarrow> ubyte (mem s') pt a = ubyte (mem s) pt a))"
proof -
  obtain s' where c: "copyout pt va bs s = Done 0 s'" and ok: "space_ok s' pt fl"
    and ub: "\<forall>a. ubyte (mem s') pt a = (if unat va \<le> unat a \<and> unat a < unat va + length bs
         then Some (bs ! (unat a - unat va)) else ubyte (mem s) pt a)"
    using copyout_writes [OF assms] by (auto elim: returnsE)
  have um: "umapped (mem s') pt va (length bs)" using assms(2) ub by (auto simp: umapped_def)
  then obtain cs where cs: "copyin pt [] va (length bs) s' = Done (0, cs) s'"
    "map Some cs = map (\<lambda>i. ubyte (mem s') pt (va + of_nat i)) [0..<length bs]"
    using copyin_reads [OF ok um, of "[]"] by auto
  have len: "unat va + length bs \<le> 274877906944" using assms(2) by (simp add: umapped_def)
  have "unat (va + of_nat i) = unat va + i" if "i < length bs" for i
    using len that by (simp add: unat_word_ariths unat_of_nat64)
  then have "map Some cs = map Some bs"
    unfolding cs(2) using ub by (intro nth_equalityI) auto
  then have "cs = bs" by (simp add: inj_map_eq_map)
  then show ?thesis using c cs(1) ub by simp
qed

text \<open>C35: \<open>copyout\<close> returns for every destination address and length, also above \<open>MAXVA\<close>: 0 when there is nothing to copy or
  every byte of the range lies below \<open>MAXVA\<close> and is mapped for user access, -1 otherwise. It never panics.\<close>

theorem copyout_fails_iff:
  assumes "space_ok s pt fl"
  shows "returns (copyout pt va bs s) (\<lambda>r _. r = (if bs = [] \<or> umapped (mem s) pt va (length bs) then 0 else - 1))"
proof (cases "bs = [] \<or> umapped (mem s) pt va (length bs)")
  case True
  then show ?thesis
  proof
    assume "bs = []"
    then show ?thesis by (subst copyout.simps) simp
  next
    assume u: "umapped (mem s) pt va (length bs)"
    from copyout_writes [OF assms u] show ?thesis by (rule returns_mono) (use u in simp)
  qed
next
  case False
  then have "returns (copyout pt va bs s) (\<lambda>r _. r = - 1)" by (intro copyout_unmapped [OF assms]) simp_all
  then show ?thesis by (rule returns_mono) (use False in simp)
qed

section \<open>A concrete address space\<close>

text \<open>One user page at address 0, with its three table pages, and no free page.\<close>

definition example_mem :: mem where
  "example_mem = store64 (store64 (store64 (\<lambda>_. 0)
     0x87FF0000 (PA2PTE 0x87FF1000 OR PTE_V))
     0x87FF1000 (PA2PTE 0x87FF2000 OR PTE_V))
     0x87FF2000 (PA2PTE 0x87FF3000 OR (PTE_W OR PTE_X OR PTE_R OR PTE_U) OR PTE_V)"

definition example_space :: kmem_state where
  "example_space = \<lparr>held = {}, ien = True, mem = example_mem, freelist = 0, kend = 0x80025000\<rparr>"

lemma example_entry:
  assumes "aligned p" and "i < 512"
  shows "load64 example_mem (p + 8 * i) = (if i \<noteq> 0 then 0
     else if p = 0x87FF0000 then PA2PTE 0x87FF1000 OR PTE_V
     else if p = 0x87FF1000 then PA2PTE 0x87FF2000 OR PTE_V
     else if p = 0x87FF2000 then PA2PTE 0x87FF3000 OR (PTE_W OR PTE_X OR PTE_R OR PTE_U) OR PTE_V
     else 0)"
proof -
  have z: "load64 (\<lambda>_. 0) (p + 8 * i) = 0" using assms by (intro load64_zero_page) auto
  have st: "load64 (store64 m q v) (p + 8 * i) = (if p = q \<and> i = 0 then v else load64 m (p + 8 * i))"
    if "aligned q" for m q v
    using load64_store64_slot [OF that, of 0 i m v] assms
      load64_page_eq [OF store64_other_page [OF that, of 0 p m v] assms]
    by (cases "p = q") auto
  have al: "aligned 0x87FF0000" "aligned 0x87FF1000" "aligned 0x87FF2000" by (simp_all add: aligned_def)
  show ?thesis
    unfolding example_mem_def st [OF al(1)] st [OF al(2)] st [OF al(3)] z by auto
qed

lemma example_pte:
  "PTE2PA (PA2PTE 0x87FF1000 OR PTE_V) = 0x87FF1000" "PTE2PA (PA2PTE 0x87FF2000 OR PTE_V) = 0x87FF2000"
  "PTE2PA (PA2PTE 0x87FF3000 OR (PTE_W OR PTE_X OR PTE_R OR PTE_U) OR PTE_V) = 0x87FF3000"
  "PA2PTE 0x87FF1000 OR PTE_V = 0x21FFC401" "PA2PTE 0x87FF2000 OR PTE_V = 0x21FFC801"
  "PA2PTE 0x87FF3000 OR (PTE_W OR PTE_X OR PTE_R OR PTE_U) OR PTE_V = 0x21FFCC1F"
  by (simp_all add: PTE2PA_def PA2PTE_def PTE_V_def PTE_W_def PTE_X_def PTE_R_def PTE_U_def)

lemma example_links:
  "(0x21FFC401 :: u64) AND PTE_V \<noteq> 0" "(0x21FFC801 :: u64) AND PTE_V \<noteq> 0"
  "PTE2PA 0x21FFC401 = 0x87FF1000" "PTE2PA 0x21FFC801 = 0x87FF2000"
  by (simp_all add: PTE2PA_def PTE_V_def)

lemma example_node:
  assumes "is \<in> table_paths"
  shows "node example_mem 0x87FF0000 is = (if is = [] then Some 0x87FF0000 else if is = [0] then Some 0x87FF1000
     else if is = [0, 0] then Some 0x87FF2000 else None)"
proof -
  have al: "aligned 0x87FF0000" "aligned 0x87FF1000" "aligned 0x87FF2000" by (simp_all add: aligned_def)
  consider "is = []" | i where "is = [i]" "i < 512" | i j where "is = [i, j]" "i < 512" "j < 512"
    using assms by (auto simp: table_paths_def le_Suc_eq length_Suc_conv numeral_2_eq_2)
  then show ?thesis
  proof cases
    case (2 i)
    then show ?thesis
      using example_entry [OF al(1) 2(2)] unfolding example_pte by (auto simp: example_links)
  next
    case (3 i j)
    then show ?thesis
      using example_entry [OF al(1) 3(2)] example_entry [OF al(2) 3(3)] unfolding example_pte
      by (auto simp: example_links)
  qed simp
qed

lemma example_tables: "tables example_mem 0x87FF0000 = {0x87FF0000, 0x87FF1000, 0x87FF2000}"
proof -
  have "[] \<in> table_paths" "[0] \<in> table_paths" "[0, 0] \<in> table_paths" by (simp_all add: table_paths_def)
  then show ?thesis by (auto simp: tables_def example_node split: if_splits)
qed

lemma example_leaf: "leaf_table example_mem 0x87FF0000 va = (if PX 2 va = 0 \<and> PX 1 va = 0 then Some 0x87FF2000 else None)"
  unfolding leaf_table_def by (subst example_node [OF leaf_path]) simp

lemma example_pte_at: "pte_at example_mem 0x87FF0000 va = (if PX 2 va = 0 \<and> PX 1 va = 0 \<and> PX 0 va = 0
     then 0x21FFCC1F else 0)"
proof -
  have "aligned 0x87FF2000" by (simp add: aligned_def)
  from example_entry [OF this, of "PX 0 va"]
  have "load64 example_mem (0x87FF2000 + 8 * PX 0 va) = (if PX 0 va \<noteq> 0 then 0 else 0x21FFCC1F)"
    unfolding example_pte by simp
  then show ?thesis by (auto simp: pte_at_def example_leaf)
qed

lemma PX_zero_iff:
  assumes "va < MAXVA"
  shows "PX 2 va = 0 \<and> PX 1 va = 0 \<and> PX 0 va = 0 \<longleftrightarrow> PGROUNDDOWN va = 0"
proof -
  have z: "PX l 0 = 0" for l by (simp add: PX_def)
  have "0 < MAXVA" by (simp add: MAXVA_def)
  from PX_eq_iff [OF assms this] show ?thesis by (simp add: z PGROUNDDOWN_def)
qed

lemma example_pte_at': "va < MAXVA \<Longrightarrow> pte_at example_mem 0x87FF0000 va = (if PGROUNDDOWN va = 0 then 0x21FFCC1F else 0)"
  using PX_zero_iff [of va] by (auto simp: example_pte_at)

lemma example_space_pt: "pt_ok example_space 0x87FF0000 []"
proof -
  have "PTE_FLAGS (load64 example_mem (t + 8 * i)) = PTE_V"
    if "is @ [i] \<in> table_paths" "node example_mem 0x87FF0000 is = Some t" "load64 example_mem (t + 8 * i) AND PTE_V \<noteq> 0" for "is" i t
  proof -
    have "is \<in> table_paths" "i < 512" "is \<noteq> [0, 0]" using that(1) by (auto simp: table_paths_def)
    then have "t = 0x87FF0000 \<or> t = 0x87FF1000" using that(2) by (auto simp: example_node split: if_splits)
    moreover have "aligned 0x87FF0000" "aligned 0x87FF1000" by (simp_all add: aligned_def)
    ultimately show ?thesis
      using that(3) \<open>i < 512\<close> by (auto simp: example_entry example_pte PTE_FLAGS_def split: if_splits)
        (simp_all add: PTE_V_def)
  qed
  then have "pt_tree example_mem 0x87FF0000"
    unfolding pt_tree_def by (auto simp: example_node split: if_splits)
  then show ?thesis
    by (simp add: pt_ok_def example_space_def free_pages_def example_tables page_ok_def aligned_def)
qed

lemma example_uframe: "uframe example_mem 0x87FF0000 va = (if va < MAXVA \<and> PGROUNDDOWN va = 0 then Some 0x87FF3000 else None)"
  by (auto simp: uframe_def Let_def example_pte_at' PTE_V_def PTE_U_def PTE2PA_def split: if_splits)

lemma example_space_ok: "space_ok example_space 0x87FF0000 []"
  unfolding space_ok_def
proof (intro conjI allI impI)
  show "pt_ok example_space 0x87FF0000 []" by (rule example_space_pt)
  fix va f assume "uframe (mem example_space) 0x87FF0000 va = Some f"
  then have f: "f = 0x87FF3000" "PGROUNDDOWN va = 0"
    by (auto simp: example_space_def example_uframe split: if_splits)
  show "page_ok example_space f" "f \<notin> set []" "f \<notin> tables (mem example_space) 0x87FF0000"
    using f by (simp_all add: example_space_def example_tables page_ok_def aligned_def)
  fix va' assume "uframe (mem example_space) 0x87FF0000 va' = Some f"
  then show "PGROUNDDOWN va' = PGROUNDDOWN va"
    using f by (auto simp: example_space_def example_uframe split: if_splits)
qed

lemma PGROUNDDOWN_small: "unat a < 4096 \<Longrightarrow> PGROUNDDOWN a = 0"
  using page_range_iff [of 0 a] by (simp add: aligned_def)

lemma example_umapped: "n \<le> 4096 \<Longrightarrow> umapped (mem example_space) 0x87FF0000 0 n"
  by (auto simp: umapped_def ubyte_def example_space_def example_uframe PGROUNDDOWN_small MAXVA_def)

theorem mappages_maps_range_witness:
  "returns (mappages 0x87FF0000 0x1000 4096 0x87FF4000 PTE_R example_space) (\<lambda>r s'. \<exists>n. pt_ext example_space 0x87FF0000 [] n s'
    \<and> (if r = 0 then pte_at (mem s') 0x87FF0000 0x1000 = PA2PTE 0x87FF4000 OR PTE_R OR PTE_V else r = - 1))"
proof -
  have inval: "\<forall>a<MAXVA. PGROUNDDOWN 0x1000 \<le> a \<and> PGROUNDDOWN a \<le> PGROUNDDOWN (0x1000 + 4096 - 1)
      \<longrightarrow> pte_at (mem example_space) 0x87FF0000 a AND PTE_V = 0"
  proof (intro allI impI, elim conjE)
    fix a :: u64 assume a: "a < MAXVA" "PGROUNDDOWN 0x1000 \<le> a"
    then have "PGROUNDDOWN a \<noteq> 0"
      using page_range_iff [of 0 a] by (auto simp: aligned_def word_le_nat_alt PGROUNDDOWN_def)
    then show "pte_at (mem example_space) 0x87FF0000 a AND PTE_V = 0"
      using a(1) by (simp add: example_space_def example_pte_at')
  qed
  have "0x1000 < MAXVA" by (simp add: MAXVA_def)
  then show ?thesis
    using mappages_maps_range [OF example_space_pt _ _ inval, of "0x87FF4000" PTE_R]
    by (auto elim!: returns_mono simp: PGROUNDDOWN_def)
qed

theorem uvmunmap_frees_range_witness:
  "returns (uvmunmap 0x87FF0000 0 1 True example_space) (\<lambda>_ s'. \<exists>gl. pt_free example_space 0x87FF0000 [] gl s'
     \<and> set gl = {0x87FF3000} \<and> pte_at (mem s') 0x87FF0000 0 AND PTE_V = 0)"
proof -
  have al: "aligned 0" by (simp add: aligned_def)
  have fr: "frames_ok example_space 0x87FF0000 [] 0 (unat (1::u64))"
    by (auto simp: frames_ok_def example_space_def example_pte_at' example_tables PTE_FLAGS_def PTE_V_def
        PTE2PA_def page_ok_def aligned_def PGROUNDDOWN_small split: if_splits)
  have lt: "\<forall>a. unat (0::u64) \<le> unat a \<and> unat a < unat (0::u64) + 4096 * unat (1::u64)
      \<longrightarrow> leaf_table (mem example_space) 0x87FF0000 a \<noteq> None"
  proof (intro allI impI)
    fix a :: u64 assume "unat (0::u64) \<le> unat a \<and> unat a < unat (0::u64) + 4096 * unat (1::u64)"
    then have "PX 2 a = 0 \<and> PX 1 a = 0 \<and> PX 0 a = 0"
      using PX_zero_iff [of a] by (simp add: PGROUNDDOWN_small unat_MAXVA)
    then show "leaf_table (mem example_space) 0x87FF0000 a \<noteq> None" by (simp add: example_space_def example_leaf)
  qed
  have "0 < MAXVA" by (simp add: MAXVA_def)
  moreover have "frames (mem example_space) 0x87FF0000 0 1 = {0x87FF3000}"
    using example_pte_at' [OF \<open>0 < MAXVA\<close>]
    by (simp add: frames_one [OF al \<open>0 < MAXVA\<close>, simplified] example_space_def PGROUNDDOWN_small PTE2PA_def)
  ultimately show ?thesis
    using uvmunmap_frees_range [OF example_space_pt al _ fr lt] by (auto elim!: returns_mono)
qed

theorem copyout_copyin_witness:
  "returns (andthen (copyout 0x87FF0000 0 [1, 2, 3] example_space)
       (\<lambda>r s. copyin 0x87FF0000 [] 0 (length [1::u8, 2, 3]) s))
     (\<lambda>x s'. x = (0, [1, 2, 3]) \<and> ubyte (mem s') 0x87FF0000 7 = ubyte example_mem 0x87FF0000 7)"
proof -
  have "umapped (mem example_space) 0x87FF0000 0 (length [1::u8, 2, 3])" by (rule example_umapped) simp
  from copyout_copyin [OF example_space_ok this] show ?thesis
    by (rule returns_mono) (auto simp: example_space_def)
qed

theorem copyout_fails_iff_witness:
  "returns (copyout 0x87FF0000 0 [1, 2, 3] example_space) (\<lambda>r _. r = 0)
   \<and> returns (copyout 0x87FF0000 0x4000000000 [1] example_space) (\<lambda>r _. r = - 1)"
proof -
  have "umapped (mem example_space) 0x87FF0000 0 (length [1::u8, 2, 3])" by (rule example_umapped) simp
  moreover have "\<not> umapped (mem example_space) 0x87FF0000 0x4000000000 (length [1::u8])" by (simp add: umapped_def)
  ultimately show ?thesis
    using copyout_fails_iff [OF example_space_ok, of 0 "[1, 2, 3]"] copyout_fails_iff [OF example_space_ok, of "0x4000000000" "[1]"] by simp
qed

end
