(* ===== verification/Bio_List.thy ===== *)
theory Bio_List
  imports Bio
begin

text \<open>
  The doubly linked list of the buffer cache (\<open>kernel/bio.c\<close>): what it means that the \<open>prev\<close> and \<open>next\<close>
  fields of the buffers link a list of buffers, that unlinking a buffer and linking it at the front keep
  it linked, what the two searches of \<open>bget\<close> find in it, and that \<open>binit\<close> builds it.
\<close>

section \<open>The list of buffers\<close>

declare NBUF_def [simp del]

text \<open>\<open>linked bs ys\<close>: each buffer of the sequence points forward to the next and back to the one before.\<close>

fun linked :: "buf list \<Rightarrow> nat list \<Rightarrow> bool" where
  "linked bs (a # b # ys) \<longleftrightarrow> nxt (bs ! a) = b \<and> prev (bs ! b) = a \<and> linked bs (b # ys)"
| "linked bs _ \<longleftrightarrow> True"

text \<open>The buffers in the order of the list, the most recently used first.\<close>

definition lru_list :: "buf list \<Rightarrow> nat list \<Rightarrow> bool" where
  "lru_list bs xs \<longleftrightarrow> linked bs (NBUF # xs @ [NBUF]) \<and> distinct xs \<and> set xs \<subseteq> {..<NBUF} \<and> length bs = NBUF + 1"

lemma linked_append: "linked bs (xs @ a # ys) \<longleftrightarrow> linked bs (xs @ [a]) \<and> linked bs (a # ys)"
proof (induction xs)
  case Nil then show ?case by simp
next
  case (Cons x xs) then show ?case by (cases xs) auto
qed

lemma linked_cong:
  assumes "\<forall>i\<in>set (butlast ys). nxt (bs ! i) = nxt (bs' ! i)" and "\<forall>i\<in>set (tl ys). prev (bs ! i) = prev (bs' ! i)"
  shows "linked bs ys = linked bs' ys"
  using assms
proof (induction bs ys rule: linked.induct)
  case (1 bs a b ys)
  have "\<forall>i\<in>set (tl (b # ys)). prev (bs ! i) = prev (bs' ! i)" using "1.prems" by simp
  moreover have "\<forall>i\<in>set (butlast (b # ys)). nxt (bs ! i) = nxt (bs' ! i)" using "1.prems" by (simp split: if_splits)
  ultimately have "linked bs (b # ys) = linked bs' (b # ys)" by (intro "1.IH")
  then show ?case using "1.prems" by simp
qed simp_all

definition unlink_bufs :: "nat \<Rightarrow> buf list \<Rightarrow> buf list" where
  "unlink_bufs b bs =
     (let bs = bs[nxt (bs ! b) := (bs ! nxt (bs ! b))\<lparr>prev := prev (bs ! b)\<rparr>]
      in bs[prev (bs ! b) := (bs ! prev (bs ! b))\<lparr>nxt := nxt (bs ! b)\<rparr>])"

definition link_bufs :: "nat \<Rightarrow> buf list \<Rightarrow> buf list" where
  "link_bufs b bs =
     (let bs = bs[b := (bs ! b)\<lparr>nxt := nxt (bs ! NBUF)\<rparr>];
          bs = bs[b := (bs ! b)\<lparr>prev := NBUF\<rparr>];
          bs = bs[nxt (bs ! NBUF) := (bs ! nxt (bs ! NBUF))\<lparr>prev := b\<rparr>]
      in bs[NBUF := (bs ! NBUF)\<lparr>nxt := b\<rparr>])"

lemma unlink_buf_eq: "unlink_buf b s = s\<lparr>bufs := unlink_bufs b (bufs s)\<rparr>"
  by (simp add: unlink_buf_def unlink_bufs_def upd_buf_def Let_def)

lemma link_front_eq: "link_front b s = s\<lparr>bufs := link_bufs b (bufs s)\<rparr>"
  by (simp add: link_front_def link_bufs_def upd_buf_def Let_def)

lemma length_link [simp]: "length (link_bufs b bs) = length bs" "length (unlink_bufs b bs) = length bs"
  by (simp_all add: link_bufs_def unlink_bufs_def Let_def)

lemma lru_unlink:
  assumes "lru_list bs (ys @ b # zs)"
  shows "lru_list (unlink_bufs b bs) (ys @ zs)"
proof -
  define A pr where "A = butlast (NBUF # ys)" and "pr = last (NBUF # ys)"
  define nx B where "nx = hd (zs @ [NBUF])" and "B = tl (zs @ [NBUF])"
  have Ap: "NBUF # ys = A @ [pr]" by (simp only: A_def pr_def append_butlast_last_id list.distinct not_False_eq_True)
  have nB: "zs @ [NBUF] = nx # B" by (simp add: nx_def B_def)
  have dist: "distinct (ys @ b # zs)" and sub: "set (ys @ b # zs) \<subseteq> {..<NBUF}" and len: "length bs = NBUF + 1"
    using assms by (auto simp: lru_list_def)
  have "linked bs ((NBUF # ys) @ b # (zs @ [NBUF]))" using assms by (simp add: lru_list_def)
  then have L: "linked bs (A @ pr # b # nx # B)" by (simp add: Ap nB)
  then have LA: "linked bs (A @ [pr])" and pb: "prev (bs ! b) = pr" "nxt (bs ! b) = nx" and LB: "linked bs (nx # B)"
    using linked_append [of bs A pr "b # nx # B"] by simp_all
  have prb: "pr \<in> set (NBUF # ys)" and nxb: "nx \<in> set (zs @ [NBUF])" by (simp_all only: Ap nB) simp_all
  have ne: "b \<noteq> nx" "b \<noteq> pr" using prb nxb dist sub by auto
  have rng: "pr < length bs" "nx < length bs" using prb nxb sub len by auto
  let ?bs = "unlink_bufs b bs"
  have un: "?bs = bs[nx := (bs ! nx)\<lparr>prev := pr\<rparr>, pr := (bs[nx := (bs ! nx)\<lparr>prev := pr\<rparr>] ! pr)\<lparr>nxt := nx\<rparr>]"
    using ne by (simp add: unlink_bufs_def Let_def pb)
  have fld: "nxt (?bs ! i) = (if i = pr then nx else nxt (bs ! i))" "prev (?bs ! i) = (if i = nx then pr else prev (bs ! i))" for i
    using rng by (auto simp: un nth_list_update)
  have "pr \<notin> set A" using dist sub arg_cong [OF Ap, of distinct] by auto
  moreover have "nx \<notin> set (tl (A @ [pr]))"
    using nxb dist sub by (simp only: Ap [symmetric]) auto
  ultimately have 1: "linked ?bs (A @ [pr])" using LA linked_cong [of "A @ [pr]" bs ?bs] by (simp add: fld)
  have "nx \<notin> set B" using dist sub arg_cong [OF nB, of distinct] by auto
  moreover have "pr \<notin> set (butlast (nx # B))"
    using prb dist sub by (simp only: nB [symmetric]) auto
  ultimately have 2: "linked ?bs (nx # B)"
    using LB linked_cong [of "nx # B" bs ?bs] by (simp add: fld split: if_splits)
  have "linked ?bs (A @ pr # nx # B)"
    using 1 2 linked_append [of ?bs A pr "nx # B"] by (simp add: fld)
  then have "linked ?bs ((NBUF # ys) @ (zs @ [NBUF]))" by (simp add: Ap nB)
  then show ?thesis using dist sub len by (simp add: lru_list_def)
qed

lemma lru_link:
  assumes "lru_list bs xs" and "b < NBUF" and "b \<notin> set xs"
  shows "lru_list (link_bufs b bs) (b # xs)"
proof -
  define nx B where "nx = hd (xs @ [NBUF])" and "B = tl (xs @ [NBUF])"
  have nB: "xs @ [NBUF] = nx # B" by (simp add: nx_def B_def)
  have dist: "distinct xs" and sub: "set xs \<subseteq> {..<NBUF}" and len: "length bs = NBUF + 1"
    using assms by (auto simp: lru_list_def)
  have L: "linked bs (NBUF # nx # B)" using assms(1) by (simp add: lru_list_def nB)
  have nxb: "nx \<in> set (xs @ [NBUF])" by (simp only: nB) simp
  have rng: "nx < length bs" "nx \<noteq> b" using nxb sub len assms(2,3) by auto
  let ?bs = "link_bufs b bs"
  have fld: "nxt (?bs ! i) = (if i = NBUF then b else if i = b then nx else nxt (bs ! i))"
    "prev (?bs ! i) = (if i = nx then b else if i = b then NBUF else prev (bs ! i))" for i
    using rng L assms(2) len by (auto simp: link_bufs_def Let_def nth_list_update)
  have "nx \<notin> set B" using dist sub arg_cong [OF nB, of distinct] by auto
  moreover have "b \<notin> set B" proof -
    have "set B \<subseteq> set (xs @ [NBUF])" by (simp only: nB) auto
    then show ?thesis using assms(2,3) by auto
  qed
  moreover have "set (butlast (nx # B)) = set xs" by (simp only: nB [symmetric]) simp
  then have "NBUF \<notin> set (butlast (nx # B)) \<and> b \<notin> set (butlast (nx # B))" using sub assms(3) by auto
  ultimately have "linked bs (nx # B) = linked ?bs (nx # B)"
    by (intro linked_cong ballI) (auto simp only: fld list.sel split: if_split)
  then have "linked ?bs (nx # B)" using L by simp
  then have "linked ?bs (NBUF # b # nx # B)" using assms(2) rng by (simp add: fld)
  then show ?thesis using dist sub len assms(2,3) by (simp add: lru_list_def nB)
qed

lemma scan_next_find:
  assumes "linked bs (ys @ [NBUF])" and "NBUF \<notin> set ys" and "length ys < n"
  shows "scan_next n bs (hd (ys @ [NBUF])) P = Some (find (\<lambda>i. P (bs ! i)) ys)"
  using assms
proof (induction ys arbitrary: n)
  case Nil
  then show ?case by (cases n) simp_all
next
  case (Cons y ys)
  obtain m where n: "n = Suc m" "length ys < m" using Cons.prems(3) by (cases n) auto
  have "nxt (bs ! y) = hd (ys @ [NBUF])" "linked bs (ys @ [NBUF])" using Cons.prems(1) by (cases ys; simp)+
  then show ?case using Cons.IH [of m] Cons.prems(2) n by simp
qed

lemma scan_prev_find:
  assumes "linked bs (NBUF # ys)" and "NBUF \<notin> set ys" and "length ys < n"
  shows "scan_prev n bs (last (NBUF # ys)) P = Some (find (\<lambda>i. P (bs ! i)) (rev ys))"
  using assms
proof (induction ys arbitrary: n rule: rev_induct)
  case Nil
  then show ?case by (cases n) simp_all
next
  case (snoc y ys)
  obtain m where n: "n = Suc m" "length ys < m" using snoc.prems(3) by (cases n) auto
  define A l where "A = butlast (NBUF # ys)" and "l = last (NBUF # ys)"
  have Al: "NBUF # ys = A @ [l]" by (simp only: A_def l_def append_butlast_last_id list.distinct not_False_eq_True)
  have "linked bs (A @ l # [y])" using snoc.prems(1) Al by (metis append.assoc append_Cons append_Nil)
  then have "prev (bs ! y) = l" "linked bs (NBUF # ys)" using linked_append [of bs A l "[y]"] by (simp_all add: Al)
  then show ?case using snoc.IH [of m] snoc.prems(2) n by (simp add: l_def)
qed

lemma lru_length: "lru_list bs xs \<Longrightarrow> length xs \<le> NBUF"
  using card_mono [of "{..<NBUF}" "set xs"] by (simp add: lru_list_def distinct_card)

lemma lru_scan_next:
  assumes "lru_list bs xs"
  shows "scan_next (NBUF + 1) bs (nxt (bs ! NBUF)) P = Some (find (\<lambda>i. P (bs ! i)) xs)"
proof -
  have "linked bs (xs @ [NBUF])" "nxt (bs ! NBUF) = hd (xs @ [NBUF])" "NBUF \<notin> set xs"
    using assms by (cases xs; auto simp: lru_list_def)+
  then show ?thesis using scan_next_find [of bs xs "NBUF + 1" P] lru_length [OF assms] by simp
qed

lemma lru_scan_prev:
  assumes "lru_list bs xs"
  shows "scan_prev (NBUF + 1) bs (prev (bs ! NBUF)) P = Some (find (\<lambda>i. P (bs ! i)) (rev xs))"
proof -
  define A l where "A = butlast (NBUF # xs)" and "l = last (NBUF # xs)"
  have Al: "NBUF # xs = A @ [l]" by (simp only: A_def l_def append_butlast_last_id list.distinct not_False_eq_True)
  have "linked bs ((NBUF # xs) @ [NBUF])" using assms by (simp add: lru_list_def)
  then have "linked bs (A @ l # [NBUF])" by (simp only: Al append.assoc append_Cons append_Nil)
  then have "linked bs (NBUF # xs)" "prev (bs ! NBUF) = l" using linked_append [of bs A l "[NBUF]"] by (simp_all add: Al)
  moreover have "NBUF \<notin> set xs" using assms by (auto simp: lru_list_def)
  ultimately show ?thesis
    using scan_prev_find [of bs xs "NBUF + 1" P] lru_length [OF assms] by (simp add: l_def)
qed

lemma lru_fields_cong:
  assumes "lru_list bs xs" and "length bs' = length bs"
    and "\<forall>i<length bs. nxt (bs' ! i) = nxt (bs ! i) \<and> prev (bs' ! i) = prev (bs ! i)"
  shows "lru_list bs' xs"
proof -
  have s: "set (NBUF # xs @ [NBUF]) \<subseteq> {..<length bs}" using assms(1) by (auto simp: lru_list_def)
  have "linked bs (NBUF # xs @ [NBUF]) = linked bs' (NBUF # xs @ [NBUF])"
    using assms(3) s by (intro linked_cong ballI) (auto dest!: in_set_butlastD)
  then show ?thesis using assms(1,2) by (simp add: lru_list_def)
qed

lemma initsleeplock_bufs [simp]: "bufs (initsleeplock l s) = bufs s"
  by (simp add: initsleeplock_def)

lemma binit_loop_lru:
  "lru_list (bufs s) xs \<Longrightarrow> b + k \<le> NBUF \<Longrightarrow> set xs \<subseteq> {..<b} \<Longrightarrow> lru_list (bufs (binit_loop b k s)) (rev [b..<b + k] @ xs)"
proof (induction k arbitrary: b s xs)
  case (Suc k)
  have "lru_list (bufs (link_front b (initsleeplock (SL_buf b) s))) (b # xs)"
    using Suc.prems lru_link [of "bufs s" xs b] by (auto simp: link_front_eq)
  moreover have "set (b # xs) \<subseteq> {..<Suc b}" using Suc.prems(3) by (auto simp: less_Suc_eq)
  ultimately show ?case using Suc.IH [of _ "b # xs" "Suc b"] Suc.prems(2)
    by (simp add: upt_conv_Cons del: upt_Suc)
qed simp

lemma binit_lru:
  assumes "length (bufs s) = NBUF + 1"
  shows "lru_list (bufs (binit s)) (rev [0..<NBUF])"
proof -
  let ?s = "upd_buf NBUF (\<lambda>x. x\<lparr>prev := NBUF, nxt := NBUF\<rparr>) (s\<lparr>held := held s - {L_bcache}\<rparr>)"
  have "lru_list (bufs ?s) []" using assms by (simp add: lru_list_def upd_buf_def)
  from binit_loop_lru [OF this, of 0 NBUF] show ?thesis by (simp add: binit_def)
qed

end
