(* ===== verification/Bio_Cache.thy ===== *)
theory Bio_Cache
  imports Bio_List
begin

text \<open>
  The invariant of the buffer cache (\<open>kernel/bio.c\<close>) and what each operation does under it: every block is
  cached at most once, a buffer that nobody uses agrees with the disk, and a buffer is locked or pinned
  exactly when the caller holds or pinned it. \<open>blk\<close> is the contents of a block as the kernel sees them: the
  cached data if there are any, the disk otherwise.
\<close>

section \<open>The cache invariant\<close>

text \<open>What the operations of the cache may change, and what they keep of the processes.\<close>

definition bio_frame :: "'a bio_state_scheme \<Rightarrow> 'a bio_state_scheme \<Rightarrow> bool" where
  "bio_frame s t \<longleftrightarrow> t\<lparr>bufs := bufs s, sleeplocks := sleeplocks s, disk := disk s, disk_writes := disk_writes s,
     procs := procs s\<rparr> = s \<and> map pid (procs t) = map pid (procs s)
     \<and> (\<forall>i. sleeplocks t (SL_inode i) = sleeplocks s (SL_inode i))"

lemma bio_frame_refl [simp]: "bio_frame s s"
  by (simp add: bio_frame_def)

lemma bio_frame_trans:
  assumes "bio_frame s t" and "bio_frame t u"
  shows "bio_frame s u"
proof -
  let ?f = "\<lambda>w. w\<lparr>bufs := bufs s, sleeplocks := sleeplocks s, disk := disk s, disk_writes := disk_writes s, procs := procs s\<rparr>"
  let ?g = "\<lambda>w. w\<lparr>bufs := bufs t, sleeplocks := sleeplocks t, disk := disk t, disk_writes := disk_writes t, procs := procs t\<rparr>"
  have "?f u = ?f (?g u)" by simp
  also have "?g u = t" using assms(2) by (simp add: bio_frame_def)
  also have "?f t = s" using assms(1) by (simp add: bio_frame_def)
  finally show ?thesis using assms by (simp add: bio_frame_def)
qed

lemma bio_frameD:
  assumes "bio_frame s t"
  shows "cur t = cur s" "held t = held s" "length (procs t) = length (procs s)"
  using arg_cong [of _ _ cur, OF conjunct1 [OF assms [unfolded bio_frame_def]]]
    arg_cong [of _ _ held, OF conjunct1 [OF assms [unfolded bio_frame_def]]]
    arg_cong [of _ _ length, OF conjunct1 [OF conjunct2 [OF assms [unfolded bio_frame_def]]]]
  by simp_all

lemma bio_frame_calm: "bio_frame s t \<Longrightarrow> calm s \<Longrightarrow> calm t"
  using bio_frameD [of s t] by (simp add: calm_def)

lemma bio_frame_mypid: "bio_frame s t \<Longrightarrow> calm s \<Longrightarrow> mypid t = mypid s"
proof -
  assume f: "bio_frame s t" and c: "calm s"
  then obtain p where p: "cur s = Some p" "p < length (procs s)" by (auto simp: calm_def)
  have "map pid (procs t) ! p = map pid (procs s) ! p" using f by (simp add: bio_frame_def)
  then show ?thesis using p bio_frameD [OF f] by (simp add: mypid_def)
qed

text \<open>
  \<open>cache_inv D H P s\<close>: the cache of device \<open>D\<close> when the running process has the buffers \<open>H\<close> locked, the
  log has the buffers \<open>P\<close> pinned, and nobody else uses any. Every block is cached at most once,
  and a buffer that is neither locked nor pinned holds what is on disk.
\<close>

definition buf_ok :: "u32 \<Rightarrow> nat set \<Rightarrow> nat set \<Rightarrow> 'a bio_state_scheme \<Rightarrow> nat \<Rightarrow> bool" where
  "buf_ok D H P s i \<longleftrightarrow>
     (bdev (buf_at s i) = D \<or> bdev (buf_at s i) = 0) \<and> (valid (buf_at s i) \<longrightarrow> bdev (buf_at s i) = D)
   \<and> refcnt (buf_at s i) = of_bool (i \<in> H) + of_bool (i \<in> P) \<and> (i \<in> H \<union> P \<longrightarrow> valid (buf_at s i))
   \<and> (i \<notin> H \<union> P \<and> valid (buf_at s i) \<longrightarrow> bdata (buf_at s i) = disk s (blockno (buf_at s i)))
   \<and> (valid (buf_at s i) \<longrightarrow> length (bdata (buf_at s i)) = BSIZE)
   \<and> (if i \<in> H then sleeplocks s (SL_buf i) = \<lparr>locked_sl = True, pid_sl = mypid s\<rparr>
      else \<not> locked_sl (sleeplocks s (SL_buf i)))"

definition cached_once :: "u32 \<Rightarrow> 'a bio_state_scheme \<Rightarrow> bool" where
  "cached_once D s \<longleftrightarrow> (\<forall>i<NBUF. \<forall>j<NBUF. bdev (buf_at s i) = D \<and> bdev (buf_at s j) = D
     \<and> blockno (buf_at s i) = blockno (buf_at s j) \<longrightarrow> i = j)"

definition cache_inv :: "u32 \<Rightarrow> nat set \<Rightarrow> nat set \<Rightarrow> 'a bio_state_scheme \<Rightarrow> bool" where
  "cache_inv D H P s \<longleftrightarrow> D \<noteq> 0 \<and> calm s \<and> (\<exists>xs. lru_list (bufs s) xs \<and> set xs = {..<NBUF})
     \<and> H \<subseteq> {..<NBUF} \<and> P \<subseteq> {..<NBUF} \<and> (\<forall>i<NBUF. buf_ok D H P s i) \<and> cached_once D s
     \<and> (\<forall>n. length (disk s n) = BSIZE)"

text \<open>The contents of block \<open>n\<close> as the kernel sees them.\<close>

definition blk :: "'a bio_state_scheme \<Rightarrow> u32 \<Rightarrow> u8 list" where
  "blk s n = (case find (\<lambda>i. valid (buf_at s i) \<and> blockno (buf_at s i) = n) [0..<NBUF] of
     Some i \<Rightarrow> bdata (buf_at s i) | None \<Rightarrow> disk s n)"

lemma cache_inv_bufD:
  "cache_inv D H P s \<Longrightarrow> i < NBUF \<Longrightarrow> buf_ok D H P s i"
  by (simp add: cache_inv_def)

lemma cache_inv_len: "cache_inv D H P s \<Longrightarrow> length (bufs s) = NBUF + 1"
  by (auto simp: cache_inv_def lru_list_def)

lemma blk_valid:
  assumes "cache_inv D H P s" and "i < NBUF" and "valid (buf_at s i)" and "blockno (buf_at s i) = n"
  shows "blk s n = bdata (buf_at s i)"
proof -
  let ?Q = "\<lambda>i. valid (buf_at s i) \<and> blockno (buf_at s i) = n"
  have uniq: "j = i" if "j < NBUF" "?Q j" for j
  proof -
    have "bdev (buf_at s i) = D" "bdev (buf_at s j) = D"
      using cache_inv_bufD [OF assms(1)] assms(2,3) that by (simp_all add: buf_ok_def)
    then show ?thesis using assms that unfolding cache_inv_def cached_once_def by blast
  qed
  have "\<exists>j. find ?Q [0..<NBUF] = Some j"
  proof (rule ccontr)
    assume "\<not> ?thesis"
    then have "find ?Q [0..<NBUF] = None" by simp
    then show False using assms(2-4) by (auto simp: find_None_iff)
  qed
  then obtain j where j: "find ?Q [0..<NBUF] = Some j" by blast
  then have "j < NBUF" "?Q j" by (auto simp: find_Some_iff)
  then have "j = i" by (rule uniq)
  then show ?thesis using j by (simp add: blk_def)
qed

lemma blk_uncached: "(\<And>i. i < NBUF \<Longrightarrow> valid (buf_at s i) \<Longrightarrow> blockno (buf_at s i) \<noteq> n) \<Longrightarrow> blk s n = disk s n"
proof -
  assume "\<And>i. i < NBUF \<Longrightarrow> valid (buf_at s i) \<Longrightarrow> blockno (buf_at s i) \<noteq> n"
  then have "find (\<lambda>i. valid (buf_at s i) \<and> blockno (buf_at s i) = n) [0..<NBUF] = None"
    by (auto simp: find_None_iff)
  then show ?thesis by (simp add: blk_def)
qed

lemma length_blk: "cache_inv D H P s \<Longrightarrow> length (blk s n) = BSIZE"
proof (cases "\<exists>i<NBUF. valid (buf_at s i) \<and> blockno (buf_at s i) = n")
  case True
  assume c: "cache_inv D H P s"
  from True obtain i where "i < NBUF" "valid (buf_at s i)" "blockno (buf_at s i) = n" by blast
  then show ?thesis using blk_valid [OF c] cache_inv_bufD [OF c] by (simp add: buf_ok_def)
next
  case False
  assume c: "cache_inv D H P s"
  then show ?thesis using False blk_uncached [of s n] by (auto simp: cache_inv_def)
qed

text \<open>What locked and pinned buffers keep.\<close>

definition keeps :: "nat set \<Rightarrow> 'a bio_state_scheme \<Rightarrow> 'a bio_state_scheme \<Rightarrow> bool" where
  "keeps X s t \<longleftrightarrow> (\<forall>i\<in>X. blockno (buf_at t i) = blockno (buf_at s i) \<and> bdata (buf_at t i) = bdata (buf_at s i))"

section \<open>One rule per operation\<close>

lemma bufs_held: "held s = {} \<Longrightarrow> s\<lparr>bufs := x, held := {}\<rparr> = s\<lparr>bufs := x\<rparr>"
  by simp

text \<open>The state \<open>bread\<close> leaves: buffer \<open>b\<close> locked, holding block \<open>n\<close> with contents \<open>d\<close>.\<close>

definition fill :: "u32 \<Rightarrow> u32 \<Rightarrow> u8 list \<Rightarrow> buf \<Rightarrow> buf" where
  "fill D n d x = x\<lparr>valid := True, bdev := D, blockno := n, refcnt := refcnt x + 1, bdata := d\<rparr>"

lemma fill_simps [simp]:
  "valid (fill D n d x)" "bdev (fill D n d x) = D" "blockno (fill D n d x) = n" "bdata (fill D n d x) = d"
  "refcnt (fill D n d x) = refcnt x + 1" "nxt (fill D n d x) = nxt x" "prev (fill D n d x) = prev x"
  by (simp_all add: fill_def)

lemma refcnt_0: "of_bool a + of_bool b = (0 :: u32) \<longleftrightarrow> \<not> a \<and> \<not> b"
  by (cases a; cases b) simp_all

definition load_buf :: "nat \<Rightarrow> u32 \<Rightarrow> u32 \<Rightarrow> u8 list \<Rightarrow> 'a bio_state_scheme \<Rightarrow> 'a bio_state_scheme" where
  "load_buf b D n d s = s\<lparr>bufs := (bufs s)[b := fill D n d (bufs s ! b)],
     sleeplocks := (sleeplocks s)(SL_buf b := \<lparr>locked_sl = True, pid_sl = mypid s\<rparr>)\<rparr>"

definition may_load :: "u32 \<Rightarrow> u32 \<Rightarrow> nat set \<Rightarrow> nat set \<Rightarrow> 'a bio_state_scheme \<Rightarrow> nat \<Rightarrow> bool" where
  "may_load D n H P s b \<longleftrightarrow> b < NBUF \<and> b \<notin> H \<and> (bdev (buf_at s b) = D \<and> blockno (buf_at s b) = n
     \<or> b \<notin> P \<and> (\<forall>i<NBUF. \<not> (bdev (buf_at s i) = D \<and> blockno (buf_at s i) = n)))"

lemma find_lru_Some:
  "set xs = {..<NBUF} \<Longrightarrow> find P xs = Some b \<Longrightarrow> b < NBUF \<and> P b"
  by (auto simp: find_Some_iff dest: nth_mem)

lemma find_lru_None: "set xs = {..<NBUF} \<Longrightarrow> find P xs = None \<longleftrightarrow> (\<forall>i<NBUF. \<not> P i)"
  by (auto simp: find_None_iff)

lemma blk_invalid:
  assumes c: "cache_inv D H P s" and b: "b < NBUF" "bdev (buf_at s b) = D" "blockno (buf_at s b) = n" "\<not> valid (buf_at s b)"
  shows "blk s n = disk s n"
proof (rule blk_uncached)
  fix i assume i: "i < NBUF" "valid (buf_at s i)"
  then have "bdev (buf_at s i) = D" using cache_inv_bufD [OF c] by (simp add: buf_ok_def)
  moreover have "i \<noteq> b" using i b by auto
  ultimately show "blockno (buf_at s i) \<noteq> n" using c b i unfolding cache_inv_def cached_once_def by blast
qed

lemma bread_hit:
  assumes c: "cache_inv D H P s" and b: "b < NBUF" "b \<notin> H" "bdev (buf_at s b) = D" "blockno (buf_at s b) = n"
    and lru: "lru_list (bufs s) xs" "find (\<lambda>i. bdev (buf_at s i) = D \<and> blockno (buf_at s i) = n) xs = Some b"
  shows "bread D n s = Done b (load_buf b D n (blk s n) s)"
proof -
  obtain p where p: "cur s = Some p" "held s = {}" using c by (auto simp: cache_inv_def calm_def)
  have len: "b < length (bufs s)" using cache_inv_len [OF c] b by simp
  let ?s1 = "upd_buf b (\<lambda>x. x\<lparr>refcnt := refcnt x + 1\<rparr>) s"
  have nl: "\<not> locked_sl (sleeplocks s (SL_buf b))" using cache_inv_bufD [OF c b(1)] b(2) by (simp add: buf_ok_def)
  have "bget D n s = andthen (acquiresleep (SL_buf b) ?s1) (\<lambda>_ s. Done b s)"
    using p lru lru_scan_next [of "bufs s" xs "\<lambda>b. bdev b = D \<and> blockno b = n"]
    by (simp add: bget_def upd_buf_def bufs_held del: scan_next.simps)
  also have "acquiresleep (SL_buf b) ?s1 = Done () (set_sl (SL_buf b) True (mypid s) ?s1)"
    using acquiresleep_Done [of ?s1 p "SL_buf b"] p nl by (simp add: upd_buf_def mypid_def)
  finally have g: "bget D n s = Done b (set_sl (SL_buf b) True (mypid s) ?s1)" by simp
  show ?thesis
  proof (cases "valid (buf_at s b)")
    case True
    then have "blk s n = bdata (buf_at s b)" using blk_valid [OF c b(1) _ b(4)] by simp
    moreover have "(buf_at s b)\<lparr>refcnt := refcnt (buf_at s b) + 1\<rparr> = fill D n (bdata (buf_at s b)) (buf_at s b)"
      using True b by (intro buf.equality) (simp_all add: fill_def)
    ultimately show ?thesis using True len by (simp add: bread_def g load_buf_def set_sl_def upd_buf_def)
  next
    case False
    then have "blk s n = disk s n" using blk_invalid [OF c b(1,3,4)] by simp
    moreover have "(buf_at s b)\<lparr>refcnt := refcnt (buf_at s b) + 1, bdata := disk s n, valid := True\<rparr> = fill D n (disk s n) (buf_at s b)"
      using b by (intro buf.equality) (simp_all add: fill_def)
    ultimately show ?thesis using False len b
      by (simp add: bread_def g load_buf_def set_sl_def upd_buf_def disk_rw_def Let_def)
  qed
qed

lemma bread_miss:
  assumes c: "cache_inv D H P s" and b: "b < NBUF" "b \<notin> H \<union> P"
    and none: "\<forall>i<NBUF. \<not> (bdev (buf_at s i) = D \<and> blockno (buf_at s i) = n)"
    and lru: "lru_list (bufs s) xs" "set xs = {..<NBUF}" "find (\<lambda>i. refcnt (buf_at s i) = 0) (rev xs) = Some b"
  shows "bread D n s = Done b (load_buf b D n (blk s n) s)"
proof -
  obtain p where p: "cur s = Some p" "held s = {}" using c by (auto simp: cache_inv_def calm_def)
  have len: "b < length (bufs s)" using cache_inv_len [OF c] b by simp
  let ?s1 = "upd_buf b (\<lambda>x. x\<lparr>bdev := D, blockno := n, valid := False, refcnt := 1\<rparr>) s"
  have ok: "buf_ok D H P s b" using cache_inv_bufD [OF c b(1)] .
  have nl: "\<not> locked_sl (sleeplocks s (SL_buf b))" and r0: "refcnt (buf_at s b) = 0"
    using ok b(2) by (auto simp: buf_ok_def)
  have "find (\<lambda>i. bdev (buf_at s i) = D \<and> blockno (buf_at s i) = n) xs = None"
    using none find_lru_None [OF lru(2)] by simp
  then have "bget D n s = andthen (acquiresleep (SL_buf b) ?s1) (\<lambda>_ s. Done b s)"
    using p lru lru_scan_next [OF lru(1), of "\<lambda>b. bdev b = D \<and> blockno b = n"] lru_scan_prev [OF lru(1), of "\<lambda>b. refcnt b = 0"]
    by (simp add: bget_def upd_buf_def bufs_held del: scan_next.simps scan_prev.simps)
  also have "acquiresleep (SL_buf b) ?s1 = Done () (set_sl (SL_buf b) True (mypid s) ?s1)"
    using acquiresleep_Done [of ?s1 p "SL_buf b"] p nl by (simp add: upd_buf_def mypid_def)
  finally have g: "bget D n s = Done b (set_sl (SL_buf b) True (mypid s) ?s1)" by simp
  have "blk s n = disk s n"
  proof (rule blk_uncached)
    fix i assume "i < NBUF" "valid (buf_at s i)"
    then show "blockno (buf_at s i) \<noteq> n" using none cache_inv_bufD [OF c, of i] by (auto simp: buf_ok_def)
  qed
  moreover have "(buf_at s b)\<lparr>bdev := D, blockno := n, refcnt := 1, bdata := disk s n, valid := True\<rparr> = fill D n (disk s n) (buf_at s b)"
    using r0 by (intro buf.equality) (simp_all add: fill_def)
  ultimately show ?thesis using len r0
    by (simp add: bread_def g load_buf_def set_sl_def upd_buf_def disk_rw_def Let_def)
qed

lemma bread_Done:
  assumes c: "cache_inv D H P s" and nH: "\<forall>i\<in>H. blockno (buf_at s i) \<noteq> n"
    and room: "(\<exists>i<NBUF. bdev (buf_at s i) = D \<and> blockno (buf_at s i) = n) \<or> (\<exists>i<NBUF. i \<notin> H \<union> P)"
  shows "\<exists>b. may_load D n H P s b \<and> bread D n s = Done b (load_buf b D n (blk s n) s)"
proof -
  obtain xs where lru: "lru_list (bufs s) xs" "set xs = {..<NBUF}" using c by (auto simp: cache_inv_def)
  let ?hit = "\<lambda>i. bdev (buf_at s i) = D \<and> blockno (buf_at s i) = n"
  show ?thesis
  proof (cases "find ?hit xs")
    case (Some b)
    have b: "b < NBUF" "bdev (buf_at s b) = D" "blockno (buf_at s b) = n" using find_lru_Some [OF lru(2) Some] by simp_all
    then have bH: "b \<notin> H" using nH by auto
    have "may_load D n H P s b" using b bH by (simp add: may_load_def)
    then show ?thesis using bread_hit [OF c b(1) bH b(2,3) lru(1) Some] by blast
  next
    case None
    then have none: "\<forall>i<NBUF. \<not> ?hit i" using find_lru_None [OF lru(2), of ?hit] by simp
    then obtain i where i: "i < NBUF" "i \<notin> H \<union> P" using room by blast
    have "refcnt (buf_at s i) = 0" using cache_inv_bufD [OF c i(1)] i by (auto simp: buf_ok_def)
    then have "find (\<lambda>i. refcnt (buf_at s i) = 0) (rev xs) \<noteq> None" using i lru(2) by (auto simp: find_None_iff)
    then obtain b where f: "find (\<lambda>i. refcnt (buf_at s i) = 0) (rev xs) = Some b" by blast
    have b: "b < NBUF" "refcnt (buf_at s b) = 0" using find_lru_Some [OF _ f] lru(2) by simp_all
    have bH: "b \<notin> H \<union> P" using cache_inv_bufD [OF c b(1)] b(2) by (simp add: buf_ok_def refcnt_0)
    then have "may_load D n H P s b" using b none by (simp add: may_load_def)
    then show ?thesis using bread_miss [OF c b(1) bH none lru f] by blast
  qed
qed

lemma cache_inv_lruD: "cache_inv D H P s \<Longrightarrow> \<exists>xs. lru_list (bufs s) xs \<and> set xs = {..<NBUF}"
  by (simp add: cache_inv_def)

lemma cache_inv_onceD:
  "cache_inv D H P s \<Longrightarrow> i < NBUF \<Longrightarrow> j < NBUF \<Longrightarrow> bdev (buf_at s i) = D \<Longrightarrow> bdev (buf_at s j) = D \<Longrightarrow>
   blockno (buf_at s i) = blockno (buf_at s j) \<Longrightarrow> i = j"
  unfolding cache_inv_def cached_once_def by blast

lemma cache_invI:
  assumes "cache_inv D H P s" and "bio_frame s t" and "H' \<subseteq> {..<NBUF}" and "P' \<subseteq> {..<NBUF}"
    and "\<exists>xs. lru_list (bufs t) xs \<and> set xs = {..<NBUF}" and "\<And>i. i < NBUF \<Longrightarrow> buf_ok D H' P' t i"
    and "cached_once D t" and "\<And>n. length (disk t n) = BSIZE"
  shows "cache_inv D H' P' t"
  using assms bio_frame_calm [OF assms(2)] unfolding cache_inv_def by blast

lemma cache_invD:
  assumes "cache_inv D H P s"
  shows "calm s" "H \<subseteq> {..<NBUF}" "P \<subseteq> {..<NBUF}" "length (disk s n) = BSIZE"
  using assms unfolding cache_inv_def by blast+

text \<open>Changing one buffer but not its links keeps the list.\<close>

lemma lru_update:
  assumes "lru_list bs xs" and "nxt x = nxt (bs ! b)" and "prev x = prev (bs ! b)"
  shows "lru_list (bs[b := x]) xs"
  using assms by (cases "b < length bs") (auto intro!: lru_fields_cong [OF assms(1)] simp: nth_list_update)

lemma load_frame:
  "calm s \<Longrightarrow> bio_frame s (load_buf b D n d s)"
  by (simp add: bio_frame_def load_buf_def)

lemma load_buf_at:
  "b < length (bufs s) \<Longrightarrow> buf_at (load_buf b D n d s) i = (if i = b then fill D n d (buf_at s b) else buf_at s i)"
  by (simp add: load_buf_def)

lemma load_inv:
  assumes c: "cache_inv D H P s" and m: "may_load D n H P s b"
  shows "cache_inv D (insert b H) P (load_buf b D n (blk s n) s)"
proof -
  let ?t = "load_buf b D n (blk s n) s"
  have b: "b < NBUF" "b \<notin> H" using m by (simp_all add: may_load_def)
  have len: "b < length (bufs s)" using b cache_inv_len [OF c] by simp
  note at = load_buf_at [OF len]
  have other: "bdev (buf_at s i) = D \<Longrightarrow> blockno (buf_at s i) = n \<Longrightarrow> i < NBUF \<Longrightarrow> i = b" for i
    using m cache_inv_onceD [OF c, of i b] unfolding may_load_def by metis
  have pid: "mypid ?t = mypid s" by (simp add: mypid_def load_buf_def)
  have ok: "buf_ok D (insert b H) P ?t i" if "i < NBUF" for i
  proof (cases "i = b")
    case True
    have "buf_ok D H P s b" using cache_inv_bufD [OF c b(1)] .
    then show ?thesis using True b length_blk [OF c, of n]
      by (simp add: buf_ok_def at pid add.commute) (simp add: load_buf_def)
  next
    case False
    have "buf_ok D H P s i" using cache_inv_bufD [OF c that] .
    moreover have "disk ?t = disk s" "sleeplocks ?t (SL_buf i) = sleeplocks s (SL_buf i)"
      using False by (simp_all add: load_buf_def)
    ultimately show ?thesis using False by (simp add: buf_ok_def at pid)
  qed
  have once: "cached_once D ?t"
    unfolding cached_once_def
  proof (intro allI impI, elim conjE)
    fix i j assume ij: "i < NBUF" "j < NBUF" "bdev (buf_at ?t i) = D" "bdev (buf_at ?t j) = D"
      "blockno (buf_at ?t i) = blockno (buf_at ?t j)"
    show "i = j"
    proof (cases "i = b")
      case True
      then have "j \<noteq> b \<Longrightarrow> j = b" using ij(2,4,5) by (intro other) (simp_all add: at)
      then show ?thesis using True by blast
    next
      case False
      then have ib: "bdev (buf_at s i) = D" "blockno (buf_at s i) = blockno (buf_at ?t j)" using ij(3,5) by (simp_all add: at)
      have "j \<noteq> b"
      proof
        assume "j = b"
        then have "i = b" using ib ij(1) by (intro other) (simp_all add: at)
        then show False using False by blast
      qed
      then show ?thesis using ib ij(1,2,4) cache_inv_onceD [OF c, of i j] by (simp add: at)
    qed
  qed
  obtain xs where xs: "lru_list (bufs s) xs" "set xs = {..<NBUF}" using cache_inv_lruD [OF c] by blast
  have "lru_list (bufs ?t) xs"
    using lru_update [OF xs(1), of "fill D n (blk s n) (buf_at s b)" b] by (simp add: load_buf_def)
  with xs(2) have "\<exists>xs. lru_list (bufs ?t) xs \<and> set xs = {..<NBUF}" by blast
  then show ?thesis
    using cache_invD [OF c] b once ok load_frame [OF cache_invD(1) [OF c]]
    by (intro cache_invI [OF c]) (simp_all add: load_buf_def)
qed

lemma load_blk:
  assumes c: "cache_inv D H P s" and m: "may_load D n H P s b"
  shows "blk (load_buf b D n (blk s n) s) k = blk s k"
proof -
  let ?t = "load_buf b D n (blk s n) s"
  have b: "b < NBUF" "b \<notin> H" using m by (simp_all add: may_load_def)
  have len: "b < length (bufs s)" using b cache_inv_len [OF c] by simp
  note at = load_buf_at [OF len]
  have ct: "cache_inv D (insert b H) P ?t" by (rule load_inv [OF c m])
  have dsk: "disk ?t = disk s" by (simp add: load_buf_def)
  show ?thesis
  proof (cases "k = n")
    case True
    then show ?thesis using blk_valid [OF ct b(1), of n] by (simp add: at)
  next
    case kn: False
    show ?thesis
    proof (cases "\<exists>i<NBUF. i \<noteq> b \<and> valid (buf_at s i) \<and> blockno (buf_at s i) = k")
      case True
      then obtain i where i: "i < NBUF" "i \<noteq> b" "valid (buf_at s i)" "blockno (buf_at s i) = k" by blast
      then show ?thesis using blk_valid [OF ct i(1), of k] blk_valid [OF c i(1,3,4)] by (simp add: at)
    next
      case False
      have t: "blk ?t k = disk s k"
        using False kn dsk by (subst blk_uncached) (auto simp: at split: if_splits)
      show ?thesis
      proof (cases "valid (buf_at s b) \<and> blockno (buf_at s b) = k")
        case True
        then have "b \<notin> P" using m kn by (auto simp: may_load_def)
        then have "bdata (buf_at s b) = disk s k"
          using cache_inv_bufD [OF c b(1)] b True by (simp add: buf_ok_def)
        then show ?thesis using t blk_valid [OF c b(1), of k] True by simp
      next
        case f: False
        have "blk s k = disk s k" using False f by (intro blk_uncached) auto
        then show ?thesis using t by simp
      qed
    qed
  qed
qed

lemma load_keeps:
  assumes c: "cache_inv D H P s" and m: "may_load D n H P s b"
  shows "keeps (H \<union> P) s (load_buf b D n (blk s n) s)"
proof -
  have b: "b < NBUF" "b \<notin> H" using m by (simp_all add: may_load_def)
  have len: "b < length (bufs s)" using b cache_inv_len [OF c] by simp
  have "b \<in> P \<Longrightarrow> blockno (buf_at s b) = n \<and> blk s n = bdata (buf_at s b)"
    using m cache_inv_bufD [OF c b(1)] blk_valid [OF c b(1), of n] by (auto simp: may_load_def buf_ok_def)
  then show ?thesis using b by (auto simp: keeps_def load_buf_at [OF len])
qed

text \<open>\<open>bread\<close> returns a locked buffer with the contents of the block and changes no block.\<close>

lemma bread_rule:
  assumes c: "cache_inv D H P s" and nH: "\<forall>i\<in>H. blockno (buf_at s i) \<noteq> n"
    and room: "(\<exists>i<NBUF. bdev (buf_at s i) = D \<and> blockno (buf_at s i) = n) \<or> (\<exists>i<NBUF. i \<notin> H \<union> P)"
  shows "returns (bread D n s) (\<lambda>b t. cache_inv D (insert b H) P t \<and> b < NBUF \<and> b \<notin> H \<and> blockno (buf_at t b) = n
    \<and> bdata (buf_at t b) = blk s n \<and> (\<forall>k. blk t k = blk s k) \<and> bio_frame s t \<and> keeps (H \<union> P) s t
    \<and> disk t = disk s \<and> disk_writes t = disk_writes s)"
proof -
  obtain b where m: "may_load D n H P s b" and e: "bread D n s = Done b (load_buf b D n (blk s n) s)"
    using bread_Done [OF assms] by blast
  have b: "b < NBUF" "b \<notin> H" using m by (simp_all add: may_load_def)
  have len: "b < length (bufs s)" using b cache_inv_len [OF c] by simp
  show ?thesis
    using b load_inv [OF c m] load_blk [OF c m] load_keeps [OF c m] load_frame [of s b D n] c
    by (simp add: e load_buf_at [OF len] cache_inv_def) (simp add: load_buf_def)
qed

text \<open>The contents of a buffer: all its fields but the links and the reference count.\<close>

definition core :: "buf \<Rightarrow> bool \<times> u32 \<times> u32 \<times> u8 list" where
  "core x = (valid x, bdev x, blockno x, bdata x)"

lemma coreD:
  assumes "core x = core y"
  shows "valid x = valid y" "bdev x = bdev y" "blockno x = blockno y" "bdata x = bdata y"
  using assms by (simp_all add: core_def)

lemma core_upd [simp]:
  "core (x\<lparr>refcnt := r\<rparr>) = core x" "core (x\<lparr>prev := a\<rparr>) = core x" "core (x\<lparr>nxt := a\<rparr>) = core x"
  by (simp_all add: core_def)

lemma update_keeps: "f x = f (bs ! j) \<Longrightarrow> f (bs[j := x] ! i) = f (bs ! i)"
  by (cases "j < length bs"; cases "i = j") (simp_all add: list_update_beyond)

lemma link_core [simp]: "core (link_bufs b bs ! i) = core (bs ! i)" "refcnt (link_bufs b bs ! i) = refcnt (bs ! i)"
  by (simp_all add: link_bufs_def Let_def update_keeps [of core] update_keeps [of refcnt])

lemma unlink_core [simp]: "core (unlink_bufs b bs ! i) = core (bs ! i)" "refcnt (unlink_bufs b bs ! i) = refcnt (bs ! i)"
  by (simp_all add: unlink_bufs_def Let_def update_keeps [of core] update_keeps [of refcnt])

lemma blk_cong:
  assumes "\<And>i. i < NBUF \<Longrightarrow> core (buf_at t i) = core (buf_at s i)" and "disk t k = disk s k"
  shows "blk t k = blk s k"
proof -
  have "find (\<lambda>i. valid (buf_at t i) \<and> blockno (buf_at t i) = k) [0..<NBUF]
      = find (\<lambda>i. valid (buf_at s i) \<and> blockno (buf_at s i) = k) [0..<NBUF]"
    using coreD [OF assms(1)] by (intro find_cong) simp_all
  moreover have "find (\<lambda>i. valid (buf_at s i) \<and> blockno (buf_at s i) = k) [0..<NBUF] = Some i \<Longrightarrow> i < NBUF" for i
    by (auto simp: find_Some_iff)
  ultimately show ?thesis using assms(2) coreD(4) [OF assms(1)] by (auto simp: blk_def split: option.splits)
qed

lemma once_cong:
  assumes "cache_inv D H P s" and "\<And>i. i < NBUF \<Longrightarrow> bdev (buf_at t i) = bdev (buf_at s i) \<and> blockno (buf_at t i) = blockno (buf_at s i)"
  shows "cached_once D t"
  using assms unfolding cache_inv_def cached_once_def by metis

lemma upd_buf_at: "b < length (bufs s) \<Longrightarrow> buf_at (upd_buf b f s) i = (if i = b then f (buf_at s b) else buf_at s i)"
  by (simp add: upd_buf_def)

lemma upd_buf_frame: "bio_frame s (upd_buf b f s)"
  by (simp add: bio_frame_def upd_buf_def)

lemma upd_buf_same [simp]:
  "disk (upd_buf b f s) = disk s" "disk_writes (upd_buf b f s) = disk_writes s" "sleeplocks (upd_buf b f s) = sleeplocks s"
  "held (upd_buf b f s) = held s" "cur (upd_buf b f s) = cur s" "procs (upd_buf b f s) = procs s" "mypid (upd_buf b f s) = mypid s"
  by (simp_all add: upd_buf_def mypid_def)

lemma upd_buf_lru:
  assumes "cache_inv D H P s" and "nxt (f (buf_at s b)) = nxt (buf_at s b)" and "prev (f (buf_at s b)) = prev (buf_at s b)"
  shows "\<exists>xs. lru_list (bufs (upd_buf b f s)) xs \<and> set xs = {..<NBUF}"
proof -
  obtain xs where xs: "lru_list (bufs s) xs" "set xs = {..<NBUF}" using cache_inv_lruD [OF assms(1)] by blast
  then show ?thesis using lru_update [OF xs(1), of "f (buf_at s b)" b] assms(2,3) by (auto simp: upd_buf_def)
qed

text \<open>Writing to the data of a locked buffer changes that block.\<close>

lemma set_data_rule:
  assumes c: "cache_inv D H P s" and b: "b \<in> H" and d: "length d = BSIZE" and n: "blockno (buf_at s b) = n"
  defines "t \<equiv> upd_buf b (\<lambda>x. x\<lparr>bdata := d\<rparr>) s"
  shows "cache_inv D H P t" and "blk t = (blk s)(n := d)" and "bio_frame s t" and "keeps (H \<union> P - {b}) s t"
    and "blockno (buf_at t b) = n" and "bdata (buf_at t b) = d"
proof -
  have bN: "b < NBUF" using cache_invD(2) [OF c] b by auto
  have len: "b < length (bufs s)" using bN cache_inv_len [OF c] by simp
  have at: "buf_at t i = (if i = b then (buf_at s b)\<lparr>bdata := d\<rparr> else buf_at s i)" for i
    unfolding t_def by (rule upd_buf_at [OF len])
  show fr: "bio_frame s t" unfolding t_def by (rule upd_buf_frame)
  have same: "disk t = disk s" "sleeplocks t = sleeplocks s" "mypid t = mypid s" by (simp_all add: t_def)
  have ok: "buf_ok D H P t i" if "i < NBUF" for i
    using cache_inv_bufD [OF c that] b d by (cases "i = b") (simp_all add: buf_ok_def at same)
  have "\<exists>xs. lru_list (bufs t) xs \<and> set xs = {..<NBUF}" unfolding t_def by (rule upd_buf_lru [OF c]) simp_all
  then show ct: "cache_inv D H P t"
    using cache_invD [OF c] ok fr once_cong [OF c, of t] same by (intro cache_invI [OF c]) (simp_all add: at)
  have v: "valid (buf_at s b)" using cache_inv_bufD [OF c bN] b by (simp add: buf_ok_def)
  show "blk t = (blk s)(n := d)"
  proof
    fix k
    show "blk t k = ((blk s)(n := d)) k"
    proof (cases "\<exists>i<NBUF. valid (buf_at s i) \<and> blockno (buf_at s i) = k")
      case True
      then obtain i where i: "i < NBUF" "valid (buf_at s i)" "blockno (buf_at s i) = k" by blast
      have "k = n \<Longrightarrow> i = b"
        using cache_inv_onceD [OF c i(1) bN] cache_inv_bufD [OF c i(1)] cache_inv_bufD [OF c bN] i n v
        by (simp add: buf_ok_def)
      moreover have "blk t k = bdata (buf_at t i)" using i by (intro blk_valid [OF ct]) (auto simp: at)
      ultimately show ?thesis using blk_valid [OF c i] i n by (auto simp: at split: if_splits)
    next
      case False
      then have "k \<noteq> n" using bN v n by blast
      moreover have "blk t k = disk s k" using False same by (subst blk_uncached) (auto simp: at split: if_splits)
      moreover have "blk s k = disk s k" using False by (intro blk_uncached) blast
      ultimately show ?thesis by simp
    qed
  qed
  show "keeps (H \<union> P - {b}) s t" by (simp add: keeps_def at)
  show "blockno (buf_at t b) = n" "bdata (buf_at t b) = d" by (simp_all add: at n)
qed

text \<open>\<open>bwrite\<close> puts the buffer on disk.\<close>

lemma bwrite_rule:
  assumes c: "cache_inv D H P s" and b: "b \<in> H" and n: "blockno (buf_at s b) = n" and d: "bdata (buf_at s b) = d"
  shows "returns (bwrite b s) (\<lambda>_ t. cache_inv D H P t \<and> blk t = blk s \<and> bio_frame s t \<and> bufs t = bufs s
    \<and> disk t = (disk s)(n := d) \<and> disk_writes t = disk_writes s @ [(n, d)])"
proof -
  let ?t = "s\<lparr>disk := (disk s)(n := d), disk_writes := disk_writes s @ [(n, d)]\<rparr>"
  have bN: "b < NBUF" using cache_invD(2) [OF c] b by auto
  have okb: "buf_ok D H P s b" by (rule cache_inv_bufD [OF c bN])
  obtain p where p: "cur s = Some p" "held s = {}" using cache_invD(1) [OF c] by (auto simp: calm_def)
  have "bwrite b s = Done () ?t"
    using holdingsleep_Done [OF p(1), of "SL_buf b"] p okb b n d by (simp add: bwrite_def disk_rw_def buf_ok_def Let_def)
  moreover have fr: "bio_frame s ?t" by (simp add: bio_frame_def)
  moreover have v: "valid (buf_at s b)" "length d = BSIZE" "bdev (buf_at s b) = D" using okb b d by (simp_all add: buf_ok_def)
  have uniq: "i = b" if "i < NBUF" "valid (buf_at s i)" "blockno (buf_at s i) = n" for i
    using cache_inv_onceD [OF c that(1) bN] cache_inv_bufD [OF c that(1)] that n v by (simp add: buf_ok_def)
  have "buf_ok D H P ?t i" if "i < NBUF" for i
    using cache_inv_bufD [OF c that] uniq [OF that] b v by (auto simp: buf_ok_def mypid_def)
  then have ct: "cache_inv D H P ?t"
    using cache_invD [OF c] fr once_cong [OF c, of ?t] cache_inv_lruD [OF c] v(2) by (intro cache_invI [OF c]) simp_all
  moreover have "blk ?t k = blk s k" for k
  proof (cases "k = n")
    case True
    then show ?thesis using blk_valid [OF ct bN] blk_valid [OF c bN v(1) n] v n by simp
  qed (intro blk_cong, simp_all)
  ultimately show ?thesis by auto
qed

text \<open>Pinning and unpinning a locked buffer.\<close>

lemma pin_inv:
  assumes c: "cache_inv D H P s" and b: "b \<in> H" and r: "of_bool (b \<in> P') = of_bool (b \<in> P) + r" and P': "P' - {b} = P - {b}"
  defines "t \<equiv> upd_buf b (\<lambda>x. x\<lparr>refcnt := refcnt x + r\<rparr>) s"
  shows "cache_inv D H P' t" and "blk t = blk s" and "bio_frame s t" and "keeps X s t"
proof -
  have bN: "b < NBUF" using cache_invD(2) [OF c] b by auto
  have len: "b < length (bufs s)" using bN cache_inv_len [OF c] by simp
  have at: "buf_at t i = (if i = b then (buf_at s b)\<lparr>refcnt := refcnt (buf_at s b) + r\<rparr> else buf_at s i)" for i
    unfolding t_def by (rule upd_buf_at [OF len])
  show fr: "bio_frame s t" unfolding t_def by (rule upd_buf_frame)
  have same: "disk t = disk s" "sleeplocks t = sleeplocks s" "mypid t = mypid s" by (simp_all add: t_def)
  have iP: "i \<noteq> b \<Longrightarrow> i \<in> P' \<longleftrightarrow> i \<in> P" for i using P' by blast
  have ok: "buf_ok D H P' t i" if "i < NBUF" for i
    using cache_inv_bufD [OF c that] b r iP [of i] by (cases "i = b") (simp_all add: buf_ok_def at same)
  have "\<exists>xs. lru_list (bufs t) xs \<and> set xs = {..<NBUF}" unfolding t_def by (rule upd_buf_lru [OF c]) simp_all
  moreover have "P' \<subseteq> {..<NBUF}" using P' bN cache_invD(3) [OF c] by blast
  ultimately show "cache_inv D H P' t"
    using cache_invD [OF c] ok fr once_cong [OF c, of t] same by (intro cache_invI [OF c]) (simp_all add: at)
  show "blk t = blk s" by (rule ext, rule blk_cong) (simp_all add: at same core_def)
  show "keeps X s t" by (simp add: keeps_def at)
qed

lemma bcache_section:
  assumes "held s = {}"
  shows "andthen (acquire L_bcache s) (\<lambda>_ s. release L_bcache (upd_buf b f s)) = Done () (upd_buf b f s)"
  using assms by (simp add: upd_buf_def bufs_held)

lemma bpin_rule:
  assumes "cache_inv D H P s" and "b \<in> H" and "b \<notin> P"
  shows "returns (bpin b s) (\<lambda>_ t. cache_inv D H (insert b P) t \<and> blk t = blk s \<and> bio_frame s t \<and> keeps X s t
    \<and> disk t = disk s \<and> disk_writes t = disk_writes s)"
  using pin_inv [OF assms(1,2), of "insert b P" 1] assms bcache_section [of s b] cache_invD(1) [OF assms(1)]
  by (simp add: bpin_def calm_def)

lemma bunpin_rule:
  assumes "cache_inv D H P s" and "b \<in> H" and "b \<in> P"
  shows "returns (bunpin b s) (\<lambda>_ t. cache_inv D H (P - {b}) t \<and> blk t = blk s \<and> bio_frame s t \<and> keeps X s t
    \<and> disk t = disk s \<and> disk_writes t = disk_writes s)"
  using pin_inv [OF assms(1,2), of "P - {b}" "- 1"] assms bcache_section [of s b] cache_invD(1) [OF assms(1)]
  by (simp add: bunpin_def calm_def)

text \<open>Releasing a buffer that is pinned or holds what is on disk.\<close>

definition dropped :: "nat \<Rightarrow> 'a bio_state_scheme \<Rightarrow> buf list" where
  "dropped b s = (let bs = (bufs s)[b := (bufs s ! b)\<lparr>refcnt := refcnt (bufs s ! b) - 1\<rparr>]
     in if refcnt (bs ! b) = 0 then link_bufs b (unlink_bufs b bs) else bs)"

lemma brelse_Done:
  assumes c: "cache_inv D H P s" and b: "b \<in> H"
  shows "brelse b s = Done () (s\<lparr>sleeplocks := (sleeplocks s)(SL_buf b := \<lparr>locked_sl = False, pid_sl = 0\<rparr>),
    procs := map (awaken (Ch_sleep (SL_buf b))) (procs s), bufs := dropped b s\<rparr>)"
proof -
  have bN: "b < NBUF" using cache_invD(2) [OF c] b by auto
  have len: "b < length (bufs s)" using bN cache_inv_len [OF c] by simp
  have okb: "buf_ok D H P s b" by (rule cache_inv_bufD [OF c bN])
  obtain p where p: "cur s = Some p" "held s = {}" "length (procs s) = NPROC"
    using cache_invD(1) [OF c] by (auto simp: calm_def)
  show ?thesis
    using holdingsleep_Done [OF p(1), of "SL_buf b"] releasesleep_Done [of s "SL_buf b"] p okb b
    by (auto simp: brelse_def buf_ok_def Let_def set_sl_def upd_buf_def link_front_eq unlink_buf_eq dropped_def)
qed

lemma dropped_fields:
  assumes "b < length (bufs s)"
  shows "core (dropped b s ! i) = core (buf_at s i)" "refcnt (dropped b s ! i) = refcnt (buf_at s i) - of_bool (i = b)"
  using assms by (simp_all add: dropped_def Let_def nth_list_update)

lemma dropped_lru:
  assumes "lru_list (bufs s) xs" and "set xs = {..<NBUF}" and "b < NBUF"
  shows "\<exists>xs. lru_list (dropped b s) xs \<and> set xs = {..<NBUF}"
proof -
  let ?bs = "(bufs s)[b := (bufs s ! b)\<lparr>refcnt := refcnt (bufs s ! b) - 1\<rparr>]"
  obtain ys zs where xs: "xs = ys @ b # zs" using assms(2,3) split_list [of b xs] by auto
  have l: "lru_list ?bs (ys @ b # zs)" using assms(1) xs by (intro lru_update) simp_all
  have "b \<notin> set (ys @ zs)" using assms(1) xs by (auto simp: lru_list_def)
  then have l': "lru_list (link_bufs b (unlink_bufs b ?bs)) (b # ys @ zs)"
    by (intro lru_link [OF lru_unlink [OF l] assms(3)])
  have s: "set (b # ys @ zs) = {..<NBUF}" "set (ys @ b # zs) = {..<NBUF}" using assms(2) xs by simp_all
  show ?thesis
  proof (cases "refcnt (?bs ! b) = 0")
    case True
    then have "dropped b s = link_bufs b (unlink_bufs b ?bs)" unfolding dropped_def Let_def by (rule if_P)
    then show ?thesis using l' s(1) by (intro exI [of _ "b # ys @ zs"]) simp
  next
    case False
    then have "dropped b s = ?bs" unfolding dropped_def Let_def by (rule if_not_P)
    then show ?thesis using l s(2) by (intro exI [of _ "ys @ b # zs"]) simp
  qed
qed

lemma brelse_rule:
  assumes c: "cache_inv D H P s" and b: "b \<in> H" and clean: "b \<in> P \<or> bdata (buf_at s b) = disk s (blockno (buf_at s b))"
  shows "returns (brelse b s) (\<lambda>_ t. cache_inv D (H - {b}) P t \<and> blk t = blk s \<and> bio_frame s t \<and> keeps X s t
    \<and> disk t = disk s \<and> disk_writes t = disk_writes s)"
proof -
  have bN: "b < NBUF" using cache_invD(2) [OF c] b by auto
  have len: "b < length (bufs s)" using bN cache_inv_len [OF c] by simp
  let ?t = "s\<lparr>sleeplocks := (sleeplocks s)(SL_buf b := \<lparr>locked_sl = False, pid_sl = 0\<rparr>),
    procs := map (awaken (Ch_sleep (SL_buf b))) (procs s), bufs := dropped b s\<rparr>"
  note flds = dropped_fields [OF len] coreD [OF dropped_fields(1) [OF len]]
  have "map pid (map (awaken (Ch_sleep (SL_buf b))) (procs s)) = map pid (procs s)" by (simp add: awaken_def)
  then have fr: "bio_frame s ?t" by (simp add: bio_frame_def)
  have pid: "mypid ?t = mypid s" by (rule bio_frame_mypid [OF fr cache_invD(1) [OF c]])
  have ok: "buf_ok D (H - {b}) P ?t i" if "i < NBUF" for i
  proof (cases "i = b")
    case True
    have "buf_ok D H P s b" by (rule cache_inv_bufD [OF c bN])
    then show ?thesis using True b clean by (auto simp: buf_ok_def flds pid)
  next
    case False
    have "buf_ok D H P s i" by (rule cache_inv_bufD [OF c that])
    then show ?thesis using False by (simp add: buf_ok_def flds pid)
  qed
  have "\<exists>xs. lru_list (bufs ?t) xs \<and> set xs = {..<NBUF}"
    using cache_inv_lruD [OF c] dropped_lru [of s _ b] bN by auto
  then have "cache_inv D (H - {b}) P ?t"
    using cache_invD [OF c] ok fr once_cong [OF c, of ?t] by (intro cache_invI [OF c]) (auto simp: flds)
  moreover have "blk ?t = blk s" by (rule ext, rule blk_cong) (simp_all add: flds)
  moreover have "keeps X s ?t" by (simp add: keeps_def flds)
  ultimately show ?thesis using fr by (simp add: brelse_Done [OF c b])
qed

end
