(* ===== verification/Block_Store.thy ===== *)
theory Block_Store
  imports Bio_Cache
begin

text \<open>
  The contract that the log and the file system rely on: a store of blocks with a bounded number of
  buffers, stated as the locale \<open>block_cache\<close> and interpreted on the operations of \<open>kernel/bio.c\<close>; the
  composed operations of its clients are proved once in the locale. The end of the theory has the
  start-up of the cache and its properties.
\<close>

section \<open>The contract of the cache\<close>

text \<open>
  What a client of the cache relies on. \<open>inv H P s\<close>: the client has the buffers \<open>H\<close> locked and \<open>P\<close>
  pinned. \<open>contents\<close> is the disk as the kernel sees it, \<open>dsk\<close> the disk itself, \<open>writes\<close> what has been
  written to it; \<open>bno\<close> and \<open>dat\<close> are block number and data of a buffer, \<open>cap\<close> is the number of buffers.
\<close>

locale block_cache =
  fixes cap :: nat
    and inv :: "nat set \<Rightarrow> nat set \<Rightarrow> 's \<Rightarrow> bool"
    and contents :: "'s \<Rightarrow> u32 \<Rightarrow> u8 list"
    and dsk :: "'s \<Rightarrow> u32 \<Rightarrow> u8 list"
    and writes :: "'s \<Rightarrow> (u32 \<times> u8 list) list"
    and bno :: "'s \<Rightarrow> nat \<Rightarrow> u32"
    and dat :: "'s \<Rightarrow> nat \<Rightarrow> u8 list"
    and frame :: "'s \<Rightarrow> 's \<Rightarrow> bool"
    and rd :: "u32 \<Rightarrow> 's \<Rightarrow> (nat, 's) res"
    and put :: "nat \<Rightarrow> u8 list \<Rightarrow> 's \<Rightarrow> 's"
    and wr :: "nat \<Rightarrow> 's \<Rightarrow> (unit, 's) res"
    and rel :: "nat \<Rightarrow> 's \<Rightarrow> (unit, 's) res"
    and unpin :: "nat \<Rightarrow> 's \<Rightarrow> (unit, 's) res"
  assumes frame_refl: "frame s s"
    and frame_trans: "frame s t \<Longrightarrow> frame t u \<Longrightarrow> frame s u"
    and contents_length: "inv H P s \<Longrightarrow> length (contents s n) = BSIZE"
    and clean: "inv H P s \<Longrightarrow> \<forall>b\<in>H \<union> P. bno s b \<noteq> n \<Longrightarrow> contents s n = dsk s n"
    and pinned_data: "inv H P s \<Longrightarrow> b \<in> H \<union> P \<Longrightarrow> dat s b = contents s (bno s b)"
    and pinned_inj: "inv H P s \<Longrightarrow> inj_on (bno s) (H \<union> P)"
    and rd_law: "inv H P s \<Longrightarrow> \<forall>b\<in>H. bno s b \<noteq> n \<Longrightarrow> (\<exists>b\<in>P. bno s b = n) \<or> card (H \<union> P) < cap \<Longrightarrow>
      returns (rd n s) (\<lambda>b t. inv (insert b H) P t \<and> b \<notin> H \<and> bno t b = n \<and> dat t b = contents s n
        \<and> (\<forall>p\<in>P. bno s p = n \<longrightarrow> b = p)
        \<and> contents t = contents s \<and> frame s t \<and> (\<forall>c\<in>H \<union> P. bno t c = bno s c \<and> dat t c = dat s c)
        \<and> dsk t = dsk s \<and> writes t = writes s)"
    and put_law: "inv H P s \<Longrightarrow> b \<in> H \<Longrightarrow> length d = BSIZE \<Longrightarrow>
      inv H P (put b d s) \<and> contents (put b d s) = (contents s)(bno s b := d) \<and> frame s (put b d s)
        \<and> bno (put b d s) b = bno s b \<and> dat (put b d s) b = d
        \<and> (\<forall>c\<in>H \<union> P - {b}. bno (put b d s) c = bno s c \<and> dat (put b d s) c = dat s c)
        \<and> dsk (put b d s) = dsk s \<and> writes (put b d s) = writes s"
    and wr_law: "inv H P s \<Longrightarrow> b \<in> H \<Longrightarrow>
      returns (wr b s) (\<lambda>_ t. inv H P t \<and> contents t = contents s \<and> frame s t
        \<and> bno t = bno s \<and> dat t = dat s
        \<and> dsk t = (dsk s)(bno s b := dat s b) \<and> writes t = writes s @ [(bno s b, dat s b)])"
    and unpin_law: "inv H P s \<Longrightarrow> b \<in> H \<Longrightarrow> b \<in> P \<Longrightarrow>
      returns (unpin b s) (\<lambda>_ t. inv H (P - {b}) t \<and> contents t = contents s \<and> frame s t
        \<and> (\<forall>c. bno t c = bno s c \<and> dat t c = dat s c) \<and> dsk t = dsk s \<and> writes t = writes s)"
    and rel_law: "inv H P s \<Longrightarrow> b \<in> H \<Longrightarrow> b \<in> P \<or> dat s b = dsk s (bno s b) \<Longrightarrow>
      returns (rel b s) (\<lambda>_ t. inv (H - {b}) P t \<and> contents t = contents s \<and> frame s t
        \<and> (\<forall>c. bno t c = bno s c \<and> dat t c = dat s c) \<and> dsk t = dsk s \<and> writes t = writes s)"

lemma blk_clean:
  assumes c: "cache_inv D H P s" and no: "\<forall>b\<in>H \<union> P. blockno (buf_at s b) \<noteq> n"
  shows "blk s n = disk s n"
proof (cases "\<exists>i<NBUF. valid (buf_at s i) \<and> blockno (buf_at s i) = n")
  case True
  then obtain i where i: "i < NBUF" "valid (buf_at s i)" "blockno (buf_at s i) = n" by blast
  then have "i \<notin> H \<union> P" using no by blast
  then have "bdata (buf_at s i) = disk s n" using cache_inv_bufD [OF c i(1)] i by (simp add: buf_ok_def)
  then show ?thesis using blk_valid [OF c i] by simp
next
  case False
  then show ?thesis by (intro blk_uncached) blast
qed

lemma used_valid:
  assumes "cache_inv D H P s" and "b \<in> H \<union> P"
  shows "b < NBUF" "valid (buf_at s b)" "bdev (buf_at s b) = D"
proof -
  show b: "b < NBUF" using cache_invD(2,3) [OF assms(1)] assms(2) by auto
  show "valid (buf_at s b)" "bdev (buf_at s b) = D"
    using cache_inv_bufD [OF assms(1) b] assms(2) unfolding buf_ok_def by blast+
qed

lemma used_inj: "cache_inv D H P s \<Longrightarrow> inj_on (\<lambda>b. blockno (buf_at s b)) (H \<union> P)"
  by (rule inj_onI) (rule cache_inv_onceD, auto dest: used_valid)

lemma card_room: "X \<subseteq> {..<NBUF} \<Longrightarrow> card X < NBUF \<Longrightarrow> \<exists>i<NBUF. i \<notin> X"
  by (metis card_lessThan lessThan_iff less_irrefl subsetI subset_antisym)

lemma bread_contract:
  assumes c: "cache_inv D H P s" and nH: "\<forall>b\<in>H. blockno (buf_at s b) \<noteq> n"
    and room: "(\<exists>b\<in>P. blockno (buf_at s b) = n) \<or> card (H \<union> P) < NBUF"
  shows "returns (bread D n s) (\<lambda>b t. cache_inv D (insert b H) P t \<and> b \<notin> H \<and> blockno (buf_at t b) = n
        \<and> bdata (buf_at t b) = blk s n \<and> (\<forall>p\<in>P. blockno (buf_at s p) = n \<longrightarrow> b = p)
        \<and> blk t = blk s \<and> bio_frame s t
        \<and> (\<forall>c\<in>H \<union> P. blockno (buf_at t c) = blockno (buf_at s c) \<and> bdata (buf_at t c) = bdata (buf_at s c))
        \<and> disk t = disk s \<and> disk_writes t = disk_writes s)"
proof -
  have r: "(\<exists>i<NBUF. bdev (buf_at s i) = D \<and> blockno (buf_at s i) = n) \<or> (\<exists>i<NBUF. i \<notin> H \<union> P)"
    using room used_valid [OF c] card_room [of "H \<union> P"] cache_invD(2,3) [OF c] by blast
  show ?thesis
  proof (rule returns_mono [OF bread_rule [OF c nH r]], elim conjE)
    fix b t
    assume t: "cache_inv D (insert b H) P t" "b < NBUF" "b \<notin> H" "blockno (buf_at t b) = n"
      "bdata (buf_at t b) = blk s n" "\<forall>k. blk t k = blk s k" "bio_frame s t" "keeps (H \<union> P) s t"
      "disk t = disk s" "disk_writes t = disk_writes s"
    have "b = p" if "p \<in> P" "blockno (buf_at s p) = n" for p
      using used_inj [OF t(1)] that t(4,8) by (auto simp: inj_on_def keeps_def)
    then show "cache_inv D (insert b H) P t \<and> b \<notin> H \<and> blockno (buf_at t b) = n
        \<and> bdata (buf_at t b) = blk s n \<and> (\<forall>p\<in>P. blockno (buf_at s p) = n \<longrightarrow> b = p)
        \<and> blk t = blk s \<and> bio_frame s t
        \<and> (\<forall>c\<in>H \<union> P. blockno (buf_at t c) = blockno (buf_at s c) \<and> bdata (buf_at t c) = bdata (buf_at s c))
        \<and> disk t = disk s \<and> disk_writes t = disk_writes s"
      using t by (auto simp: keeps_def)
  qed
qed

interpretation bc: block_cache NBUF "cache_inv D" blk disk disk_writes "\<lambda>s b. blockno (buf_at s b)"
  "\<lambda>s b. bdata (buf_at s b)" bio_frame "bread D" "\<lambda>b d. upd_buf b (\<lambda>x. x\<lparr>bdata := d\<rparr>)" bwrite brelse bunpin
  for D
proof (unfold_locales, goal_cases)
  case (1 s) then show ?case by simp
next
  case (2 s t u) then show ?case by (rule bio_frame_trans)
next
  case (3 H P s n) then show ?case by (rule length_blk)
next
  case (4 H P s n) then show ?case by (rule blk_clean)
next
  case (5 H P s b) then show ?case using used_valid [of D H P s b] blk_valid [of D H P s b] by simp
next
  case (6 H P s) then show ?case by (rule used_inj)
next
  case (7 H P s n) then show ?case by (rule bread_contract)
next
  case (8 H P s b d) then show ?case using set_data_rule [of D H P s b d "blockno (buf_at s b)"] by (simp add: keeps_def)
next
  case (9 H P s b) then show ?case using bwrite_rule [of D H P s b "blockno (buf_at s b)"] by (auto elim!: returns_mono)
next
  case (10 H P s b) then show ?case using bunpin_rule [of D H P s b UNIV] by (auto simp: keeps_def elim!: returns_mono)
next
  case (11 H P s b) then show ?case using brelse_rule [of D H P s b UNIV] by (auto simp: keeps_def elim!: returns_mono)
qed

section \<open>What clients do with blocks\<close>

context block_cache
begin

text \<open>\<open>unchanged H s t\<close>: \<open>t\<close> differs from \<open>s\<close> at most in which buffers are locked, with the numbers of \<open>H\<close> kept.\<close>

definition unchanged :: "nat set \<Rightarrow> 's \<Rightarrow> 's \<Rightarrow> bool" where
  "unchanged H s t \<longleftrightarrow> contents t = contents s \<and> frame s t \<and> (\<forall>c\<in>H. bno t c = bno s c) \<and> dsk t = dsk s \<and> writes t = writes s"

definition written :: "nat set \<Rightarrow> u32 \<Rightarrow> u8 list \<Rightarrow> 's \<Rightarrow> 's \<Rightarrow> bool" where
  "written H n d s t \<longleftrightarrow> contents t = (contents s)(n := d) \<and> frame s t \<and> (\<forall>c\<in>H. bno t c = bno s c)
     \<and> dsk t = (dsk s)(n := d) \<and> writes t = writes s @ [(n, d)]"

lemma unchanged_trans: "unchanged H s t \<Longrightarrow> unchanged H' t u \<Longrightarrow> H'' \<subseteq> H \<inter> H' \<Longrightarrow> unchanged H'' s u"
  unfolding unchanged_def using frame_trans by (auto simp: subset_iff)

lemma unchanged_written: "unchanged H s t \<Longrightarrow> written H' n d t u \<Longrightarrow> H'' \<subseteq> H \<inter> H' \<Longrightarrow> written H'' n d s u"
  unfolding unchanged_def written_def using frame_trans by (auto simp: subset_iff)

lemma written_unchanged: "written H n d s t \<Longrightarrow> unchanged H' t u \<Longrightarrow> H'' \<subseteq> H \<inter> H' \<Longrightarrow> written H'' n d s u"
  unfolding unchanged_def written_def using frame_trans by (auto simp: subset_iff)

lemma rd_unused:
  assumes "inv {} P s" and "\<forall>b\<in>P. bno s b \<noteq> n" and "card P < cap"
  shows "\<exists>b t. rd n s = Done b t \<and> inv {b} P t \<and> b \<notin> P \<and> bno t b = n \<and> dat t b = contents s n \<and> unchanged P s t
    \<and> contents s n = dsk s n"
proof -
  have "returns (rd n s) (\<lambda>b t. inv (insert b {}) P t \<and> b \<notin> {} \<and> bno t b = n \<and> dat t b = contents s n
        \<and> (\<forall>p\<in>P. bno s p = n \<longrightarrow> b = p)
        \<and> contents t = contents s \<and> frame s t \<and> (\<forall>c\<in>{} \<union> P. bno t c = bno s c \<and> dat t c = dat s c)
        \<and> dsk t = dsk s \<and> writes t = writes s)"
    using assms by (intro rd_law) simp_all
  then show ?thesis
    using clean [OF assms(1), of n] assms(2) by (elim returnsE) (auto simp: unchanged_def)
qed

lemma rd_pinned:
  assumes "inv {a} P s" and "p \<in> P" and "bno s p = n" and "bno s a \<noteq> n"
  shows "\<exists>t. rd n s = Done p t \<and> inv {p, a} P t \<and> bno t p = n \<and> dat t p = contents s n \<and> dat t a = dat s a
    \<and> unchanged (insert a P) s t"
proof -
  have "returns (rd n s) (\<lambda>b t. inv (insert b {a}) P t \<and> b \<notin> {a} \<and> bno t b = n \<and> dat t b = contents s n
        \<and> (\<forall>p\<in>P. bno s p = n \<longrightarrow> b = p)
        \<and> contents t = contents s \<and> frame s t \<and> (\<forall>c\<in>{a} \<union> P. bno t c = bno s c \<and> dat t c = dat s c)
        \<and> dsk t = dsk s \<and> writes t = writes s)"
    using assms by (intro rd_law) auto
  then show ?thesis using assms(2,3) by (elim returnsE) (auto simp: unchanged_def)
qed

lemma put_wr:
  assumes "inv H P s" and "a \<in> H" and "length d = BSIZE"
  shows "\<exists>t. wr a (put a d s) = Done () t \<and> inv H P t \<and> dat t a = d \<and> written (H \<union> P) (bno s a) d s t
    \<and> (\<forall>c\<in>H \<union> P - {a}. dat t c = dat s c)"
proof -
  let ?u = "put a d s"
  note u = put_law [OF assms]
  have "returns (wr a ?u) (\<lambda>_ t. inv H P t \<and> contents t = contents ?u \<and> frame ?u t \<and> bno t = bno ?u \<and> dat t = dat ?u
        \<and> dsk t = (dsk ?u)(bno ?u a := dat ?u a) \<and> writes t = writes ?u @ [(bno ?u a, dat ?u a)])"
    using u assms(2) by (intro wr_law) simp_all
  moreover have "\<forall>c\<in>H \<union> P. bno ?u c = bno s c" using u by (metis DiffI singletonD)
  ultimately show ?thesis
    using u frame_trans [of s ?u] by (elim returnsE) (auto simp: written_def)
qed

lemma rel_unchanged:
  assumes "inv H P s" and "b \<in> H" and "b \<in> P \<or> dat s b = dsk s (bno s b)"
  shows "\<exists>t. rel b s = Done () t \<and> inv (H - {b}) P t \<and> (\<forall>c. dat t c = dat s c) \<and> unchanged UNIV s t"
  using rel_law [OF assms] by (elim returnsE) (auto simp: unchanged_def)

lemma unpin_unchanged:
  assumes "inv H P s" and "b \<in> H" and "b \<in> P"
  shows "\<exists>t. unpin b s = Done () t \<and> inv H (P - {b}) t \<and> (\<forall>c. dat t c = dat s c) \<and> unchanged UNIV s t"
  using unpin_law [OF assms] by (elim returnsE) (auto simp: unchanged_def)

text \<open>Copying the contents of a pinned block to a log block, as \<open>write_log\<close> does.\<close>

lemma copy_to_log:
  assumes i: "inv {} P s" and p: "p \<in> P" "bno s p = n" and l: "\<forall>b\<in>P. bno s b \<noteq> l" and cap: "card P < cap"
  shows "\<exists>a s1 s2 s3 s4 t. rd l s = Done a s1 \<and> unchanged {} s s1 \<and> rd n s1 = Done p s2
    \<and> wr a (put a (dat s2 p) s2) = Done () s3 \<and> rel p s3 = Done () s4 \<and> rel a s4 = Done () t
    \<and> inv {} P t \<and> written P l (contents s n) s t"
proof -
  obtain a s1 where 1: "rd l s = Done a s1" "inv {a} P s1" "a \<notin> P" "bno s1 a = l" "unchanged P s s1"
    using rd_unused [OF i l cap] by blast
  have "bno s1 p = n" "l \<noteq> n" using 1(5) p l by (auto simp: unchanged_def)
  then obtain s2 where 2: "rd n s1 = Done p s2" "inv {p, a} P s2" "dat s2 p = contents s1 n" "unchanged (insert a P) s1 s2"
    using rd_pinned [OF 1(2) p(1)] 1(4) by blast
  have d: "dat s2 p = contents s n" "bno s2 a = l" using 1(4,5) 2(3,4) by (simp_all add: unchanged_def)
  obtain s3 where 3: "wr a (put a (contents s n) s2) = Done () s3" "inv {p, a} P s3" "dat s3 a = contents s n"
    "written ({p, a} \<union> P) l (contents s n) s2 s3"
    using put_wr [OF 2(2), of a "contents s n"] contents_length [OF i] d(2) by auto
  obtain s4 where 4: "rel p s3 = Done () s4" "inv ({p, a} - {p}) P s4" "\<forall>c. dat s4 c = dat s3 c" "unchanged UNIV s3 s4"
    using rel_unchanged [OF 3(2), of p] p by blast
  have "{p, a} - {p} = {a}" using 1(3) p by auto
  then have i4: "inv {a} P s4" using 4(2) by simp
  have "dat s4 a = dsk s4 (bno s4 a)"
    using 3(3,4) 4(3,4) d(2) by (simp add: unchanged_def written_def)
  then obtain t where 5: "rel a s4 = Done () t" "inv {} P t" "unchanged UNIV s4 t"
    using rel_unchanged [OF i4, of a] by auto
  have "unchanged P s s2" by (rule unchanged_trans [OF 1(5) 2(4)]) auto
  then have "written P l (contents s n) s s3" by (rule unchanged_written [OF _ 3(4)]) auto
  then have "written P l (contents s n) s s4" by (rule written_unchanged [OF _ 4(4)]) simp
  then have "written P l (contents s n) s t" by (rule written_unchanged [OF _ 5(3)]) simp
  moreover have "unchanged {} s s1" using 1(5) by (simp add: unchanged_def)
  ultimately show ?thesis using 1(1) 2(1) 3(1) 4(1) 5(1,2) d(1) by metis
qed

end

context block_cache
begin

lemma read_block:
  assumes "inv {} P s" and "\<forall>b\<in>P. bno s b \<noteq> n" and "card P < cap"
  shows "\<exists>b s1 t. rd n s = Done b s1 \<and> dat s1 b = contents s n \<and> unchanged {} s s1 \<and> rel b s1 = Done () t
    \<and> inv {} P t \<and> unchanged P s t"
proof -
  obtain b s1 where 1: "rd n s = Done b s1" "inv {b} P s1" "bno s1 b = n" "dat s1 b = contents s n" "unchanged P s s1"
    "contents s n = dsk s n"
    using rd_unused [OF assms] by blast
  have "dat s1 b = dsk s1 (bno s1 b)" using 1 by (simp add: unchanged_def)
  then obtain t where 2: "rel b s1 = Done () t" "inv ({b} - {b}) P t" "unchanged UNIV s1 t"
    using rel_unchanged [OF 1(2)] by blast
  have "unchanged P s t" by (rule unchanged_trans [OF 1(5) 2(3)]) simp
  moreover have "unchanged {} s s1" using 1(5) by (simp add: unchanged_def)
  ultimately show ?thesis using 1 2 by auto
qed

text \<open>Changing a block in place and writing it through, as \<open>write_head\<close> does.\<close>

lemma update_block:
  assumes i: "inv {} P s" and n: "\<forall>b\<in>P. bno s b \<noteq> n" and "card P < cap" and d: "length (f (contents s n)) = BSIZE"
  shows "\<exists>b s1 s2 t. rd n s = Done b s1 \<and> unchanged {} s s1 \<and> wr b (put b (f (dat s1 b)) s1) = Done () s2 \<and> rel b s2 = Done () t
    \<and> inv {} P t \<and> written P n (f (contents s n)) s t"
proof -
  obtain b s1 where 1: "rd n s = Done b s1" "inv {b} P s1" "bno s1 b = n" "dat s1 b = contents s n" "unchanged P s s1"
    using rd_unused [OF i n assms(3)] by blast
  obtain s2 where 2: "wr b (put b (f (contents s n)) s1) = Done () s2" "inv {b} P s2" "dat s2 b = f (contents s n)"
    "written ({b} \<union> P) n (f (contents s n)) s1 s2"
    using put_wr [OF 1(2), of b "f (contents s n)"] d 1(3) by auto
  have "dat s2 b = dsk s2 (bno s2 b)" using 1(3) 2(3,4) by (simp add: written_def)
  then obtain t where 3: "rel b s2 = Done () t" "inv ({b} - {b}) P t" "unchanged UNIV s2 t"
    using rel_unchanged [OF 2(2)] by blast
  have "written P n (f (contents s n)) s s2" by (rule unchanged_written [OF 1(5) 2(4)]) auto
  then have "written P n (f (contents s n)) s t" by (rule written_unchanged [OF _ 3(3)]) simp
  moreover have "unchanged {} s s1" using 1(5) by (simp add: unchanged_def)
  ultimately show ?thesis using 1 2 3 by auto
qed

text \<open>Copying a log block to its home location, as \<open>install_trans\<close> does: after a commit, when the home
  block is pinned, and during recovery.\<close>

lemma install_pinned:
  assumes i: "inv {} P s" and p: "p \<in> P" "bno s p = n" and l: "\<forall>b\<in>P. bno s b \<noteq> l" and cap: "card P < cap"
  shows "\<exists>a s1 s2 s3 s4 s5 t. rd l s = Done a s1 \<and> unchanged {} s s1 \<and> rd n s1 = Done p s2
    \<and> wr p (put p (dat s2 a) s2) = Done () s3 \<and> unpin p s3 = Done () s4 \<and> rel a s4 = Done () s5 \<and> rel p s5 = Done () t
    \<and> inv {} (P - {p}) t \<and> written P n (contents s l) s t"
proof -
  obtain a s1 where 1: "rd l s = Done a s1" "inv {a} P s1" "a \<notin> P" "bno s1 a = l" "dat s1 a = contents s l" "unchanged P s s1"
    "contents s l = dsk s l"
    using rd_unused [OF i l cap] by blast
  have "bno s1 p = n" and ln: "l \<noteq> n" using 1(6) p l by (auto simp: unchanged_def)
  then obtain s2 where 2: "rd n s1 = Done p s2" "inv {p, a} P s2" "bno s2 p = n" "dat s2 a = dat s1 a" "unchanged (insert a P) s1 s2"
    using rd_pinned [OF 1(2) p(1)] 1(4) by blast
  obtain s3 where 3: "wr p (put p (contents s l) s2) = Done () s3" "inv {p, a} P s3" "dat s3 p = contents s l"
    "written ({p, a} \<union> P) n (contents s l) s2 s3" "\<forall>c\<in>{p, a} \<union> P - {p}. dat s3 c = dat s2 c"
    using put_wr [OF 2(2), of p "contents s l"] contents_length [OF i] 2(3) by auto
  obtain s4 where 4: "unpin p s3 = Done () s4" "inv {p, a} (P - {p}) s4" "\<forall>c. dat s4 c = dat s3 c" "unchanged UNIV s3 s4"
    using unpin_unchanged [OF 3(2), of p] p by blast
  have ap: "a \<noteq> p" using 1(3) p by auto
  have "dat s4 a = dsk s4 (bno s4 a)"
    using 1(4-7) 2(4,5) 3(4,5) 4(3,4) ap ln by (simp add: unchanged_def written_def)
  then obtain s5 where 5: "rel a s4 = Done () s5" "inv ({p, a} - {a}) (P - {p}) s5" "\<forall>c. dat s5 c = dat s4 c" "unchanged UNIV s4 s5"
    using rel_unchanged [OF 4(2), of a] by blast
  have e: "{p, a} - {a} = {p}" using ap by auto
  have "dat s5 p = dsk s5 (bno s5 p)" using 2(3) 3(3,4) 4(3,4) 5(3,4) by (simp add: unchanged_def written_def)
  then obtain t where 6: "rel p s5 = Done () t" "inv {} (P - {p}) t" "unchanged UNIV s5 t"
    using rel_unchanged [OF 5(2) [unfolded e], of p] by auto
  have "unchanged P s s2" by (rule unchanged_trans [OF 1(6) 2(5)]) auto
  then have "written P n (contents s l) s s3" by (rule unchanged_written [OF _ 3(4)]) auto
  then have "written P n (contents s l) s s4" by (rule written_unchanged [OF _ 4(4)]) simp
  then have "written P n (contents s l) s s5" by (rule written_unchanged [OF _ 5(4)]) simp
  then have "written P n (contents s l) s t" by (rule written_unchanged [OF _ 6(3)]) simp
  moreover have "unchanged {} s s1" "dat s2 a = contents s l" using 1(5,6) 2(4) by (simp_all add: unchanged_def)
  ultimately show ?thesis using 1(1) 2(1) 3(1) 4(1) 5(1) 6(1,2) by metis
qed

lemma install_fresh:
  assumes i: "inv {} {} s" and ln: "l \<noteq> n" and cap: "1 < cap"
  shows "\<exists>a s1 b s2 s3 s4 t. rd l s = Done a s1 \<and> unchanged {} s s1 \<and> rd n s1 = Done b s2
    \<and> wr b (put b (dat s2 a) s2) = Done () s3 \<and> rel a s3 = Done () s4 \<and> rel b s4 = Done () t
    \<and> inv {} {} t \<and> written {} n (contents s l) s t"
proof -
  obtain a s1 where 1: "rd l s = Done a s1" "inv {a} {} s1" "bno s1 a = l" "dat s1 a = contents s l" "unchanged {} s s1"
    "contents s l = dsk s l"
    using rd_unused [OF i, of l] cap by auto
  have "returns (rd n s1) (\<lambda>b t. inv (insert b {a}) {} t \<and> b \<notin> {a} \<and> bno t b = n \<and> dat t b = contents s1 n
        \<and> (\<forall>p\<in>{}. bno s1 p = n \<longrightarrow> b = p)
        \<and> contents t = contents s1 \<and> frame s1 t \<and> (\<forall>c\<in>{a} \<union> {}. bno t c = bno s1 c \<and> dat t c = dat s1 c)
        \<and> dsk t = dsk s1 \<and> writes t = writes s1)"
    using 1(2,3) ln cap by (intro rd_law) simp_all
  then obtain b s2 where 2: "rd n s1 = Done b s2" "inv {b, a} {} s2" "b \<noteq> a" "bno s2 b = n" "dat s2 a = dat s1 a" "unchanged {a} s1 s2"
    by (elim returnsE) (auto simp: unchanged_def)
  obtain s3 where 3: "wr b (put b (contents s l) s2) = Done () s3" "inv {b, a} {} s3" "dat s3 b = contents s l"
    "written ({b, a} \<union> {}) n (contents s l) s2 s3" "\<forall>c\<in>{b, a} \<union> {} - {b}. dat s3 c = dat s2 c"
    using put_wr [OF 2(2), of b "contents s l"] contents_length [OF i] 2(4) by auto
  have "dat s3 a = dsk s3 (bno s3 a)"
    using 1(3-6) 2(3,5,6) 3(4,5) ln by (simp add: unchanged_def written_def)
  then obtain s4 where 4: "rel a s3 = Done () s4" "inv ({b, a} - {a}) {} s4" "\<forall>c. dat s4 c = dat s3 c" "unchanged UNIV s3 s4"
    using rel_unchanged [OF 3(2), of a] by blast
  have e: "{b, a} - {a} = {b}" using 2(3) by auto
  have "dat s4 b = dsk s4 (bno s4 b)" using 2(4) 3(3,4) 4(3,4) by (simp add: unchanged_def written_def)
  then obtain t where 5: "rel b s4 = Done () t" "inv {} {} t" "unchanged UNIV s4 t"
    using rel_unchanged [OF 4(2) [unfolded e], of b] by auto
  have "unchanged {} s s2" by (rule unchanged_trans [OF 1(5) 2(6)]) auto
  then have "written {} n (contents s l) s s3" by (rule unchanged_written [OF _ 3(4)]) auto
  then have "written {} n (contents s l) s s4" by (rule written_unchanged [OF _ 4(4)]) simp
  then have "written {} n (contents s l) s t" by (rule written_unchanged [OF _ 5(3)]) simp
  moreover have "dat s2 a = contents s l" using 1(4) 2(5) by simp
  ultimately show ?thesis using 1(1,5) 2(1) 3(1) 4(1) 5(1,2) by metis
qed

end

section \<open>Start-up\<close>

lemma binit_loop_fields:
  "(\<forall>i. core (buf_at (binit_loop b k s) i) = core (buf_at s i) \<and> refcnt (buf_at (binit_loop b k s) i) = refcnt (buf_at s i))
    \<and> disk (binit_loop b k s) = disk s \<and> cur (binit_loop b k s) = cur s \<and> procs (binit_loop b k s) = procs s
    \<and> held (binit_loop b k s) \<subseteq> held s
    \<and> (\<forall>j. (j < b \<longrightarrow> sleeplocks (binit_loop b k s) (SL_buf j) = sleeplocks s (SL_buf j))
         \<and> (b \<le> j \<longrightarrow> j < b + k \<longrightarrow> \<not> locked_sl (sleeplocks (binit_loop b k s) (SL_buf j))))"
proof (induction k arbitrary: b s)
  case (Suc k)
  let ?s = "link_front b (initsleeplock (SL_buf b) s)"
  have s: "core (buf_at ?s i) = core (buf_at s i)" "refcnt (buf_at ?s i) = refcnt (buf_at s i)" "disk ?s = disk s" "cur ?s = cur s"
    "procs ?s = procs s" "held ?s \<subseteq> held s" "\<not> locked_sl (sleeplocks ?s (SL_buf b))"
    "j \<noteq> b \<Longrightarrow> sleeplocks ?s (SL_buf j) = sleeplocks s (SL_buf j)" for i j
    by (auto simp: link_front_eq initsleeplock_def)
  note IH = Suc.IH [of "Suc b" ?s]
  have "held (binit_loop b (Suc k) s) \<subseteq> held s" using IH s(6) by auto
  moreover have "\<not> locked_sl (sleeplocks (binit_loop b (Suc k) s) (SL_buf j))" if "b \<le> j" "j < b + Suc k" for j
    using IH s(7) that by (cases "j = b") simp_all
  moreover have "sleeplocks (binit_loop b (Suc k) s) (SL_buf j) = sleeplocks s (SL_buf j)" if "j < b" for j
    using IH s(8) [of j] that by simp
  ultimately show ?case using IH s(1-5) by simp
qed simp

lemma binit_fields:
  assumes "i < NBUF"
  shows "core (buf_at (binit s) i) = core (buf_at s i)" "refcnt (buf_at (binit s) i) = refcnt (buf_at s i)"
    "disk (binit s) = disk s" "cur (binit s) = cur s" "procs (binit s) = procs s" "held (binit s) \<subseteq> held s"
    "\<not> locked_sl (sleeplocks (binit s) (SL_buf i))"
proof -
  let ?s = "upd_buf NBUF (\<lambda>x. x\<lparr>prev := NBUF, nxt := NBUF\<rparr>) (s\<lparr>held := held s - {L_bcache}\<rparr>)"
  have "held ?s \<subseteq> held s" "buf_at ?s i = buf_at s i" "disk ?s = disk s" "cur ?s = cur s" "procs ?s = procs s"
    using assms by (auto simp: upd_buf_def)
  then show "core (buf_at (binit s) i) = core (buf_at s i)" "refcnt (buf_at (binit s) i) = refcnt (buf_at s i)"
    "disk (binit s) = disk s" "cur (binit s) = cur s" "procs (binit s) = procs s" "held (binit s) \<subseteq> held s"
    "\<not> locked_sl (sleeplocks (binit s) (SL_buf i))"
    using binit_loop_fields [of 0 NBUF ?s] assms by (auto simp: binit_def)
qed

text \<open>The state of the cache before \<open>binit\<close>: all zeros.\<close>

definition zero_buf :: buf where
  "zero_buf = \<lparr>valid = False, bdisk = False, bdev = 0, blockno = 0, refcnt = 0, prev = 0, nxt = 0, bdata = replicate BSIZE 0\<rparr>"

lemma binit_cache_inv:
  assumes "calm s" and "bufs s = replicate (NBUF + 1) zero_buf" and "D \<noteq> 0" and "\<forall>n. length (disk s n) = BSIZE"
  shows "cache_inv D {} {} (binit s)"
proof -
  let ?t = "binit s"
  have z: "buf_at s i = zero_buf" if "i < NBUF" for i using assms(2) that by (simp del: replicate.simps)
  note f = binit_fields [of _ s]
  have v: "bdev (buf_at ?t i) = 0" "\<not> valid (buf_at ?t i)" "refcnt (buf_at ?t i) = 0" if "i < NBUF" for i
    using coreD [OF f(1) [OF that]] f(2) [OF that] z [OF that] by (simp_all add: zero_buf_def)
  have ok: "\<forall>i<NBUF. buf_ok D {} {} ?t i" using v f(7) by (simp add: buf_ok_def)
  have once: "cached_once D ?t" using v assms(3) by (auto simp: cached_once_def)
  have N: "0 < NBUF" by (simp add: NBUF_def)
  have "calm ?t" using assms(1) f(4-6) [OF N] by (auto simp: calm_def)
  moreover have "lru_list (bufs ?t) (rev [0..<NBUF])" using binit_lru [of s] assms(2) by simp
  moreover have "set (rev [0..<NBUF]) = {..<NBUF}" by auto
  ultimately show ?thesis using assms(3,4) ok once f(3) [OF N] unfolding cache_inv_def by auto
qed

section \<open>Properties\<close>

text \<open>C6: \<open>bread\<close> on a cache in which every block is cached at most once and every unused buffer agrees
  with the disk: if the block is pinned or a buffer is free, it returns a buffer locked by the
  caller that holds the block as the kernel last saw it, be it from the cache or from the disk;
  no block changes, and the cache stays in that condition.\<close>

theorem bread_returns_block:
  assumes "cache_inv D H P s" and "\<forall>b\<in>H. blockno (buf_at s b) \<noteq> n"
    and "(\<exists>b\<in>P. blockno (buf_at s b) = n) \<or> card (H \<union> P) < NBUF"
  shows "returns (bread D n s) (\<lambda>b t. cache_inv D (insert b H) P t \<and> b \<notin> H \<and> blockno (buf_at t b) = n
    \<and> bdata (buf_at t b) = blk s n \<and> blk t = blk s \<and> disk t = disk s \<and> disk_writes t = disk_writes s)"
  by (rule returns_mono [OF bread_contract [OF assms]]) blast

text \<open>C7: the protocol of the cache, \<open>bread\<close>, change the data, \<open>bwrite\<close>, \<open>brelse\<close>: the block has the new data on
  disk and in the kernel's view, with a single write to the disk; no other block changes, no lock
  stays behind.\<close>

theorem block_written_through:
  assumes "cache_inv D {} P s" and "\<forall>b\<in>P. blockno (buf_at s b) \<noteq> n" and "card P < NBUF" and "length d = BSIZE"
  shows "returns (andthen (bread D n s) (\<lambda>b s. andthen (bwrite b (upd_buf b (\<lambda>x. x\<lparr>bdata := d\<rparr>) s)) (\<lambda>_ s. brelse b s)))
    (\<lambda>_ t. cache_inv D {} P t \<and> blk t = (blk s)(n := d) \<and> disk t = (disk s)(n := d) \<and> disk_writes t = disk_writes s @ [(n, d)])"
  using bc.update_block [OF assms(1-3), of "\<lambda>_. d"] assms(4) by (auto simp: bc.written_def)

section \<open>A concrete cache\<close>

definition example_bio0 :: bio_state where
  "example_bio0 = sl_state.extend example_sl (bio_state.fields (replicate 31 zero_buf) (\<lambda>_. replicate 1024 7) [])"

definition example_bio :: bio_state where
  "example_bio = binit example_bio0"

lemma example_bio0_simps [simp]:
  "held example_bio0 = {}" "cur example_bio0 = Some 1" "procs example_bio0 = procs example_procs"
  "bufs example_bio0 = replicate 31 zero_buf" "disk example_bio0 = (\<lambda>_. replicate 1024 7)"
  by (simp_all add: example_bio0_def sl_ext_defs bio_state.defs)

lemma example_bio_inv: "cache_inv 1 {} {} example_bio"
  unfolding example_bio_def by (rule binit_cache_inv) (simp_all add: calm_def NBUF_def)

theorem bread_returns_block_witness:
  "returns (bread 1 5 example_bio) (\<lambda>b t. cache_inv 1 {b} {} t \<and> bdata (buf_at t b) = replicate 1024 7)"
proof -
  have "blk example_bio 5 = replicate 1024 7"
    using blk_clean [OF example_bio_inv, of 5] binit_fields(3) [of 0 example_bio0] by (simp add: example_bio_def NBUF_def)
  then show ?thesis
    using bread_returns_block [OF example_bio_inv, of 5] by (auto simp: NBUF_def elim!: returns_mono)
qed

theorem block_written_through_witness:
  "returns (andthen (bread 1 5 example_bio) (\<lambda>b s. andthen (bwrite b (upd_buf b (\<lambda>x. x\<lparr>bdata := replicate 1024 9\<rparr>) s)) (\<lambda>_ s. brelse b s)))
    (\<lambda>_ t. cache_inv 1 {} {} t \<and> disk t 5 = replicate 1024 9)"
  using block_written_through [OF example_bio_inv, of 5 "replicate 1024 9"] by (auto simp: NBUF_def elim!: returns_mono)

end
