(* ===== verification/Log_Commit.thy ===== *)
theory Log_Commit
  imports Logging Block_Store
begin

text \<open>
  The log (\<open>kernel/log.c\<close>) on top of the block cache: the header block and its encoding, the writes that \<open>write_log\<close>,
  \<open>write_head\<close>, \<open>install_trans\<close> and \<open>commit\<close> make and their order, what a disk with a log means
  (\<open>log_view\<close>), the invariant of the log between commits, and \<open>log_write\<close> under it.
\<close>

declare NBUF_def [simp del]

section \<open>The header block\<close>

lemma length_put32 [simp]: "off + 4 \<le> length bs \<Longrightarrow> length (put32 bs off w) = length bs"
  by (simp add: put32_def)

lemma get32_put32_same: "off + 4 \<le> length bs \<Longrightarrow> get32 (put32 bs off w) off = w"
  by (simp add: get32_def put32_def)

lemma get32_put32_other:
  "off + 4 \<le> length bs \<Longrightarrow> o2 + 4 \<le> length bs \<Longrightarrow> o2 + 4 \<le> off \<or> off + 4 \<le> o2 \<Longrightarrow> get32 (put32 bs off w) o2 = get32 bs o2"
  by (simp add: get32_def put32_def bslice_bpatch_disjoint)

lemma length_put32s [simp]: "off + 4 * length ws \<le> length bs \<Longrightarrow> length (put32s bs off ws) = length bs"
  by (induction bs off ws rule: put32s.induct) simp_all

lemma get32_put32s_before:
  "off + 4 * length ws \<le> length bs \<Longrightarrow> o2 + 4 \<le> off \<Longrightarrow> get32 (put32s bs off ws) o2 = get32 bs o2"
  by (induction bs off ws rule: put32s.induct) (simp_all add: get32_put32_other)

lemma get32_put32s:
  "off + 4 * length ws \<le> length bs \<Longrightarrow> i < length ws \<Longrightarrow> get32 (put32s bs off ws) (off + 4 * i) = ws ! i"
proof (induction bs off ws arbitrary: i rule: put32s.induct)
  case (2 bs off w ws)
  show ?case
  proof (cases i)
    case 0
    then show ?thesis using 2(2) by (simp add: get32_put32s_before get32_put32_same)
  next
    case (Suc j)
    then show ?thesis using 2(1) [of j] 2(2,3) by (simp add: algebra_simps)
  qed
qed simp

lemma get32s_put32s: "off + 4 * length ws \<le> length bs \<Longrightarrow> get32s (put32s bs off ws) off (length ws) = ws"
  by (rule nth_equalityI) (simp_all add: get32s_def get32_put32s)

definition header :: "u8 list \<Rightarrow> u32 list \<Rightarrow> u8 list" where
  "header bs ws = put32s (put32 bs 0 (of_nat (length ws))) 4 ws"

lemma length_header [simp]: "4 + 4 * length ws \<le> length bs \<Longrightarrow> length (header bs ws) = length bs"
  by (simp add: header_def)

lemma header_n: "4 + 4 * length ws \<le> length bs \<Longrightarrow> get32 (header bs ws) 0 = of_nat (length ws)"
  by (simp add: header_def get32_put32s_before get32_put32_same)

lemma header_blocks: "4 + 4 * length ws \<le> length bs \<Longrightarrow> get32s (header bs ws) 4 (length ws) = ws"
  by (simp add: header_def get32s_put32s)

lemma sint_small: "n < 2 ^ 31 \<Longrightarrow> sint (of_nat n :: u32) = int n"
  by (simp add: signed_of_nat signed_take_bit_int_eq_self)

section \<open>Writes in order\<close>

definition apply_writes :: "(u32 \<times> u8 list) list \<Rightarrow> (u32 \<Rightarrow> u8 list) \<Rightarrow> u32 \<Rightarrow> u8 list" where
  "apply_writes ws d = fold (\<lambda>(n, x) d. d(n := x)) ws d"

lemma apply_writes_simps [simp]:
  "apply_writes [] d = d" "apply_writes ((n, x) # ws) d = apply_writes ws (d(n := x))"
  "apply_writes (ws @ vs) d = apply_writes vs (apply_writes ws d)"
  by (simp_all add: apply_writes_def)

lemma apply_writes_other: "n \<notin> fst ` set ws \<Longrightarrow> apply_writes ws d n = d n"
  by (induction ws arbitrary: d) auto

lemma apply_writes_in:
  "distinct (map fst ws) \<Longrightarrow> (n, x) \<in> set ws \<Longrightarrow> apply_writes ws d n = x"
  by (induction ws arbitrary: d) (auto simp: apply_writes_other)

lemma frame_klog: "bio_frame s t \<Longrightarrow> klog t = klog s"
proof -
  assume "bio_frame s t"
  then have "klog (t\<lparr>bufs := bufs s, sleeplocks := sleeplocks s, disk := disk s, disk_writes := disk_writes s, procs := procs s\<rparr>) = klog s"
    by (simp only: bio_frame_def)
  then show ?thesis by simp
qed

text \<open>\<open>wrote P W s t\<close>: between \<open>s\<close> and \<open>t\<close> exactly the writes \<open>W\<close> reached the disk, in this order, and the kernel
  sees them; the buffers \<open>P\<close> hold the same blocks, and the log is as before.\<close>

definition wrote :: "nat set \<Rightarrow> (u32 \<times> u8 list) list \<Rightarrow> 'a log_state_scheme \<Rightarrow> 'a log_state_scheme \<Rightarrow> bool" where
  "wrote P W s t \<longleftrightarrow> klog t = klog s \<and> (\<forall>p\<in>P. blockno (buf_at t p) = blockno (buf_at s p)) \<and> blk t = apply_writes W (blk s)
     \<and> disk t = apply_writes W (disk s) \<and> disk_writes t = disk_writes s @ W"

lemma wrote_Nil [simp]: "wrote P [] s s"
  by (simp add: wrote_def)

lemma wrote_trans: "wrote P W s t \<Longrightarrow> wrote Q V t u \<Longrightarrow> Q \<subseteq> P \<Longrightarrow> wrote Q (W @ V) s u"
  by (auto simp: wrote_def)

lemma wrote_mono: "wrote P W s t \<Longrightarrow> Q \<subseteq> P \<Longrightarrow> wrote Q W s t"
  by (auto simp: wrote_def)

lemma written_wrote: "bc.written P n d s t \<Longrightarrow> wrote P [(n, d)] s t"
  by (simp add: bc.written_def wrote_def frame_klog)

lemma unchanged_klog: "bc.unchanged H s t \<Longrightarrow> klog t = klog s"
  by (simp add: bc.unchanged_def frame_klog)

lemma upd_log_fields [simp]:
  "bufs (upd_log f s) = bufs s" "disk (upd_log f s) = disk s" "disk_writes (upd_log f s) = disk_writes s"
  "klog (upd_log f s) = f (klog s)" "blk (upd_log f s) = blk s" "cache_inv D H P (upd_log f s) = cache_inv D H P s"
  by (simp_all add: upd_log_def blk_def fun_eq_iff cache_inv_def calm_def buf_ok_def cached_once_def mypid_def split: option.split)

section \<open>The steps of a commit\<close>

text \<open>\<open>log_block S i\<close> is the block of the log that backs entry \<open>i\<close> of the header.\<close>

abbreviation log_block :: "u32 \<Rightarrow> nat \<Rightarrow> u32" where
  "log_block S i \<equiv> S + of_nat i + 1"

abbreviation pinned :: "nat set \<Rightarrow> 'a log_state_scheme \<Rightarrow> u32 set" where
  "pinned P s \<equiv> (\<lambda>b. blockno (buf_at s b)) ` P"

lemma upt_step: "[i..<i + Suc k] = i # [Suc i..<Suc i + k]"
  by (simp add: upt_rec)

lemma write_log_loop_run:
  fixes s :: "'a log_state_scheme"
  assumes "cache_inv D {} P s" and "ldev (klog s) = D" and "lstart (klog s) = S" and "card P < NBUF"
    and "\<forall>i. tail \<le> i \<longrightarrow> i < tail + k \<longrightarrow> lh_block (klog s) ! i \<in> pinned P s \<and> log_block S i \<notin> pinned P s"
  shows "\<exists>t. write_log_loop tail k s = Done () t \<and> cache_inv D {} P t
    \<and> wrote P (map (\<lambda>i. (log_block S i, blk s (lh_block (klog s) ! i))) [tail..<tail + k]) s t"
  using assms
proof (induction k arbitrary: tail s)
  case (Suc k)
  let ?l = "log_block S tail" and ?n = "lh_block (klog s) ! tail"
  have "?n \<in> pinned P s" "?l \<notin> pinned P s" using Suc.prems(5) by simp_all
  then obtain p where p: "p \<in> P" "blockno (buf_at s p) = ?n" and l: "\<forall>b\<in>P. blockno (buf_at s b) \<noteq> ?l" by force
  obtain a s1 s2 s3 s4 t where 1: "bread D ?l s = Done a s1" "bc.unchanged {} s s1" "bread D ?n s1 = Done p s2"
    "bwrite a (upd_buf a (\<lambda>x. x\<lparr>bdata := bdata (buf_at s2 p)\<rparr>) s2) = Done () s3" "brelse p s3 = Done () s4" "brelse a s4 = Done () t"
    "cache_inv D {} P t" "bc.written P ?l (blk s ?n) s t"
    using bc.copy_to_log [OF Suc.prems(1) p l Suc.prems(4)] by blast
  have w: "wrote P [(?l, blk s ?n)] s t" using 1(8) by (rule written_wrote)
  have kl: "klog s1 = klog s" "klog t = klog s" using unchanged_klog [OF 1(2)] w by (simp_all add: wrote_def)
  have P: "pinned P t = pinned P s" using w by (simp add: wrote_def)
  have "\<exists>u. write_log_loop (Suc tail) k t = Done () u \<and> cache_inv D {} P u
    \<and> wrote P (map (\<lambda>i. (log_block S i, blk t (lh_block (klog t) ! i))) [Suc tail..<Suc tail + k]) t u"
    using Suc.prems(2-5) by (intro Suc.IH [OF 1(7)]) (simp_all add: kl P)
  then obtain u where u: "write_log_loop (Suc tail) k t = Done () u" "cache_inv D {} P u"
    "wrote P (map (\<lambda>i. (log_block S i, blk t (lh_block (klog t) ! i))) [Suc tail..<Suc tail + k]) t u" by blast
  have "blk t (lh_block (klog s) ! i) = blk s (lh_block (klog s) ! i)" if "tail \<le> i" "i < tail + Suc k" for i
    using w that Suc.prems(5) l by (auto simp: wrote_def)
  then have e: "map (\<lambda>i. (log_block S i, blk t (lh_block (klog t) ! i))) [Suc tail..<Suc tail + k]
      = map (\<lambda>i. (log_block S i, blk s (lh_block (klog s) ! i))) [Suc tail..<Suc tail + k]"
    by (intro map_cong) (auto simp: kl simp del: upt_Suc)
  have "wrote P ([(?l, blk s ?n)] @ map (\<lambda>i. (log_block S i, blk s (lh_block (klog s) ! i))) [Suc tail..<Suc tail + k]) s u"
    by (rule wrote_trans [OF w u(3) [unfolded e]]) simp
  then have "wrote P (map (\<lambda>i. (log_block S i, blk s (lh_block (klog s) ! i))) [tail..<tail + Suc k]) s u"
    by (simp only: upt_step list.map append.simps)
  moreover have "write_log_loop tail (Suc k) s = Done () u"
    using Suc.prems(2,3) by (simp add: 1 u kl Let_def)
  ultimately show ?case using u(2) by blast
qed simp

lemma write_head_run:
  assumes "cache_inv D {} P s" and "ldev (klog s) = D" and "lstart (klog s) = S" and "card P < NBUF" and "S \<notin> pinned P s"
    and "lh_n (klog s) = int (length ws)" and "take (length ws) (lh_block (klog s)) = ws" and "length ws \<le> LOGSIZE"
  shows "\<exists>t. write_head s = Done () t \<and> cache_inv D {} P t \<and> wrote P [(S, header (blk s S) ws)] s t"
proof -
  have n: "\<forall>b\<in>P. blockno (buf_at s b) \<noteq> S" using assms(5) by auto
  have len: "length (header (blk s S) ws) = BSIZE" using length_blk [OF assms(1)] assms(8) by simp
  obtain b s1 s2 t where 1: "bread D S s = Done b s1" "bc.unchanged {} s s1"
    "bwrite b (upd_buf b (\<lambda>x. x\<lparr>bdata := header (bdata (buf_at s1 b)) ws\<rparr>) s1) = Done () s2" "brelse b s2 = Done () t"
    "cache_inv D {} P t" "bc.written P S (header (blk s S) ws) s t"
    using bc.update_block [OF assms(1) n assms(4), of "\<lambda>x. header x ws", OF len] by blast
  have "upd_buf b (\<lambda>x. x\<lparr>bdata := put32s (put32 (bdata x) 0 (of_nat (length ws))) 4 ws\<rparr>) s1
      = upd_buf b (\<lambda>x. x\<lparr>bdata := header (bdata (buf_at s1 b)) ws\<rparr>) s1"
    by (simp add: upd_buf_def header_def)
  then have "write_head s = Done () t"
    using assms(2,3,6,7) 1 unchanged_klog [OF 1(2)] by (simp add: write_head_def Let_def)
  then show ?thesis using 1(5) written_wrote [OF 1(6)] by blast
qed

lemma install_loop_commit:
  fixes s :: "'a log_state_scheme"
  assumes "cache_inv D {} P s" and "ldev (klog s) = D" and "lstart (klog s) = S" and "card P < NBUF"
    and "pinned P s = (!) (lh_block (klog s)) ` {tail..<tail + k}" and "inj_on ((!) (lh_block (klog s))) {tail..<tail + k}"
    and "\<forall>i j. i < tail + k \<longrightarrow> j < tail + k \<longrightarrow> log_block S i \<noteq> lh_block (klog s) ! j"
  shows "\<exists>t. install_trans_loop False tail k s = Done () t \<and> cache_inv D {} {} t
    \<and> wrote {} (map (\<lambda>i. (lh_block (klog s) ! i, blk s (log_block S i))) [tail..<tail + k]) s t"
  using assms
proof (induction k arbitrary: tail s P)
  case (Suc k)
  let ?b = "lh_block (klog s)"
  let ?l = "log_block S tail" and ?n = "?b ! tail"
  have "?n \<in> pinned P s" "?l \<notin> pinned P s" using Suc.prems(5,7) by auto
  then obtain p where p: "p \<in> P" "blockno (buf_at s p) = ?n" and l: "\<forall>b\<in>P. blockno (buf_at s b) \<noteq> ?l" by force
  obtain a s1 s2 s3 s4 s5 t where 1: "bread D ?l s = Done a s1" "bc.unchanged {} s s1" "bread D ?n s1 = Done p s2"
    "bwrite p (upd_buf p (\<lambda>x. x\<lparr>bdata := bdata (buf_at s2 a)\<rparr>) s2) = Done () s3" "bunpin p s3 = Done () s4"
    "brelse a s4 = Done () s5" "brelse p s5 = Done () t"
    "cache_inv D {} (P - {p}) t" "bc.written P ?n (blk s ?l) s t"
    using bc.install_pinned [OF Suc.prems(1) p l Suc.prems(4)] by blast
  have w: "wrote P [(?n, blk s ?l)] s t" using 1(9) by (rule written_wrote)
  have kl: "klog s1 = klog s" "klog t = klog s" using unchanged_klog [OF 1(2)] w by (simp_all add: wrote_def)
  have "pinned (P - {p}) t = pinned (P - {p}) s" using w by (simp add: wrote_def)
  also have "\<dots> = pinned P s - {?n}"
    using used_inj [OF Suc.prems(1)] p by (simp add: inj_on_image_set_diff [of _ P])
  also have "\<dots> = (!) ?b ` ({tail..<tail + Suc k} - {tail})"
    using Suc.prems(5,6) by (simp add: inj_on_image_set_diff [of _ "{tail..<tail + Suc k}"])
  also have "{tail..<tail + Suc k} - {tail} = {Suc tail..<Suc tail + k}" by auto
  finally have P: "pinned (P - {p}) t = (!) ?b ` {Suc tail..<Suc tail + k}" .
  have card: "card (P - {p}) < NBUF" using Suc.prems(4) card_Diff1_le [of P p] by linarith
  have "\<exists>u. install_trans_loop False (Suc tail) k t = Done () u \<and> cache_inv D {} {} u
    \<and> wrote {} (map (\<lambda>i. (lh_block (klog t) ! i, blk t (log_block S i))) [Suc tail..<Suc tail + k]) t u"
    using Suc.prems(2,3,6,7) by (intro Suc.IH [OF 1(8) _ _ card]) (simp_all add: kl P inj_on_def)
  then obtain u where u: "install_trans_loop False (Suc tail) k t = Done () u" "cache_inv D {} {} u"
    "wrote {} (map (\<lambda>i. (lh_block (klog t) ! i, blk t (log_block S i))) [Suc tail..<Suc tail + k]) t u" by blast
  have "blk t (log_block S i) = blk s (log_block S i)" if "tail \<le> i" "i < tail + Suc k" for i
    using w that Suc.prems(7) p by (auto simp: wrote_def)
  then have e: "map (\<lambda>i. (lh_block (klog t) ! i, blk t (log_block S i))) [Suc tail..<Suc tail + k]
      = map (\<lambda>i. (?b ! i, blk s (log_block S i))) [Suc tail..<Suc tail + k]"
    by (intro map_cong) (auto simp: kl simp del: upt_Suc)
  have "wrote {} ([(?n, blk s ?l)] @ map (\<lambda>i. (?b ! i, blk s (log_block S i))) [Suc tail..<Suc tail + k]) s u"
    by (rule wrote_trans [OF w u(3) [unfolded e]]) simp
  then have "wrote {} (map (\<lambda>i. (?b ! i, blk s (log_block S i))) [tail..<tail + Suc k]) s u"
    by (simp only: upt_step list.map append.simps)
  moreover have "install_trans_loop False tail (Suc k) s = Done () u"
    using Suc.prems(2,3) by (simp add: 1 u kl Let_def)
  ultimately show ?case using u(2) by blast
qed simp

lemma install_loop_recover:
  fixes s :: "'a log_state_scheme"
  assumes "cache_inv D {} {} s" and "ldev (klog s) = D" and "lstart (klog s) = S"
    and "\<forall>i j. i < tail + k \<longrightarrow> j < tail + k \<longrightarrow> log_block S i \<noteq> lh_block (klog s) ! j"
  shows "\<exists>t. install_trans_loop True tail k s = Done () t \<and> cache_inv D {} {} t
    \<and> wrote {} (map (\<lambda>i. (lh_block (klog s) ! i, blk s (log_block S i))) [tail..<tail + k]) s t"
  using assms
proof (induction k arbitrary: tail s)
  case (Suc k)
  let ?b = "lh_block (klog s)"
  let ?l = "log_block S tail" and ?n = "?b ! tail"
  have ln: "?l \<noteq> ?n" using Suc.prems(4) by simp
  have "1 < NBUF" by (simp add: NBUF_def)
  then obtain a s1 b s2 s3 s4 t where 1: "bread D ?l s = Done a s1" "bc.unchanged {} s s1" "bread D ?n s1 = Done b s2"
    "bwrite b (upd_buf b (\<lambda>x. x\<lparr>bdata := bdata (buf_at s2 a)\<rparr>) s2) = Done () s3"
    "brelse a s3 = Done () s4" "brelse b s4 = Done () t"
    "cache_inv D {} {} t" "bc.written {} ?n (blk s ?l) s t"
    using bc.install_fresh [OF Suc.prems(1) ln] by blast
  have w: "wrote {} [(?n, blk s ?l)] s t" using 1(8) by (rule written_wrote)
  have kl: "klog s1 = klog s" "klog t = klog s" using unchanged_klog [OF 1(2)] w by (simp_all add: wrote_def)
  have "\<exists>u. install_trans_loop True (Suc tail) k t = Done () u \<and> cache_inv D {} {} u
    \<and> wrote {} (map (\<lambda>i. (lh_block (klog t) ! i, blk t (log_block S i))) [Suc tail..<Suc tail + k]) t u"
    using Suc.prems(2-4) by (intro Suc.IH [OF 1(7)]) (simp_all add: kl)
  then obtain u where u: "install_trans_loop True (Suc tail) k t = Done () u" "cache_inv D {} {} u"
    "wrote {} (map (\<lambda>i. (lh_block (klog t) ! i, blk t (log_block S i))) [Suc tail..<Suc tail + k]) t u" by blast
  have "blk t (log_block S i) = blk s (log_block S i)" if "i < tail + Suc k" for i
    using w that Suc.prems(4) by (auto simp: wrote_def)
  then have e: "map (\<lambda>i. (lh_block (klog t) ! i, blk t (log_block S i))) [Suc tail..<Suc tail + k]
      = map (\<lambda>i. (?b ! i, blk s (log_block S i))) [Suc tail..<Suc tail + k]"
    by (intro map_cong) (auto simp: kl simp del: upt_Suc)
  have "wrote {} ([(?n, blk s ?l)] @ map (\<lambda>i. (?b ! i, blk s (log_block S i))) [Suc tail..<Suc tail + k]) s u"
    by (rule wrote_trans [OF w u(3) [unfolded e]]) simp
  then have "wrote {} (map (\<lambda>i. (?b ! i, blk s (log_block S i))) [tail..<tail + Suc k]) s u"
    by (simp only: upt_step list.map append.simps)
  moreover have "install_trans_loop True tail (Suc k) s = Done () u"
    using Suc.prems(2,3) by (simp add: 1 u kl Let_def)
  ultimately show ?case using u(2) by blast
qed simp

section \<open>What the disk means\<close>

text \<open>
  The entries of a header on disk, and the contents that block \<open>m\<close> has once the log is installed: what the
  disk means to a reader who comes after recovery.
\<close>

definition log_entries :: "u32 \<Rightarrow> (u32 \<Rightarrow> u8 list) \<Rightarrow> u32 list" where
  "log_entries S d = get32s (d S) 4 (unat (get32 (d S) 0))"

definition log_view :: "u32 \<Rightarrow> (u32 \<Rightarrow> u8 list) \<Rightarrow> u32 \<Rightarrow> u8 list" where
  "log_view S d m = (case find (\<lambda>i. log_entries S d ! i = m) [0..<length (log_entries S d)] of
     Some i \<Rightarrow> d (log_block S i) | None \<Rightarrow> d m)"

text \<open>The blocks of the log, a header and \<open>LOGSIZE - 1\<close> blocks as \<open>mkfs\<close> lays it out, and a list of home blocks
  that is fit for the log at \<open>S\<close>.\<close>

definition log_area :: "u32 \<Rightarrow> u32 set" where
  "log_area S = insert S (log_block S ` {..<LOGSIZE - 1})"

definition fit :: "u32 \<Rightarrow> u32 list \<Rightarrow> bool" where
  "fit S bl \<longleftrightarrow> distinct bl \<and> length bl < LOGSIZE \<and> set bl \<inter> log_area S = {}"

lemma fitD:
  assumes "fit S bl"
  shows "distinct bl" "length bl < LOGSIZE" "S \<notin> set bl" "i < length bl \<Longrightarrow> log_block S i \<notin> set bl"
    "i < length bl \<Longrightarrow> j < length bl \<Longrightarrow> log_block S i \<noteq> bl ! j" "i < length bl \<Longrightarrow> bl ! i \<noteq> S"
proof -
  show "distinct bl" "length bl < LOGSIZE" and S: "S \<notin> set bl" using assms by (auto simp: fit_def log_area_def)
  show l: "log_block S i \<notin> set bl" if "i < length bl" for i using assms that by (auto simp: fit_def log_area_def)
  show "log_block S i \<noteq> bl ! j" if "i < length bl" "j < length bl" using l [OF that(1)] that(2) by (metis nth_mem)
  show "bl ! i \<noteq> S" if "i < length bl" using S that by (metis nth_mem)
qed

lemma fit_Nil [simp]: "fit S []"
  by (simp add: fit_def)

lemma log_block_inj: "i < 2 ^ 31 \<Longrightarrow> j < 2 ^ 31 \<Longrightarrow> log_block S i = log_block S j \<longleftrightarrow> i = j"
proof -
  assume a: "i < 2 ^ 31" "j < 2 ^ 31"
  have "log_block S i = log_block S j \<longleftrightarrow> (of_nat i :: u32) = of_nat j" by simp
  also have "\<dots> \<longleftrightarrow> i = j" using sint_small [OF a(1)] sint_small [OF a(2)] by (metis of_nat_eq_iff)
  finally show ?thesis .
qed

lemma log_block_S: "i < 2 ^ 31 \<Longrightarrow> log_block S i \<noteq> S"
proof
  assume a: "i < 2 ^ 31" "log_block S i = S"
  then have "(of_nat (i + 1) :: u32) = 0" by (simp add: add.assoc add.commute)
  moreover have "sint (of_nat (i + 1) :: u32) = int (i + 1)" if "i + 1 < 2 ^ 31" using sint_small [OF that] .
  moreover have "(of_nat (2 ^ 31) :: u32) \<noteq> 0" by simp
  ultimately show False using a(1) by (cases "i + 1 = 2 ^ 31") auto
qed

lemma log_view_clear: "log_entries S d = [] \<Longrightarrow> log_view S d m = d m"
  by (simp add: log_view_def)

lemma log_view_in:
  assumes "distinct (log_entries S d)" and "i < length (log_entries S d)"
  shows "log_view S d (log_entries S d ! i) = d (log_block S i)"
proof -
  have "find (\<lambda>j. log_entries S d ! j = log_entries S d ! i) [0..<length (log_entries S d)] = Some i"
    using assms by (auto simp: find_Some_iff nth_eq_iff_index_eq)
  then show ?thesis by (simp add: log_view_def)
qed

lemma log_view_out: "m \<notin> set (log_entries S d) \<Longrightarrow> log_view S d m = d m"
proof -
  assume "m \<notin> set (log_entries S d)"
  then have "find (\<lambda>j. log_entries S d ! j = m) [0..<length (log_entries S d)] = None"
    by (auto simp: find_None_iff in_set_conv_nth)
  then show ?thesis by (simp add: log_view_def)
qed

text \<open>Overwriting the home blocks of the entries, with anything, does not change what the disk means.\<close>

lemma log_view_cong:
  assumes "fit S (log_entries S d)" and "\<forall>m. m \<notin> set (log_entries S d) \<longrightarrow> d' m = d m"
  shows "log_view S d' m = log_view S d m"
proof -
  note f = fitD [OF assms(1)]
  have e: "log_entries S d' = log_entries S d" using assms(2) f(3) by (simp add: log_entries_def)
  show ?thesis
  proof (cases "m \<in> set (log_entries S d)")
    case True
    then obtain i where i: "i < length (log_entries S d)" "m = log_entries S d ! i" by (auto simp: in_set_conv_nth)
    have "log_view S d m = d (log_block S i)" using log_view_in [OF f(1) i(1)] i(2) by simp
    moreover have "log_view S d' m = d' (log_block S i)" using log_view_in [of S d' i] f(1) i by (simp add: e)
    moreover have "d' (log_block S i) = d (log_block S i)" using assms(2) f(4) [OF i(1)] by blast
    ultimately show ?thesis by simp
  next
    case False
    then show ?thesis using assms(2) by (simp add: log_view_out e)
  qed
qed

section \<open>Prefixes of writes\<close>

lemma writes_miss: "(\<forall>i<n. f i \<noteq> m) \<Longrightarrow> apply_writes (take k (map (\<lambda>i. (f i, g i)) [0..<n])) d m = d m"
  by (rule apply_writes_other) (fastforce dest!: in_set_takeD)

lemma writes_miss_all: "(\<forall>i<n. f i \<noteq> m) \<Longrightarrow> apply_writes (map (\<lambda>i. (f i, g i)) [0..<n]) d m = d m"
  by (rule apply_writes_other) fastforce

lemma writes_hit:
  assumes "inj_on f {..<n}" and "i < n"
  shows "apply_writes (map (\<lambda>i. (f i, g i)) [0..<n]) d (f i) = g i"
  using assms by (intro apply_writes_in) (auto simp: distinct_map comp_def lessThan_atLeast0)

section \<open>The invariant of the log\<close>

text \<open>
  \<open>log_inv D S bl H P s\<close>: outside \<open>commit\<close> the header in memory lists the blocks \<open>bl\<close>, exactly the blocks that
  are pinned in the cache, and the header on disk is empty; \<open>H\<close> are the buffers that the caller has locked.
\<close>

definition log_inv :: "u32 \<Rightarrow> u32 \<Rightarrow> u32 list \<Rightarrow> nat set \<Rightarrow> nat set \<Rightarrow> 'a log_state_scheme \<Rightarrow> bool" where
  "log_inv D S bl H P s \<longleftrightarrow> cache_inv D H P s \<and> ldev (klog s) = D \<and> lstart (klog s) = S \<and> lsize (klog s) = of_nat LOGSIZE
     \<and> lh_n (klog s) = int (length bl) \<and> take (length bl) (lh_block (klog s)) = bl \<and> length (lh_block (klog s)) = LOGSIZE
     \<and> pinned P s = set bl \<and> fit S bl \<and> get32 (disk s S) 0 = 0"

lemma log_invD:
  assumes "log_inv D S bl H P s"
  shows "cache_inv D H P s" "ldev (klog s) = D" "lstart (klog s) = S" "lsize (klog s) = of_nat LOGSIZE"
    "lh_n (klog s) = int (length bl)" "take (length bl) (lh_block (klog s)) = bl" "length (lh_block (klog s)) = LOGSIZE"
    "pinned P s = set bl" "fit S bl" "get32 (disk s S) 0 = 0"
  using assms by (simp_all add: log_inv_def)

lemma log_inv_card:
  assumes "log_inv D S bl {} P s"
  shows "card P = length bl" "card P < NBUF"
proof -
  have "card P = card (pinned P s)" using used_inj [OF log_invD(1) [OF assms]] by (simp add: card_image)
  then show "card P = length bl" using log_invD(8) [OF assms] fitD(1) [OF log_invD(9) [OF assms]] by (simp add: distinct_card)
  then show "card P < NBUF" using fitD(2) [OF log_invD(9) [OF assms]] by (simp add: NBUF_def)
qed

lemma log_inv_nth:
  assumes "log_inv D S bl H P s" and "i < length bl"
  shows "lh_block (klog s) ! i = bl ! i"
  using log_invD(6) [OF assms(1)] assms(2) by (metis nth_take)

lemma log_inv_blk: "log_inv D S bl {} P s \<Longrightarrow> m \<notin> set bl \<Longrightarrow> blk s m = disk s m"
  using blk_clean [of D "{}" P s m] log_invD(1,8) [of D S bl "{}" P s] by auto

lemma log_entries_clear: "get32 (d S) 0 = 0 \<Longrightarrow> log_entries S d = []"
  by (simp add: log_entries_def get32s_def)

text \<open>The writes of a commit that has the blocks \<open>bl\<close> with the contents \<open>B\<close>, in order.\<close>

definition log_writes :: "u32 \<Rightarrow> u32 list \<Rightarrow> (u32 \<Rightarrow> u8 list) \<Rightarrow> (u32 \<times> u8 list) list" where
  "log_writes S bl B = map (\<lambda>i. (log_block S i, B (bl ! i))) [0..<length bl]"

definition install_writes :: "u32 \<Rightarrow> u32 list \<Rightarrow> (u32 \<Rightarrow> u8 list) \<Rightarrow> (u32 \<times> u8 list) list" where
  "install_writes S bl B = map (\<lambda>i. (bl ! i, B (log_block S i))) [0..<length bl]"

definition commit_writes :: "u32 \<Rightarrow> u32 list \<Rightarrow> (u32 \<Rightarrow> u8 list) \<Rightarrow> (u32 \<times> u8 list) list" where
  "commit_writes S bl B = log_writes S bl B @ [(S, header (B S) bl)] @ map (\<lambda>i. (bl ! i, B (bl ! i))) [0..<length bl]
     @ [(S, header (header (B S) bl) [])]"

lemma log_block_inj_on: "n \<le> LOGSIZE \<Longrightarrow> inj_on (log_block S) {..<n}"
  by (rule inj_onI) (simp add: log_block_inj del: add_right_cancel add_left_cancel)

lemma write_log_run:
  assumes i: "log_inv D S bl {} P s"
  shows "\<exists>t. write_log s = Done () t \<and> cache_inv D {} P t \<and> wrote P (log_writes S bl (blk s)) s t"
proof -
  note f = fitD [OF log_invD(9) [OF i]]
  have "\<exists>t. write_log_loop 0 (length bl) s = Done () t \<and> cache_inv D {} P t
    \<and> wrote P (map (\<lambda>i. (log_block S i, blk s (lh_block (klog s) ! i))) [0..<0 + length bl]) s t"
    using log_invD(2,3,8) [OF i] log_inv_nth [OF i] f(4) log_inv_card [OF i]
    by (intro write_log_loop_run [OF log_invD(1) [OF i]]) simp_all
  moreover have "map (\<lambda>i. (log_block S i, blk s (lh_block (klog s) ! i))) [0..<0 + length bl] = log_writes S bl (blk s)"
    by (simp add: log_writes_def log_inv_nth [OF i])
  ultimately show ?thesis using log_invD(5) [OF i] by (simp add: write_log_def)
qed

lemma install_writes_eq:
  assumes "fit S bl"
  shows "install_writes S bl ((apply_writes (log_writes S bl B) B)(S := h)) = map (\<lambda>i. (bl ! i, B (bl ! i))) [0..<length bl]"
proof -
  note f = fitD [OF assms]
  have "apply_writes (log_writes S bl B) B (log_block S i) = B (bl ! i)" if "i < length bl" for i
    unfolding log_writes_def using f(2) that by (intro writes_hit log_block_inj_on) auto
  moreover have "log_block S i \<noteq> S" if "i < length bl" for i
    using f(2) that by (intro log_block_S) simp
  ultimately show ?thesis by (simp add: install_writes_def)
qed

lemma commit_run:
  assumes i: "log_inv D S bl {} P s" and ne: "bl \<noteq> []"
  shows "\<exists>t. commit s = Done () t \<and> cache_inv D {} {} t \<and> klog t = (klog s)\<lparr>lh_n := 0\<rparr>
    \<and> blk t = apply_writes (commit_writes S bl (blk s)) (blk s) \<and> disk t = apply_writes (commit_writes S bl (blk s)) (disk s)
    \<and> disk_writes t = disk_writes s @ commit_writes S bl (blk s)"
proof -
  let ?B = "blk s" and ?C = "map (\<lambda>i. (bl ! i, blk s (bl ! i))) [0..<length bl]"
  note f = fitD [OF log_invD(9) [OF i]] and l = log_invD(2-8) [OF i]
  obtain s1 where 1: "write_log s = Done () s1" "cache_inv D {} P s1" "wrote P (log_writes S bl ?B) s s1"
    using write_log_run [OF i] by blast
  have k1: "klog s1 = klog s" "pinned P s1 = set bl" "blk s1 = apply_writes (log_writes S bl ?B) ?B"
    using 1(3) l(7) by (simp_all add: wrote_def)
  have B: "blk s1 S = ?B S" using f(2) log_block_S
    unfolding k1(3) log_writes_def by (intro apply_writes_other) force
  obtain s2 where 2: "write_head s1 = Done () s2" "cache_inv D {} P s2" "wrote P [(S, header (?B S) bl)] s1 s2"
    using write_head_run [OF 1(2), of S bl] k1 l f(2,3) log_inv_card(2) [OF i] B by auto
  have k2: "klog s2 = klog s" "pinned P s2 = set bl" "blk s2 = (apply_writes (log_writes S bl ?B) ?B)(S := header (?B S) bl)"
    using 2(3) k1 by (simp_all add: wrote_def)
  have "set bl = (!) (lh_block (klog s)) ` {0..<0 + length bl}"
    using log_inv_nth [OF i] by (force simp: in_set_conv_nth)
  moreover have "inj_on ((!) (lh_block (klog s))) {0..<0 + length bl}"
    using log_inv_nth [OF i] f(1) by (simp add: inj_on_def nth_eq_iff_index_eq)
  ultimately have ex: "\<exists>t. install_trans_loop False 0 (length bl) s2 = Done () t \<and> cache_inv D {} {} t
    \<and> wrote {} (map (\<lambda>i. (lh_block (klog s2) ! i, blk s2 (log_block S i))) [0..<0 + length bl]) s2 t"
    using l(1,2) log_inv_nth [OF i] f(5) log_inv_card(2) [OF i]
    by (intro install_loop_commit [OF 2(2)]) (simp_all add: k2(1,2))
  have e: "map (\<lambda>i. (lh_block (klog s2) ! i, blk s2 (log_block S i))) [0..<0 + length bl] = ?C"
    using install_writes_eq [OF log_invD(9) [OF i], of ?B "header (?B S) bl"] log_inv_nth [OF i]
    by (simp add: k2(1,3) install_writes_def)
  obtain s3 where 3: "install_trans False s2 = Done () s3" "cache_inv D {} {} s3" "wrote {} ?C s2 s3"
    using ex [unfolded e] l(4) by (auto simp: install_trans_def k2(1))
  let ?u = "upd_log (\<lambda>l. l\<lparr>lh_n := 0\<rparr>) s3"
  have k3: "klog s3 = klog s" "blk s3 S = header (?B S) bl"
    using 3(3) k2(1,3) f(6) by (simp_all add: wrote_def writes_miss_all)
  have "\<exists>t. write_head ?u = Done () t \<and> cache_inv D {} {} t \<and> wrote {} [(S, header (blk ?u S) [])] ?u t"
    using l(1,2) by (intro write_head_run) (simp_all add: 3(2) k3(1) NBUF_def)
  then obtain t where 4: "write_head ?u = Done () t" "cache_inv D {} {} t" "wrote {} [(S, header (header (?B S) bl) [])] ?u t"
    by (auto simp: k3(2))
  have "commit s = Done () t" using ne l(4) 1 2 3 4 by (simp add: commit_def)
  then show ?thesis
    using 1(3) 2(3) 3(3) 4(2,3) unfolding wrote_def commit_writes_def by simp
qed

section \<open>\<open>log_write\<close>\<close>

text \<open>The slot that \<open>log_write\<close> finds: the index of the block if it is listed, the end of the list otherwise.\<close>

lemma log_slot_first:
  "log_slot bl n i k = i + length (takeWhile (\<lambda>x. x \<noteq> n) (map ((!) bl) [i..<i + k]))"
proof (induction bl n i k rule: log_slot.induct)
  case (2 bl n i k)
  then show ?case by (simp only: upt_step) simp
qed simp

lemma map_nth_take: "n \<le> length xs \<Longrightarrow> map ((!) xs) [0..<n] = take n xs"
  by (rule nth_equalityI) simp_all

lemma log_slot_take:
  assumes "take (length ws) bl = ws" and "length ws \<le> length bl"
  shows "log_slot bl n 0 (length ws) = length (takeWhile (\<lambda>x. x \<noteq> n) ws)"
  using log_slot_first [of bl n 0 "length ws"] assms by (simp add: map_nth_take)

lemma bpin_locked:
  assumes "l \<noteq> L_bcache"
  shows "bpin b (s\<lparr>held := {l}\<rparr>) = Done () (upd_buf b (\<lambda>x. x\<lparr>refcnt := refcnt x + 1\<rparr>) s\<lparr>held := {l}\<rparr>)"
  using assms by (auto simp: bpin_def upd_buf_def bufs_held)

lemma bpin_Done: "held s = {} \<Longrightarrow> bpin b s = Done () (upd_buf b (\<lambda>x. x\<lparr>refcnt := refcnt x + 1\<rparr>) s)"
  by (simp add: bpin_def upd_buf_def bufs_held)

lemma held_same: "held s = h \<Longrightarrow> s\<lparr>held := h\<rparr> = s"
  by simp

lemma log_write_eq:
  assumes h: "held s = {}" and o: "1 \<le> outstanding (klog s)" and n: "lh_n (klog s) < int LOGSIZE" "lh_n (klog s) < sint (lsize (klog s)) - 1"
  shows "log_write b s = (let bno = blockno (buf_at s b); i = log_slot (lh_block (klog s)) bno 0 (nat (lh_n (klog s)));
     t = upd_log (\<lambda>l. l\<lparr>lh_block := (lh_block l)[i := bno]\<rparr>) s
     in if int i = lh_n (klog s) then andthen (bpin b t) (\<lambda>_ t. Done () (upd_log (\<lambda>l. l\<lparr>lh_n := lh_n l + 1\<rparr>) t)) else Done () t)"
proof -
  have e: "upd_log f (s\<lparr>held := h\<rparr>) = (upd_log f s)\<lparr>held := h\<rparr>" for f h and s :: "'a log_state_scheme" by (simp add: upd_log_def)
  have "held (upd_log f s) = {}" "held (upd_buf b g (upd_log f s)) = {}" "held (upd_log g' (upd_buf b g (upd_log f s))) = {}" for f g g'
    using h by (simp_all add: upd_log_def upd_buf_def)
  moreover have "\<not> (lh_n (klog s) \<ge> int LOGSIZE \<or> lh_n (klog s) \<ge> sint (lsize (klog s)) - 1)" "\<not> outstanding (klog s) < 1"
    using n o by auto
  ultimately show ?thesis using h by (simp add: log_write_def Let_def e bpin_locked bpin_Done held_same)
qed

abbreviation op_count :: "'a log_state_scheme \<Rightarrow> int \<times> bool" where
  "op_count s \<equiv> (outstanding (klog s), committing (klog s))"

definition add_block :: "u32 \<Rightarrow> u32 list \<Rightarrow> u32 list" where
  "add_block n bl = (if n \<in> set bl then bl else bl @ [n])"

lemma pinned_member:
  assumes "log_inv D S bl H P s" and "b \<in> H" and "blockno (buf_at s b) \<in> set bl"
  shows "b \<in> P"
proof -
  have "blockno (buf_at s b) \<in> pinned P s" using log_invD(8) [OF assms(1)] assms(3) by simp
  then obtain p where "p \<in> P" "blockno (buf_at s p) = blockno (buf_at s b)" by auto
  then show ?thesis using used_inj [OF log_invD(1) [OF assms(1)]] assms(2) by (auto simp: inj_on_def)
qed

lemma fit_add: "fit S bl \<Longrightarrow> n \<notin> log_area S \<Longrightarrow> length bl < LOGSIZE - 1 \<Longrightarrow> fit S (add_block n bl)"
  by (auto simp: fit_def add_block_def)

lemma takeWhile_less: "n \<in> set xs \<Longrightarrow> length (takeWhile (\<lambda>x. x \<noteq> n) xs) < length xs"
  by (induction xs) auto

text \<open>A block that is not listed yet: it is added and pinned.\<close>

lemma log_add_rule:
  assumes i: "log_inv D S bl H P s" and b: "b \<in> H" and n: "blockno (buf_at s b) = n" "n \<notin> log_area S" "n \<notin> set bl"
    and room: "length bl < LOGSIZE - 1"
  shows "returns (bpin b (upd_log (\<lambda>l. l\<lparr>lh_block := (lh_block l)[length bl := n]\<rparr>) s)) (\<lambda>_ u.
    log_inv D S (bl @ [n]) H (insert b P) (upd_log (\<lambda>l. l\<lparr>lh_n := lh_n l + 1\<rparr>) u)
    \<and> blk u = blk s \<and> disk u = disk s \<and> disk_writes u = disk_writes s \<and> op_count u = op_count s
    \<and> (\<forall>c. blockno (buf_at u c) = blockno (buf_at s c) \<and> bdata (buf_at u c) = bdata (buf_at s c)))"
    (is "returns (bpin b ?t) ?Q")
proof -
  note l = log_invD [OF i]
  have bP: "b \<notin> P" using n(1,3) l(8) by auto
  have c: "cache_inv D H P ?t" using l(1) by simp
  have tk: "take (Suc (length bl)) ((lh_block (klog s))[length bl := n]) = bl @ [n]"
    using l(6,7) room by (simp add: take_Suc_conv_app_nth)
  have f: "fit S (bl @ [n])" using fit_add [OF l(9) n(2) room] n(3) by (simp add: add_block_def)
  show ?thesis
  proof (rule returns_mono [OF bpin_rule [OF c b bP, where X = UNIV]], elim conjE)
    fix u
    assume u: "cache_inv D H (insert b P) u" "blk u = blk ?t" "bio_frame ?t u" "keeps UNIV ?t u" "disk u = disk ?t" "disk_writes u = disk_writes ?t"
    have kg: "klog u = (klog s)\<lparr>lh_block := (lh_block (klog s))[length bl := n]\<rparr>" using frame_klog [OF u(3)] by simp
    have "pinned (insert b P) u = set (bl @ [n])" using u(4) l(8) n(1) by (simp add: keeps_def)
    then have "log_inv D S (bl @ [n]) H (insert b P) (upd_log (\<lambda>l. l\<lparr>lh_n := lh_n l + 1\<rparr>) u)"
      using u(1,5) l(2-5,7,10) f tk by (simp add: log_inv_def kg)
    then show "?Q () u" using u(2,4-6) kg by (simp add: keeps_def)
  qed
qed

lemma log_write_rule:
  assumes i: "log_inv D S bl H P s" and b: "b \<in> H" and n: "blockno (buf_at s b) = n" "n \<notin> log_area S"
    and o: "1 \<le> outstanding (klog s)" and room: "length bl < LOGSIZE - 1"
  shows "returns (log_write b s) (\<lambda>_ t. log_inv D S (add_block n bl) H (insert b P) t \<and> blk t = blk s \<and> disk t = disk s
    \<and> disk_writes t = disk_writes s \<and> op_count t = op_count s
    \<and> (\<forall>c. blockno (buf_at t c) = blockno (buf_at s c) \<and> bdata (buf_at t c) = bdata (buf_at s c)))"
proof -
  note l = log_invD [OF i]
  let ?k = "log_slot (lh_block (klog s)) n 0 (length bl)"
  let ?t = "upd_log (\<lambda>l. l\<lparr>lh_block := (lh_block l)[?k := n]\<rparr>) s"
  have k: "?k = length (takeWhile (\<lambda>x. x \<noteq> n) bl)" using l(6,7) room by (intro log_slot_take) simp_all
  have "held s = {}" using cache_invD(1) [OF l(1)] by (simp add: calm_def)
  moreover have "lh_n (klog s) < sint (lsize (klog s)) - 1" using l(4,5) room by (simp add: signed_take_bit_int_eq_self)
  ultimately have eq: "log_write b s = (if ?k = length bl then andthen (bpin b ?t) (\<lambda>_ t. Done () (upd_log (\<lambda>l. l\<lparr>lh_n := lh_n l + 1\<rparr>) t))
     else Done () ?t)"
    using log_write_eq [OF _ o] l(5) room n(1) by (simp add: Let_def)
  show ?thesis
  proof (cases "n \<in> set bl")
    case True
    then have bP: "b \<in> P" using pinned_member [OF i b] n(1) by simp
    have kl: "?k < length bl" "bl ! ?k = n"
      using takeWhile_less [OF True] nth_length_takeWhile [of "\<lambda>x. x \<noteq> n" bl] by (auto simp: k)
    then have "(lh_block (klog s))[?k := n] = lh_block (klog s)" using log_inv_nth [OF i] by (metis list_update_id)
    then show ?thesis using kl(1) eq True bP i by (simp add: add_block_def insert_absorb log_inv_def)
  next
    case False
    then have kl: "?k = length bl" using k by (metis (mono_tags, lifting) takeWhile_eq_all_conv)
    then show ?thesis using log_add_rule [OF i b n False room] eq False by (auto simp: add_block_def elim!: returnsE)
  qed
qed

end
