(* ===== verification/Log_Crash.thy ===== *)
theory Log_Crash
  imports Log_Commit
begin

text \<open>
  Crash safety of the log (\<open>kernel/log.c\<close>): recovery, the meaning of the disk after any prefix of the writes of a
  commit or of a recovery, and the transactions of system calls (\<open>begin_op\<close>, \<open>log_write\<close>, \<open>end_op\<close>). A write
  of one block is taken to be atomic.
\<close>

section \<open>Recovery\<close>

lemma clean_disk: "cache_inv D {} {} r \<Longrightarrow> blk r = disk r"
  using blk_clean [of D "{}" "{}" r] by auto

lemma length_get32s [simp]: "length (get32s bs off n) = n"
  by (simp add: get32s_def)

lemma read_head_run:
  assumes c: "cache_inv D {} {} r" and k: "ldev (klog r) = D" "lstart (klog r) = S" and f: "fit S (log_entries S (disk r))"
  shows "\<exists>t. read_head r = Done () t \<and> cache_inv D {} {} t \<and> disk t = disk r \<and> disk_writes t = disk_writes r
    \<and> klog t = (klog r)\<lparr>lh_n := int (length (log_entries S (disk r))),
         lh_block := log_entries S (disk r) @ drop (length (log_entries S (disk r))) (lh_block (klog r))\<rparr>"
proof -
  have "\<forall>b\<in>{}. blockno (buf_at r b) \<noteq> S" "card {} < NBUF" by (simp_all add: NBUF_def)
  from bc.rd_unused [OF c this] obtain b s1 where 1: "bread D S r = Done b s1" "cache_inv D {b} {} s1"
    "bdata (buf_at s1 b) = blk r S" "blockno (buf_at s1 b) = S" "bc.unchanged {} r s1" "blk r S = disk r S" by blast
  let ?h = "disk r S" and ?n = "unat (get32 (disk r S) 0)" and ?es = "log_entries S (disk r)"
  let ?u = "upd_log (\<lambda>l. l\<lparr>lh_n := int ?n, lh_block := ?es @ drop ?n (lh_block l)\<rparr>) s1"
  have n: "?n < 30" using fitD(2) [OF f] by (simp add: log_entries_def)
  then have sn: "sint (get32 ?h 0) = int ?n" using sint_small [of ?n] by simp
  have "int ?n < 30" using n by linarith
  then have un: "uint (get32 ?h 0) < 30" by simp
  have k1: "klog s1 = klog r" "disk s1 = disk r" "disk_writes s1 = disk_writes r"
    using unchanged_klog [OF 1(5)] 1(5) by (simp_all add: bc.unchanged_def)
  have "cache_inv D {b} {} ?u" "bdata (buf_at ?u b) = disk ?u (blockno (buf_at ?u b))" using 1(2-4,6) k1(2) by simp_all
  then obtain t where t: "brelse b ?u = Done () t" "cache_inv D {} {} t" "bc.unchanged UNIV ?u t"
    using bc.rel_unchanged [of D "{b}" "{}" ?u b] by auto
  have "read_head r = Done () t"
    using 1(1,3,6) k un t(1) by (simp add: read_head_def sn Let_def log_entries_def)
  moreover have "klog t = klog ?u" "disk t = disk r" "disk_writes t = disk_writes r"
    using unchanged_klog [OF t(3)] t(3) k1 by (simp_all add: bc.unchanged_def)
  moreover have "length ?es = ?n" by (simp add: log_entries_def)
  ultimately show ?thesis using t(2) k1(1) by auto
qed

definition recovery_writes :: "u32 \<Rightarrow> (u32 \<Rightarrow> u8 list) \<Rightarrow> (u32 \<times> u8 list) list" where
  "recovery_writes S d = install_writes S (log_entries S d) d @ [(S, header (d S) [])]"

lemma header_clear: "4 \<le> length bs \<Longrightarrow> get32 (header bs []) 0 = 0"
  using header_n [of "[]" bs] by simp

lemma recover_run:
  assumes c: "cache_inv D {} {} r" and k: "ldev (klog r) = D" "lstart (klog r) = S" "lsize (klog r) = of_nat LOGSIZE"
    "length (lh_block (klog r)) = LOGSIZE" and f: "fit S (log_entries S (disk r))"
  shows "\<exists>t. recover_from_log r = Done () t \<and> log_inv D S [] {} {} t \<and> disk t = apply_writes (recovery_writes S (disk r)) (disk r)
    \<and> disk_writes t = disk_writes r @ recovery_writes S (disk r)"
proof -
  let ?es = "log_entries S (disk r)"
  note f' = fitD [OF f]
  obtain s1 where 1: "read_head r = Done () s1" "cache_inv D {} {} s1" "disk s1 = disk r" "disk_writes s1 = disk_writes r"
    "klog s1 = (klog r)\<lparr>lh_n := int (length ?es), lh_block := ?es @ drop (length ?es) (lh_block (klog r))\<rparr>"
    using read_head_run [OF c k(1,2) f] by blast
  have b1: "blk s1 = disk r" using clean_disk [OF 1(2)] 1(3) by simp
  have ex: "\<exists>t. install_trans_loop True 0 (length ?es) s1 = Done () t \<and> cache_inv D {} {} t
    \<and> wrote {} (map (\<lambda>i. (lh_block (klog s1) ! i, blk s1 (log_block S i))) [0..<0 + length ?es]) s1 t"
    using k f'(5) by (intro install_loop_recover [OF 1(2)]) (simp_all add: 1(5) nth_append)
  have e: "map (\<lambda>i. (lh_block (klog s1) ! i, blk s1 (log_block S i))) [0..<0 + length ?es] = install_writes S ?es (disk r)"
    by (simp add: install_writes_def 1(5) b1 nth_append)
  obtain s2 where 2: "install_trans True s1 = Done () s2" "cache_inv D {} {} s2" "wrote {} (install_writes S ?es (disk r)) s1 s2"
    using ex [unfolded e] by (auto simp: install_trans_def 1(5))
  let ?u = "upd_log (\<lambda>l. l\<lparr>lh_n := 0\<rparr>) s2"
  have k2: "klog s2 = klog s1" "blk s2 S = disk r S"
    using 2(3) f'(6) by (simp_all add: wrote_def install_writes_def writes_miss_all b1)
  have "\<exists>t. write_head ?u = Done () t \<and> cache_inv D {} {} t \<and> wrote {} [(S, header (blk ?u S) [])] ?u t"
    using k by (intro write_head_run) (simp_all add: 2(2) k2(1) 1(5) NBUF_def)
  then obtain t where t: "write_head ?u = Done () t" "cache_inv D {} {} t" "wrote {} [(S, header (disk r S) [])] ?u t"
    by (auto simp: k2(2))
  have "length (disk r S) = BSIZE" using c by (simp add: cache_inv_def)
  then have "log_inv D S [] {} {} t"
    using t(2,3) k 1(5) k2(1) f'(2) by (simp add: log_inv_def wrote_def header_clear)
  moreover have "recover_from_log r = Done () t" using 1(1) 2(1) t(1) by (simp add: recover_from_log_def)
  ultimately show ?thesis using 1(3,4) 2(3) t(3) by (simp add: wrote_def recovery_writes_def)
qed

section \<open>Crashes\<close>

lemma fit_S: "m \<notin> log_area S \<Longrightarrow> m \<noteq> S"
  by (auto simp: log_area_def)

lemma installed_view:
  assumes "fit S (log_entries S d)"
  shows "apply_writes (install_writes S (log_entries S d) d) d m = log_view S d m"
proof (cases "m \<in> set (log_entries S d)")
  case True
  note f = fitD [OF assms]
  from True obtain i where i: "i < length (log_entries S d)" "m = log_entries S d ! i" by (auto simp: in_set_conv_nth)
  have "inj_on ((!) (log_entries S d)) {..<length (log_entries S d)}" using f(1) by (simp add: inj_on_def nth_eq_iff_index_eq)
  then have "apply_writes (install_writes S (log_entries S d) d) d m = d (log_block S i)"
    unfolding install_writes_def i(2) by (rule writes_hit [OF _ i(1)])
  then show ?thesis using log_view_in [OF f(1) i(1)] i by simp
next
  case False
  then have "apply_writes (install_writes S (log_entries S d) d) d m = d m"
    unfolding install_writes_def by (intro writes_miss_all) (metis nth_mem)
  then show ?thesis using log_view_out [OF False] by simp
qed

text \<open>Cutting recovery short after any number of writes leaves the meaning of the disk as it was.\<close>

lemma recovery_prefix:
  assumes f: "fit S (log_entries S d)" and h: "length (d S) = BSIZE" and d': "d' = apply_writes (take j (recovery_writes S d)) d"
  shows "fit S (log_entries S d')" "m \<notin> log_area S \<Longrightarrow> log_view S d' m = log_view S d m"
proof -
  let ?n = "length (log_entries S d)"
  have "fit S (log_entries S d') \<and> (m \<notin> log_area S \<longrightarrow> log_view S d' m = log_view S d m)"
  proof (cases "j \<le> ?n")
    case True
    have d': "d' = apply_writes (take j (install_writes S (log_entries S d) d)) d"
      using True by (simp add: d' recovery_writes_def install_writes_def)
    have out: "\<forall>m. m \<notin> set (log_entries S d) \<longrightarrow> d' m = d m"
      unfolding d' install_writes_def by (intro allI impI writes_miss) (metis nth_mem)
    then have "log_entries S d' = log_entries S d" using fitD(3) [OF f] by (simp add: log_entries_def)
    then show ?thesis using log_view_cong [OF f out] f by simp
  next
    case False
    then have d': "d' = (apply_writes (install_writes S (log_entries S d) d) d)(S := header (d S) [])"
      by (simp add: d' recovery_writes_def install_writes_def)
    have "log_entries S d' = []" using h by (intro log_entries_clear) (simp add: d' header_clear)
    then show ?thesis using installed_view [OF f] log_view_clear [of S d'] fit_S [of m S] by (auto simp: d')
  qed
  then show "fit S (log_entries S d')" "m \<notin> log_area S \<Longrightarrow> log_view S d' m = log_view S d m" by simp_all
qed

lemma committed_view:
  assumes f: "fit S bl" and h: "length h = BSIZE" and B: "\<forall>m. m \<notin> set bl \<longrightarrow> B m = d m"
    and d1: "d1 = (apply_writes (log_writes S bl B) d)(S := header h bl)"
  shows "log_entries S d1 = bl" "m \<notin> log_area S \<Longrightarrow> log_view S d1 m = B m"
proof -
  note f' = fitD [OF f]
  have u: "unat (of_nat (length bl) :: u32) = length bl" using f'(2) by (simp add: unat_of_nat take_bit_nat_eq_self)
  show e: "log_entries S d1 = bl"
    using f'(2) h by (simp add: log_entries_def d1 header_n u header_blocks)
  show "log_view S d1 m = B m" if m: "m \<notin> log_area S"
  proof (cases "m \<in> set bl")
    case True
    then obtain i where i: "i < length bl" "m = bl ! i" by (auto simp: in_set_conv_nth)
    have "log_view S d1 m = d1 (log_block S i)" using log_view_in [of S d1 i] f'(1) i by (simp add: e)
    also have "\<dots> = apply_writes (log_writes S bl B) d (log_block S i)" using log_block_S [of i S] i(1) f'(2) by (simp add: d1)
    also have "\<dots> = B m" unfolding log_writes_def i(2) using f'(2) i(1) by (intro writes_hit log_block_inj_on) auto
    finally show ?thesis .
  next
    case False
    have "\<forall>i<length bl. log_block S i \<noteq> m" using m f'(2) by (auto simp: log_area_def)
    then have "d1 m = d m" using fit_S [OF m] by (simp add: d1 log_writes_def writes_miss_all)
    then show ?thesis using False B by (simp add: log_view_out e)
  qed
qed

lemma log_writes_prefix:
  assumes "fit S bl" and "m \<notin> log_area S \<or> m = S"
  shows "apply_writes (take j (log_writes S bl B)) d m = d m"
  unfolding log_writes_def using assms fitD(2) [OF assms(1)] log_block_S
  by (intro writes_miss) (auto simp: log_area_def)

lemma installed_home:
  assumes "fit S bl"
  shows "apply_writes (map (\<lambda>i. (bl ! i, B (bl ! i))) [0..<length bl]) d m = (if m \<in> set bl then B m else d m)"
proof (cases "m \<in> set bl")
  case True
  then obtain i where i: "i < length bl" "m = bl ! i" by (auto simp: in_set_conv_nth)
  have "inj_on ((!) bl) {..<length bl}" using fitD(1) [OF assms] by (simp add: inj_on_def nth_eq_iff_index_eq)
  then have "apply_writes (map (\<lambda>i. (bl ! i, B (bl ! i))) [0..<length bl]) d m = B (bl ! i)"
    unfolding i(2) by (rule writes_hit [OF _ i(1)])
  then show ?thesis using True i by simp
next
  case False
  then have "apply_writes (map (\<lambda>i. (bl ! i, B (bl ! i))) [0..<length bl]) d m = d m"
    by (intro writes_miss_all) (metis nth_mem)
  then show ?thesis using False by simp
qed

lemma commit_prefix:
  assumes f: "fit S bl" and B: "\<forall>m. m \<notin> set bl \<longrightarrow> B m = d m" and len: "length (d S) = BSIZE" and h: "get32 (d S) 0 = 0"
    and d': "d' = apply_writes (take j (commit_writes S bl B)) d"
  shows "fit S (log_entries S d') \<and> (m \<notin> log_area S \<longrightarrow> log_view S d' m = (if j \<le> length bl then d m else B m))"
proof -
  note f' = fitD [OF f]
  let ?n = "length bl" and ?L = "log_writes S bl B" and ?C = "map (\<lambda>i. (bl ! i, B (bl ! i))) [0..<length bl]"
  have BS: "B S = d S" using B f'(3) by simp
  have nL: "length ?L = ?n" by (simp add: log_writes_def)
  define d1 where "d1 = (apply_writes ?L d)(S := header (B S) bl)"
  have h': "length (B S) = BSIZE" using len BS by simp
  note v = committed_view [OF f h' B d1_def]
  have "j \<le> ?n \<or> j = ?n + 1 + (j - ?n - 1) \<and> j - ?n - 1 \<le> ?n \<or> 2 * ?n + 2 \<le> j" by arith
  then consider "j \<le> ?n" | k where "j = ?n + 1 + k" "k \<le> ?n" | "2 * ?n + 2 \<le> j" by blast
  then show ?thesis
  proof cases
    case 1
    then have e: "d' = apply_writes (take j ?L) d" using nL by (simp add: d' commit_writes_def)
    have "d' S = d S" unfolding e using log_writes_prefix [OF f] by blast
    then have "log_entries S d' = []" using h by (intro log_entries_clear) simp
    then show ?thesis using 1 log_view_clear [of S d' m] log_writes_prefix [OF f, of m] by (simp add: e)
  next
    case 2
    then have e: "d' = apply_writes (take k ?C) d1" using nL by (simp add: d' commit_writes_def d1_def)
    have out: "\<forall>m. m \<notin> set (log_entries S d1) \<longrightarrow> d' m = d1 m"
      unfolding e v(1) by (intro allI impI writes_miss) (metis nth_mem)
    have "d' S = d1 S" using out f'(3) v(1) by simp
    then have "log_entries S d' = bl" using v(1) by (simp add: log_entries_def)
    then show ?thesis using 2 log_view_cong [OF _ out, of m] v f by simp
  next
    case 3
    then have e: "d' = (apply_writes ?C d1)(S := header (header (B S) bl) [])" using nL by (simp add: d' commit_writes_def d1_def)
    have "log_entries S d' = []" using f'(2) h' by (intro log_entries_clear) (simp add: e header_clear)
    moreover have "apply_writes ?C d1 m = B m" if "m \<notin> log_area S"
      using installed_home [OF f, of B d1 m] v(1) v(2) [OF that] log_view_out [of m S d1] by (cases "m \<in> set bl") simp_all
    ultimately show ?thesis using 3 log_view_clear [of S d' m] fit_S [of m S] by (auto simp: e)
  qed
qed

lemma log_inv_frame:
  assumes "log_inv D S bl H P s" and "cache_inv D H' P t" and "bio_frame s t" and "\<forall>p\<in>P. blockno (buf_at t p) = blockno (buf_at s p)"
    and "disk t = disk s"
  shows "log_inv D S bl H' P t"
  using assms frame_klog [OF assms(3)] by (simp add: log_inv_def)

lemma logged_update:
  assumes i: "log_inv D S bl {} P s" and n: "n \<notin> log_area S" and o: "1 \<le> outstanding (klog s)"
    and room: "length bl < LOGSIZE - 1" and d: "length d = BSIZE"
  shows "\<exists>b s1 s2 t P'. bread D n s = Done b s1 \<and> log_write b (upd_buf b (\<lambda>x. x\<lparr>bdata := d\<rparr>) s1) = Done () s2 \<and> brelse b s2 = Done () t
    \<and> log_inv D S (add_block n bl) {} P' t \<and> blk t = (blk s)(n := d) \<and> disk t = disk s \<and> disk_writes t = disk_writes s
    \<and> op_count t = op_count s"
proof -
  have "returns (bread D n s) (\<lambda>b t. cache_inv D (insert b {}) P t \<and> b \<notin> {} \<and> blockno (buf_at t b) = n
        \<and> bdata (buf_at t b) = blk s n \<and> (\<forall>p\<in>P. blockno (buf_at s p) = n \<longrightarrow> b = p)
        \<and> blk t = blk s \<and> bio_frame s t
        \<and> (\<forall>c\<in>{} \<union> P. blockno (buf_at t c) = blockno (buf_at s c) \<and> bdata (buf_at t c) = bdata (buf_at s c))
        \<and> disk t = disk s \<and> disk_writes t = disk_writes s)"
    using log_inv_card(2) [OF i] by (intro bread_contract [OF log_invD(1) [OF i]]) simp_all
  then obtain b s1 where 1: "bread D n s = Done b s1" "cache_inv D {b} P s1" "blockno (buf_at s1 b) = n" "blk s1 = blk s" "bio_frame s s1"
    "\<forall>p\<in>P. blockno (buf_at s1 p) = blockno (buf_at s p)" "disk s1 = disk s" "disk_writes s1 = disk_writes s"
    by (elim returnsE) auto
  let ?u = "upd_buf b (\<lambda>x. x\<lparr>bdata := d\<rparr>) s1"
  have i1: "log_inv D S bl {b} P s1" using 1(5-7) by (intro log_inv_frame [OF i 1(2)])
  have u: "cache_inv D {b} P ?u" "blk ?u = (blk s)(n := d)" "bio_frame s1 ?u" "\<forall>p\<in>{b} \<union> P. blockno (buf_at ?u p) = blockno (buf_at s1 p)"
    "disk ?u = disk s1" "disk_writes ?u = disk_writes s1"
    using bc.put_law [OF 1(2), of b d] d 1(3,4) by auto
  have iu: "log_inv D S bl {b} P ?u" using u by (intro log_inv_frame [OF i1 u(1)]) simp_all
  have ou: "op_count ?u = op_count s" using frame_klog [OF 1(5)] frame_klog [OF u(3)] by simp
  have nb: "blockno (buf_at ?u b) = n" using u(4) 1(3) by simp
  have "returns (log_write b ?u) (\<lambda>_ t. log_inv D S (add_block n bl) {b} (insert b P) t \<and> blk t = blk ?u \<and> disk t = disk ?u
    \<and> disk_writes t = disk_writes ?u \<and> op_count t = op_count ?u
    \<and> (\<forall>c. blockno (buf_at t c) = blockno (buf_at ?u c) \<and> bdata (buf_at t c) = bdata (buf_at ?u c)))"
    using o ou by (intro log_write_rule [OF iu _ nb n _ room]) simp_all
  then obtain s2 where 2: "log_write b ?u = Done () s2" "log_inv D S (add_block n bl) {b} (insert b P) s2" "blk s2 = (blk s)(n := d)"
    "disk s2 = disk s" "disk_writes s2 = disk_writes s" "op_count s2 = op_count s"
    using u 1(7,8) ou by (elim returnsE) simp
  obtain t where t: "brelse b s2 = Done () t" "cache_inv D ({b} - {b}) (insert b P) t" "bc.unchanged UNIV s2 t"
    using bc.rel_unchanged [OF log_invD(1) [OF 2(2)], of b] by blast
  have "log_inv D S (add_block n bl) {} (insert b P) t"
    using t(2,3) by (intro log_inv_frame [OF 2(2)]) (simp_all add: bc.unchanged_def)
  moreover have "blk t = blk s2" "disk t = disk s2" "disk_writes t = disk_writes s2" "klog t = klog s2"
    using t(3) unchanged_klog [OF t(3)] by (simp_all add: bc.unchanged_def)
  ultimately show ?thesis using 1(1) 2(1,3-6) t(1) by metis
qed

lemma commit_inv:
  assumes i: "log_inv D S bl {} P s" and ne: "bl \<noteq> []"
  shows "\<exists>t. commit s = Done () t \<and> log_inv D S [] {} {} t \<and> disk t = apply_writes (commit_writes S bl (blk s)) (disk s)
    \<and> disk_writes t = disk_writes s @ commit_writes S bl (blk s) \<and> klog t = (klog s)\<lparr>lh_n := 0\<rparr>"
proof -
  obtain t where t: "commit s = Done () t" "cache_inv D {} {} t" "klog t = (klog s)\<lparr>lh_n := 0\<rparr>"
    "disk t = apply_writes (commit_writes S bl (blk s)) (disk s)" "disk_writes t = disk_writes s @ commit_writes S bl (blk s)"
    using commit_run [OF i ne] by blast
  have "disk t S = header (header (blk s S) bl) []" by (simp add: t(4) commit_writes_def)
  then have "get32 (disk t S) 0 = 0"
    using length_blk [OF log_invD(1) [OF i]] fitD(2) [OF log_invD(9) [OF i]] by (simp add: header_clear)
  then have "log_inv D S [] {} {} t" using t(2,3) log_invD(2-7) [OF i] by (simp add: log_inv_def)
  then show ?thesis using t by blast
qed

lemma initlog_eq:
  assumes "cache_inv D {} {} r"
  shows "initlog D sbk r = recover_from_log (upd_log (\<lambda>l. l\<lparr>lstart := sb_logstart sbk, lsize := sb_nlog sbk, ldev := D\<rparr>) r)"
proof -
  have "held r = {}" using cache_invD(1) [OF assms] by (simp add: calm_def)
  then show ?thesis by (simp add: initlog_def held_same)
qed

lemma initlog_run:
  assumes c: "cache_inv D {} {} r" and l: "length (lh_block (klog r)) = LOGSIZE" and f: "fit S (log_entries S (disk r))"
    and sbk: "sb_logstart sbk = S" "sb_nlog sbk = of_nat LOGSIZE"
  shows "\<exists>u. initlog D sbk r = Done () u \<and> log_inv D S [] {} {} u \<and> disk_writes u = disk_writes r @ recovery_writes S (disk r)
    \<and> (\<forall>m. m \<notin> log_area S \<longrightarrow> disk u m = log_view S (disk r) m)"
proof -
  let ?r = "upd_log (\<lambda>l. l\<lparr>lstart := sb_logstart sbk, lsize := sb_nlog sbk, ldev := D\<rparr>) r"
  obtain u where u: "initlog D sbk r = Done () u" "log_inv D S [] {} {} u" "disk u = apply_writes (recovery_writes S (disk r)) (disk r)"
    "disk_writes u = disk_writes r @ recovery_writes S (disk r)"
    using recover_run [of D ?r S] initlog_eq [OF c, of sbk] c l f sbk by auto
  have "length (disk r S) = BSIZE" using c by (simp add: cache_inv_def)
  moreover have "disk u = apply_writes (take (length (recovery_writes S (disk r))) (recovery_writes S (disk r))) (disk r)" using u(3) by simp
  ultimately have "log_view S (disk u) m = log_view S (disk r) m" if "m \<notin> log_area S" for m
    using recovery_prefix(2) [OF f] that by blast
  moreover have "log_view S (disk u) m = disk u m" for m
    using log_invD(10) [OF u(2)] by (intro log_view_clear log_entries_clear)
  ultimately show ?thesis using u by auto
qed

section \<open>Properties\<close>

text \<open>C5: a system call changes a block under the log with \<open>bread\<close>, a change of the data, \<open>log_write\<close> and \<open>brelse\<close>:
  while a transaction is open and the log has room, the kernel sees the new contents, nothing is
  written to the disk, and the block is listed in the header once, however often it is written.\<close>

theorem log_write_absorbs:
  assumes "log_inv D S bl {} P s" and "n \<notin> log_area S" and "1 \<le> outstanding (klog s)"
    and "length bl < LOGSIZE - 1" and "length d = BSIZE"
  shows "returns (andthen (bread D n s) (\<lambda>b s. andthen (log_write b (upd_buf b (\<lambda>x. x\<lparr>bdata := d\<rparr>) s)) (\<lambda>_ s. brelse b s)))
    (\<lambda>_ t. (\<exists>P'. log_inv D S (if n \<in> set bl then bl else bl @ [n]) {} P' t) \<and> blk t = (blk s)(n := d) \<and> disk t = disk s
       \<and> disk_writes t = disk_writes s \<and> outstanding (klog t) = outstanding (klog s))"
  using logged_update [OF assms] by (auto simp: add_block_def)

text \<open>C1: a commit is atomic under crashes. \<open>commit\<close> returns with an empty log after the writes \<open>commit_writes\<close>; if
  the machine stops after any number \<open>j\<close> of them and the kernel then starts with that disk, \<open>initlog\<close>
  returns and every block outside the log has its old contents if the header had not been
  written, and the contents of the transaction if it had.\<close>

theorem commit_crash_safe:
  fixes s r :: "'a log_state_scheme"
  assumes "log_inv D S bl {} P s" and "bl \<noteq> []"
    and "cache_inv D {} {} r" and "length (lh_block (klog r)) = LOGSIZE"
    and "disk r = apply_writes (take j (commit_writes S bl (blk s))) (disk s)"
    and "sb_logstart sbk = S" and "sb_nlog sbk = of_nat LOGSIZE"
  shows "returns (commit s) (\<lambda>_ t. log_inv D S [] {} {} t \<and> disk_writes t = disk_writes s @ commit_writes S bl (blk s))
    \<and> returns (initlog D sbk r) (\<lambda>_ u. log_inv D S [] {} {} u
        \<and> (\<forall>m. m \<notin> log_area S \<longrightarrow> disk u m = (if j \<le> length bl then disk s m else blk s m)))"
proof
  show "returns (commit s) (\<lambda>_ t. log_inv D S [] {} {} t \<and> disk_writes t = disk_writes s @ commit_writes S bl (blk s))"
    using commit_inv [OF assms(1,2)] by auto
  note l = log_invD [OF assms(1)]
  have "length (disk s S) = BSIZE" using l(1) by (simp add: cache_inv_def)
  then have p: "fit S (log_entries S (disk r)) \<and> (m \<notin> log_area S \<longrightarrow> log_view S (disk r) m = (if j \<le> length bl then disk s m else blk s m))" for m
    using log_inv_blk [OF assms(1)] l(10) by (intro commit_prefix [OF l(9) _ _ _ assms(5)]) blast+
  have "fit S (log_entries S (disk r))" using p by blast
  then show "returns (initlog D sbk r) (\<lambda>_ u. log_inv D S [] {} {} u
        \<and> (\<forall>m. m \<notin> log_area S \<longrightarrow> disk u m = (if j \<le> length bl then disk s m else blk s m)))"
    using initlog_run [OF assms(3,4) _ assms(6,7)] p by auto
qed

text \<open>C2: recovery may itself be cut short. \<open>initlog\<close> gives every block outside the log the contents that the disk means
  under its header, and after any number of its writes the disk still means the same, with a header
  from which recovery can start over.\<close>

theorem recovery_restartable:
  assumes "cache_inv D {} {} r" and "length (lh_block (klog r)) = LOGSIZE" and "fit S (log_entries S (disk r))"
    and "sb_logstart sbk = S" and "sb_nlog sbk = of_nat LOGSIZE"
  shows "returns (initlog D sbk r) (\<lambda>_ u. log_inv D S [] {} {} u \<and> (\<exists>V. disk_writes u = disk_writes r @ V
    \<and> (\<forall>m. m \<notin> log_area S \<longrightarrow> disk u m = log_view S (disk r) m
         \<and> (\<forall>j. fit S (log_entries S (apply_writes (take j V) (disk r))) \<and> log_view S (apply_writes (take j V) (disk r)) m = log_view S (disk r) m))))"
proof -
  have "length (disk r S) = BSIZE" using assms(1) by (simp add: cache_inv_def)
  then show ?thesis
    using initlog_run [OF assms] recovery_prefix [OF assms(3) _ refl] by (elim exE conjE) auto
qed



lemma awaken_pid [simp]: "pid (awaken c q) = pid q"
  by (simp add: awaken_def)

lemma cache_inv_awaken:
  assumes "cache_inv D H P s"
  shows "cache_inv D H P (s\<lparr>procs := map (awaken c) (procs s)\<rparr>)"
proof -
  obtain p where "cur s = Some p" "p < length (procs s)" using cache_invD(1) [OF assms] by (auto simp: calm_def)
  then have "mypid (s\<lparr>procs := map (awaken c) (procs s)\<rparr>) = mypid s" by (simp add: mypid_def)
  then show ?thesis using assms by (simp add: cache_inv_def calm_def buf_ok_def cached_once_def)
qed

lemma log_inv_awaken:
  assumes "log_inv D S bl H P s"
  shows "log_inv D S bl H P (s\<lparr>procs := map (awaken c) (procs s)\<rparr>)"
  using assms cache_inv_awaken [of D H P s c] by (simp add: log_inv_def)

lemma log_inv_log:
  assumes "log_inv D S bl H P s" and "\<And>l. lh_n (f l) = lh_n l \<and> lh_block (f l) = lh_block l \<and> ldev (f l) = ldev l \<and> lstart (f l) = lstart l
    \<and> lsize (f l) = lsize l"
  shows "log_inv D S bl H P (upd_log f s)"
  using assms by (simp add: log_inv_def)

lemma committed_disk:
  assumes i: "log_inv D S bl {} P s" and d: "d = apply_writes (commit_writes S bl (blk s)) (disk s)" and m: "m \<notin> log_area S"
  shows "d m = blk s m"
proof -
  note l = log_invD [OF i]
  note f = fitD [OF l(9)]
  let ?C = "map (\<lambda>i. (bl ! i, blk s (bl ! i))) [0..<length bl]"
  have "d m = apply_writes ?C ((apply_writes (log_writes S bl (blk s)) (disk s))(S := header (blk s S) bl)) m"
    using fit_S [OF m] by (simp add: d commit_writes_def)
  also have "\<dots> = (if m \<in> set bl then blk s m else disk s m)"
    using log_writes_prefix [OF l(9), of m "length bl" "blk s" "disk s"] m fit_S [OF m]
    by (simp add: installed_home [OF l(9)] log_writes_def)
  finally show ?thesis using log_inv_blk [OF i] by simp
qed

lemma end_op_open:
  assumes "calm s" and "outstanding (klog s) \<noteq> 1" and "\<not> committing (klog s)"
  shows "end_op s = Done () ((upd_log (\<lambda>l. l\<lparr>outstanding := outstanding l - 1\<rparr>) s)\<lparr>procs := map (awaken Ch_log) (procs s)\<rparr>)"
  using assms by (simp add: calm_def end_op_def Let_def upd_log_def wakeup_Done)

lemma end_op_last:
  assumes "calm s" and "outstanding (klog s) = 1" and "\<not> committing (klog s)"
    and "commit (upd_log (\<lambda>l. l\<lparr>outstanding := 0, committing := True\<rparr>) s) = Done () t" and "calm t"
  shows "end_op s = Done () ((upd_log (\<lambda>l. l\<lparr>committing := False\<rparr>) t)\<lparr>procs := map (awaken Ch_log) (procs t)\<rparr>)"
proof -
  let ?u = "s\<lparr>klog := (klog s)\<lparr>outstanding := 0, committing := True\<rparr>\<rparr>"
  have "?u\<lparr>held := {}\<rparr> = ?u" using assms(1) by (intro held_same) (simp add: calm_def)
  then have "commit (?u\<lparr>held := {}\<rparr>) = Done () t" using assms(4) by (simp only: upd_log_def)
  then show ?thesis
    using assms by (simp add: calm_def end_op_def Let_def upd_log_def wakeup_Done)
qed

text \<open>C4: \<open>end_op\<close>. The last open system call commits: afterwards the disk has, outside the log, what the kernel saw, no
  transaction is open and the log is empty. While others are open, nothing is written.\<close>

theorem end_op_commits:
  assumes "log_inv D S bl {} P s" and "bl \<noteq> []" and "1 \<le> outstanding (klog s)" and "\<not> committing (klog s)"
  shows "returns (end_op s) (\<lambda>_ t. outstanding (klog t) = outstanding (klog s) - 1 \<and> \<not> committing (klog t) \<and>
    (if outstanding (klog s) = 1
     then log_inv D S [] {} {} t \<and> (\<forall>m. m \<notin> log_area S \<longrightarrow> disk t m = blk s m)
     else log_inv D S bl {} P t \<and> disk t = disk s \<and> disk_writes t = disk_writes s))"
proof -
  have c: "calm s" using cache_invD(1) [OF log_invD(1) [OF assms(1)]] .
  show ?thesis
  proof (cases "outstanding (klog s) = 1")
    case True
    let ?s = "upd_log (\<lambda>l. l\<lparr>outstanding := 0, committing := True\<rparr>) s"
    have i: "log_inv D S bl {} P ?s" using assms(1) by (rule log_inv_log) simp
    from commit_inv [OF i assms(2)] obtain t where t: "commit ?s = Done () t" "log_inv D S [] {} {} t"
      "disk t = apply_writes (commit_writes S bl (blk s)) (disk s)" "klog t = (klog ?s)\<lparr>lh_n := 0\<rparr>" by auto
    have "calm t" using cache_invD(1) [OF log_invD(1) [OF t(2)]] .
    note e = end_op_last [OF c True assms(4) t(1) this]
    have "log_inv D S [] {} {} (upd_log (\<lambda>l. l\<lparr>committing := False\<rparr>) t)" using t(2) by (rule log_inv_log) simp
    from log_inv_awaken [OF this, of Ch_log]
    have i': "log_inv D S [] {} {} ((upd_log (\<lambda>l. l\<lparr>committing := False\<rparr>) t)\<lparr>procs := map (awaken Ch_log) (procs t)\<rparr>)"
      by (simp add: upd_log_def)
    have "disk t m = blk s m" if "m \<notin> log_area S" for m
      using committed_disk [OF assms(1) t(3) that] t(2) by simp
    then show ?thesis using e i' True t(4) by (simp add: upd_log_def)
  next
    case False
    have "log_inv D S bl {} P (upd_log (\<lambda>l. l\<lparr>outstanding := outstanding l - 1\<rparr>) s)" using assms(1) by (rule log_inv_log) simp
    from log_inv_awaken [OF this, of Ch_log] show ?thesis
      using end_op_open [OF c False assms(4)] False assms(4) by (simp add: upd_log_def)
  qed
qed

section \<open>A concrete log\<close>

definition example_vdisk :: vdisk where
  "example_vdisk = \<lparr>desc = [], avail_idx = 0, avail_ring = [], uring_idx = 0, uring_id = [], dfree = [], used_idx = 0,
     info_b = [], info_status = [], ops = []\<rparr>"

definition example_log0 :: "(u32 \<Rightarrow> u8 list) \<Rightarrow> log_state" where
  "example_log0 d = (vdisk_state.extend (bio_state.extend example_bio0 (vdisk_state.fields example_vdisk (\<lambda>_. 0) []))
     (log_state.fields \<lparr>lstart = 2, lsize = 30, outstanding = 1, committing = False, ldev = 1, lh_n = 0, lh_block = replicate 30 0\<rparr>))
     \<lparr>disk := d\<rparr>"

text \<open>A kernel that has just started, on a disk \<open>d\<close>.\<close>

definition example_log :: "(u32 \<Rightarrow> u8 list) \<Rightarrow> log_state" where
  "example_log d = binit (example_log0 d)"

lemma example_log0_simps [simp]:
  "held (example_log0 d) = {}" "cur (example_log0 d) = Some 1" "procs (example_log0 d) = procs example_procs"
  "bufs (example_log0 d) = replicate 31 zero_buf" "disk (example_log0 d) = d"
  "klog (example_log0 d) = \<lparr>lstart = 2, lsize = 30, outstanding = 1, committing = False, ldev = 1, lh_n = 0, lh_block = replicate 30 0\<rparr>"
  by (simp_all add: example_log0_def example_bio0_def sl_ext_defs bio_state.defs vdisk_state.defs log_state.defs)

lemma binit_loop_klog: "klog (binit_loop b k s) = klog s"
  by (induction k arbitrary: b s) (simp_all add: link_front_eq initsleeplock_def)

lemma example_log_simps:
  "klog (example_log d) = \<lparr>lstart = 2, lsize = 30, outstanding = 1, committing = False, ldev = 1, lh_n = 0, lh_block = replicate 30 0\<rparr>"
  "disk (example_log d) = d"
  using binit_fields(3) [of 0 "example_log0 d"]
  by (simp_all add: example_log_def binit_def binit_loop_klog NBUF_def upd_buf_def Let_def)

lemma example_log_cache: "\<forall>n. length (d n) = BSIZE \<Longrightarrow> cache_inv 1 {} {} (example_log d)"
  unfolding example_log_def by (rule binit_cache_inv) (simp_all add: calm_def NBUF_def)

definition zero_disk :: "u32 \<Rightarrow> u8 list" where
  "zero_disk n = replicate 1024 0"

lemma get32_zeros: "get32 (replicate 1024 0) 0 = 0"
  by (simp add: get32_def bslice_def le_word_zeros)

lemma example_log_inv: "log_inv 1 2 [] {} {} (example_log zero_disk)"
  using example_log_cache [of zero_disk]
  by (simp add: log_inv_def example_log_simps) (simp add: zero_disk_def get32_zeros)

lemma block_100: "(100 :: u32) \<notin> log_area 2"
  by code_simp

text \<open>The state after a system call has changed block 100.\<close>

definition example_txn :: log_state where
  "example_txn = (case andthen (bread 1 100 (example_log zero_disk)) (\<lambda>b s. andthen (log_write b (upd_buf b (\<lambda>x. x\<lparr>bdata := replicate 1024 9\<rparr>) s))
     (\<lambda>_ s. brelse b s)) of Done _ t \<Rightarrow> t | _ \<Rightarrow> example_log zero_disk)"

lemma example_txn:
  "\<exists>P. log_inv 1 2 [100] {} P example_txn" "blk example_txn 100 = replicate 1024 9" "disk example_txn = zero_disk"
  "outstanding (klog example_txn) = 1" "\<not> committing (klog example_txn)"
  using logged_update [OF example_log_inv block_100, of "replicate 1024 9"]
  by (auto simp: example_txn_def example_log_simps add_block_def)

theorem log_write_absorbs_witness:
  "returns (andthen (bread 1 100 (example_log zero_disk)) (\<lambda>b s. andthen (log_write b (upd_buf b (\<lambda>x. x\<lparr>bdata := replicate 1024 9\<rparr>) s))
     (\<lambda>_ s. brelse b s))) (\<lambda>_ t. blk t 100 = replicate 1024 9 \<and> disk t 100 = replicate 1024 0)"
  using log_write_absorbs [OF example_log_inv block_100, of "replicate 1024 9"]
  by (auto simp: example_log_simps zero_disk_def elim!: returns_mono)

lemma apply_writes_length:
  "\<forall>n. length (d n) = BSIZE \<Longrightarrow> \<forall>(n, x)\<in>set ws. length x = BSIZE \<Longrightarrow> length (apply_writes ws d m) = BSIZE"
  by (induction ws arbitrary: d) auto

lemma commit_writes_length:
  assumes "\<forall>n. length (B n) = BSIZE" and "length bl \<le> LOGSIZE"
  shows "\<forall>(n, x)\<in>set (take j (commit_writes S bl B)). length x = BSIZE"
  using assms by (auto simp: commit_writes_def log_writes_def dest!: in_set_takeD)

definition example_sb :: superblock where
  "example_sb = \<lparr>sb_magic = 0x10203040, sb_size = 2000, sb_nblocks = 1954, sb_ninodes = 200, sb_nlog = 30, sb_logstart = 2,
     sb_inodestart = 32, sb_bmapstart = 45\<rparr>"

text \<open>The disk after \<open>j\<close> of the writes of the commit.\<close>

definition crashed :: "nat \<Rightarrow> u32 \<Rightarrow> u8 list" where
  "crashed j = apply_writes (take j (commit_writes 2 [100] (blk example_txn))) zero_disk"

lemma crashed_cache: "cache_inv 1 {} {} (example_log (crashed j))"
proof -
  obtain P where i: "log_inv 1 2 [100] {} P example_txn" using example_txn(1) by blast
  have "length (crashed j m) = BSIZE" for m
    unfolding crashed_def using length_blk [OF log_invD(1) [OF i]]
    by (intro apply_writes_length commit_writes_length) (simp_all add: zero_disk_def)
  then show ?thesis by (intro example_log_cache) simp
qed

theorem commit_crash_safe_witness:
  "returns (initlog 1 example_sb (example_log (crashed 1))) (\<lambda>_ u. disk u 100 = replicate 1024 0)
   \<and> returns (initlog 1 example_sb (example_log (crashed 2))) (\<lambda>_ u. disk u 100 = replicate 1024 9)"
proof -
  obtain P where i: "log_inv 1 2 [100] {} P example_txn" using example_txn(1) by blast
  have d: "disk (example_log (crashed j)) = apply_writes (take j (commit_writes 2 [100] (blk example_txn))) (disk example_txn)" for j
    by (simp add: example_log_simps crashed_def example_txn(3))
  have l: "length (lh_block (klog (example_log (crashed j)))) = LOGSIZE" for j by (simp add: example_log_simps)
  have "sb_logstart example_sb = 2" "sb_nlog example_sb = of_nat LOGSIZE" by (simp_all add: example_sb_def)
  note c = commit_crash_safe [OF i _ crashed_cache l d this]
  show ?thesis
    using c [of 1] c [of 2] block_100 by (auto simp: example_txn(2,3) zero_disk_def elim!: returns_mono)
qed

theorem recovery_restartable_witness:
  "returns (initlog 1 example_sb (example_log zero_disk)) (\<lambda>_ u. log_inv 1 2 [] {} {} u \<and> disk u 100 = replicate 1024 0)"
proof -
  have e: "log_entries 2 zero_disk = []" by (rule log_entries_clear) (simp add: zero_disk_def get32_zeros)
  have "returns (initlog 1 example_sb (example_log zero_disk)) (\<lambda>_ u. log_inv 1 2 [] {} {} u \<and> disk u 100 = log_view 2 zero_disk 100)"
    using recovery_restartable [OF log_invD(1) [OF example_log_inv], of 2 example_sb] block_100
    by (auto simp: example_log_simps e example_sb_def elim!: returns_mono)
  then show ?thesis by (simp add: log_view_clear [OF e] zero_disk_def)
qed



theorem end_op_commits_witness: "returns (end_op example_txn) (\<lambda>_ t. outstanding (klog t) = 0 \<and> disk t 100 = replicate 1024 9)"
proof -
  obtain P where i: "log_inv 1 2 [100] {} P example_txn" using example_txn(1) by blast
  show ?thesis
    using end_op_commits [OF i] example_txn(2,4,5) block_100 by (auto elim!: returns_mono)
qed

end
