(* ===== verification/Pipe_Queue.thy ===== *)
theory Pipe_Queue
  imports Ring File_Layer Vm_Space Log_Crash
begin

text \<open>
  Pipes (\<open>kernel/pipe.c\<close>) as bounded queues between the memories of processes.
\<close>

section \<open>A pipe as a queue\<close>

definition pipe_ok :: "pipe \<Rightarrow> bool" where
  "pipe_ok p \<longleftrightarrow> length (pdata p) = PIPESIZE \<and> unat (nwrite p - nread p) \<le> PIPESIZE"

definition pipe_queue :: "pipe \<Rightarrow> u8 list" where
  "pipe_queue p = ring PIPESIZE (pdata p) (nread p) (nwrite p)"

abbreviation pipe_put :: "u8 \<Rightarrow> pipe \<Rightarrow> pipe" where
  "pipe_put c p \<equiv> p\<lparr>pdata := (pdata p)[unat (nwrite p) mod PIPESIZE := c], nwrite := nwrite p + 1\<rparr>"

interpretation pipe_fifo: byte_fifo pipe_ok pipe_queue PIPESIZE pipe_put
  "\<lambda>p. pdata p ! (unat (nread p) mod PIPESIZE)" "\<lambda>p. p\<lparr>nread := nread p + 1\<rparr>"
proof (unfold_locales, goal_cases)
  case (1 p c)
  then show ?case
    using ring_put [of 512 "pdata p" "nwrite p" "nread p" c] unat_Suc_diff [of "nwrite p" "nread p" 512]
    by (simp add: pipe_ok_def pipe_queue_def)
next
  case (2 p)
  then have "ring 512 (pdata p) (nread p) (nwrite p) = pdata p ! (unat (nread p) mod 512) # ring 512 (pdata p) (nread p + 1) (nwrite p)"
    by (intro ring_get) (auto simp: pipe_queue_def)
  then show ?case using 2(1) length_ring [of 512 "pdata p" "nread p" "nwrite p"] by (auto simp: pipe_ok_def pipe_queue_def)
qed

lemma pipe_full_iff: "length (pipe_queue p) = PIPESIZE \<longleftrightarrow> nwrite p = nread p + of_nat PIPESIZE"
proof
  assume "length (pipe_queue p) = PIPESIZE"
  moreover have "nwrite p - nread p = of_nat (unat (nwrite p - nread p))" by simp
  ultimately have "nwrite p - nread p = of_nat 512" by (simp only: pipe_queue_def length_ring PIPESIZE_def)
  then show "nwrite p = nread p + of_nat PIPESIZE" by (simp add: algebra_simps)
qed (simp add: pipe_queue_def)

lemma pipe_empty_iff: "pipe_queue p = [] \<longleftrightarrow> nread p = nwrite p"
  by (auto simp: pipe_queue_def ring_Nil_iff)

lemma pipe_upd_fields [simp]:
  "procs (upd_pipe pi f s) = procs s" "mem (upd_pipe pi f s) = mem s" "held (upd_pipe pi f s) = held s" "cur (upd_pipe pi f s) = cur s"
  "pipes (upd_pipe pi f s) pi = f (pipes s pi)" "space_ok (upd_pipe pi f s) pt fl = space_ok s pt fl"
  by (simp_all add: upd_pipe_def space_ok_def pt_ok_def free_pages_def page_ok_def)

lemma umapped_sub:
  assumes "umapped m pt va n" and "i < n"
  shows "unat (va + of_nat i) = unat va + i" "umapped m pt (va + of_nat i) 1"
proof -
  have len: "unat va + n \<le> 274877906944" using assms(1) by (simp add: umapped_def)
  then show u: "unat (va + of_nat i) = unat va + i" using assms(2) by (simp add: unat_word_ariths unat_of_nat64)
  show "umapped m pt (va + of_nat i) 1" using assms len unfolding umapped_def u by auto
qed

text \<open>The writing loop with room for all of its bytes.\<close>

lemma pipewrite_loop_run:
  fixes s :: "'a file_state_scheme"
  assumes "space_ok s (pagetable (proc_at s pr)) fl" and "umapped (mem s) (pagetable (proc_at s pr)) va (i + k)"
    and "map Some bs = map (\<lambda>j. ubyte (mem s) (pagetable (proc_at s pr)) (va + of_nat j)) [i..<i + k]"
    and "pipe_ok (pipes s pi)" and "length (pipe_queue (pipes s pi)) + k \<le> PIPESIZE"
    and "readopen (pipes s pi)" and "\<not> killed (proc_at s pr)" and "length (procs s) = NPROC" and "held s = {L_pipe pi}"
  shows "pipewrite_loop pr pi va i k s = Done (int (i + k))
    ((upd_pipe pi (fold pipe_put bs) s)\<lparr>held := {}, procs := map (awaken (Ch_pipe_read pi)) (procs s)\<rparr>)"
  using assms
proof (induction k arbitrary: i s bs)
  case 0
  then show ?case by (simp add: wakeup_Done upd_pipe_def)
next
  case (Suc k)
  let ?pt = "pagetable (proc_at s pr)"
  obtain b bs' where bs: "bs = b # bs'" "Some b = ubyte (mem s) ?pt (va + of_nat i)"
    "map Some bs' = map (\<lambda>j. ubyte (mem s) ?pt (va + of_nat j)) [Suc i..<Suc i + k]"
    using Suc.prems(3) by (cases bs) (auto simp: upt_conv_Cons simp del: upt_Suc)
  have nf: "nwrite (pipes s pi) \<noteq> nread (pipes s pi) + 512" using pipe_full_iff [of "pipes s pi"] Suc.prems(5) by auto
  have "umapped (mem s) ?pt (va + of_nat i) 1" using umapped_sub(2) [OF Suc.prems(2)] by simp
  then have ci: "copyin ?pt [] (va + of_nat i) 1 s = Done (0, [b]) s"
    using copyin_reads [OF Suc.prems(1), of "va + of_nat i" 1 "[]"] bs(2) by auto (metis option.inject)
  let ?u = "upd_pipe pi (pipe_put b) s"
  have p: "pipe_ok (pipes ?u pi)" "length (pipe_queue (pipes ?u pi)) = Suc (length (pipe_queue (pipes s pi)))"
    using pipe_fifo.put_law [OF Suc.prems(4), of b] Suc.prems(5) by simp_all
  have "pipewrite_loop pr pi va (Suc i) k ?u = Done (int (Suc i + k))
    ((upd_pipe pi (fold pipe_put bs') ?u)\<lparr>held := {}, procs := map (awaken (Ch_pipe_read pi)) (procs ?u)\<rparr>)"
    using Suc.prems p bs(3) by (intro Suc.IH) simp_all
  moreover have "upd_pipe pi (fold pipe_put bs') ?u = upd_pipe pi (fold pipe_put bs) s" by (simp add: upd_pipe_def bs(1))
  ultimately show ?case using Suc.prems(6,7) nf ci by simp
qed

text \<open>The reading loop: it delivers a prefix of the queue.\<close>

definition delivered :: "mem \<Rightarrow> u64 \<Rightarrow> u64 \<Rightarrow> u8 list \<Rightarrow> mem \<Rightarrow> bool" where
  "delivered m pt va bs m' \<longleftrightarrow> (\<forall>a. ubyte m' pt a = (if unat va \<le> unat a \<and> unat a < unat va + length bs
     then Some (bs ! (unat a - unat va)) else ubyte m pt a))"

lemma delivered_umapped: "delivered m pt va bs m' \<Longrightarrow> umapped m pt va' n \<Longrightarrow> umapped m' pt va' n"
  by (auto simp: delivered_def umapped_def)

lemma delivered_Nil: "delivered m pt va [] m' \<longleftrightarrow> (\<forall>a. ubyte m' pt a = ubyte m pt a)"
  by (auto simp: delivered_def)

lemma delivered_step:
  assumes "delivered m pt a [b] m1" and "delivered m1 pt (a + 1) bs m2" and "unat (a + 1) = unat a + 1"
  shows "delivered m pt a (b # bs) m2"
  using assms by (auto simp: delivered_def nth_Cons')

lemma piperead_copy_run:
  fixes s :: "'a file_state_scheme"
  assumes "space_ok s pt fl" and "pagetable (proc_at s pr) = pt" and "umapped (mem s) pt va (i + k)"
    and "pipe_ok (pipes s pi)" and "pipe_queue (pipes s pi) = q"
  shows "\<exists>t. piperead_copy pr pi va i k s = Done (i + min k (length q)) t \<and> space_ok t pt fl
    \<and> (\<exists>m f p. t = (upd_pipe pi (\<lambda>_. p) s)\<lparr>mem := m, freelist := f\<rparr> \<and> pipe_ok p \<and> pipe_queue p = drop k q
         \<and> readopen p = readopen (pipes s pi) \<and> writeopen p = writeopen (pipes s pi)
         \<and> delivered (mem s) pt (va + of_nat i) (take k q) m)"
  using assms
proof (induction k arbitrary: i s q)
  case 0
  then show ?case by (auto simp: upd_pipe_def delivered_def intro!: exI [of _ "mem s"] exI [of _ "freelist s"] exI [of _ "pipes s pi"])
next
  case (Suc k)
  show ?case
  proof (cases q)
    case Nil
    then have "nread (pipes s pi) = nwrite (pipes s pi)" using pipe_empty_iff [of "pipes s pi"] Suc.prems(5) by simp
    then show ?thesis
      using Suc.prems Nil
      by (auto simp: upd_pipe_def delivered_def intro!: exI [of _ "mem s"] exI [of _ "freelist s"] exI [of _ "pipes s pi"])
  next
    case (Cons c cs)
    then have ne: "nread (pipes s pi) \<noteq> nwrite (pipes s pi)" using pipe_empty_iff [of "pipes s pi"] Suc.prems(5) by auto
    let ?u = "upd_pipe pi (\<lambda>p. p\<lparr>nread := nread p + 1\<rparr>) s"
    have c: "pdata (pipes s pi) ! (unat (nread (pipes s pi)) mod PIPESIZE) = c"
      using pipe_fifo.front_eq [OF Suc.prems(4)] Suc.prems(5) Cons by simp
    have pu: "pipe_ok (pipes ?u pi)" "pipe_queue (pipes ?u pi) = cs"
      using pipe_fifo.drop_front_eq [OF Suc.prems(4)] Suc.prems(5) Cons by simp_all
    note sub = umapped_sub [OF Suc.prems(3), of i]
    have "returns (copyout pt (va + of_nat i) [c] ?u) (\<lambda>r s'. r = 0 \<and> space_ok s' pt fl \<and> mem_only ?u s'
       \<and> (\<forall>a. uframe (mem s') pt a = uframe (mem ?u) pt a)
       \<and> (\<forall>a. ubyte (mem s') pt a = (if unat (va + of_nat i) \<le> unat a \<and> unat a < unat (va + of_nat i) + length [c]
         then Some ([c] ! (unat a - unat (va + of_nat i))) else ubyte (mem ?u) pt a)))"
      using Suc.prems(1) sub(2) by (intro copyout_writes) simp_all
    then obtain v where v: "copyout pt (va + of_nat i) [c] ?u = Done 0 v" "space_ok v pt fl" "mem_only ?u v"
      "delivered (mem s) pt (va + of_nat i) [c] (mem v)"
      by (elim returnsE) (auto simp: delivered_def)
    obtain m f where vm: "v = ?u\<lparr>mem := m, freelist := f\<rparr>" using v(3) by (auto simp: mem_only_def)
    have um: "umapped (mem v) pt va (Suc i + k)" using delivered_umapped [OF v(4) Suc.prems(3)] by simp
    have "\<exists>t. piperead_copy pr pi va (Suc i) k v = Done (Suc i + min k (length cs)) t \<and> space_ok t pt fl
      \<and> (\<exists>m f p. t = (upd_pipe pi (\<lambda>_. p) v)\<lparr>mem := m, freelist := f\<rparr> \<and> pipe_ok p \<and> pipe_queue p = drop k cs
         \<and> readopen p = readopen (pipes v pi) \<and> writeopen p = writeopen (pipes v pi)
         \<and> delivered (mem v) pt (va + of_nat (Suc i)) (take k cs) m)"
      using Suc.prems(2) pu by (intro Suc.IH [OF v(2) _ um]) (simp_all add: vm)
    then obtain t m' f' p where t: "piperead_copy pr pi va (Suc i) k v = Done (Suc i + min k (length cs)) t" "space_ok t pt fl"
      "t = (upd_pipe pi (\<lambda>_. p) v)\<lparr>mem := m', freelist := f'\<rparr>" "pipe_ok p" "pipe_queue p = drop k cs"
      "readopen p = readopen (pipes v pi)" "writeopen p = writeopen (pipes v pi)"
      "delivered (mem v) pt (va + of_nat (Suc i)) (take k cs) m'" by blast
    have tt: "t = (upd_pipe pi (\<lambda>_. p) s)\<lparr>mem := m', freelist := f'\<rparr>" using t(3) by (simp add: vm upd_pipe_def)
    have "piperead_copy pr pi va i (Suc k) s = Done (i + min (Suc k) (length q)) t"
      using ne c v(1) t(1) Cons Suc.prems(2) by (simp add: Let_def)
    moreover have "delivered (mem s) pt (va + of_nat i) (take (Suc k) q) m'"
    proof (cases k)
      case 0
      then have "\<forall>a. ubyte m' pt a = ubyte (mem v) pt a" using t(8) by (simp add: delivered_Nil)
      then show ?thesis using v(4) Cons 0 by (simp add: delivered_def)
    next
      case (Suc k')
      have "unat (va + of_nat i + 1) = unat (va + of_nat i) + 1"
        using umapped_sub(1) [OF Suc.prems(3), of "Suc i"] sub(1) Suc by (simp add: ac_simps)
      then show ?thesis using delivered_step [OF v(4), of "take k cs" m'] t(8) Cons by (simp add: ac_simps)
    qed
    ultimately show ?thesis using t(2,4-7) tt Cons by (auto simp: vm)
  qed
qed

lemma space_ok_held:
  assumes "L_kmem \<notin> h" and "space_ok s pt fl"
  shows "space_ok (s\<lparr>held := h\<rparr>) pt fl"
proof -
  have "L_kmem \<notin> held s" using assms(2) unfolding space_ok_def pt_ok_def free_pages_def by blast
  then have "space_ok (s\<lparr>held := h\<rparr>) pt fl = space_ok s pt fl"
    using assms(1) by (simp add: space_ok_def pt_ok_def free_pages_def page_ok_def)
  then show ?thesis using assms(2) by simp
qed

lemma map_the_Some: "\<forall>x\<in>set xs. f x \<noteq> None \<Longrightarrow> map Some (map (\<lambda>x. the (f x)) xs) = map f xs"
  by (induction xs) auto

text \<open>The writing loop on a pipe that fills up: the first bytes go in, the readers are woken and the writer sleeps.\<close>

lemma take_Cons_pos: "0 < m \<Longrightarrow> take m (b # bs) = b # take (m - 1) bs"
  by (cases m) simp_all

lemma pipewrite_loop_full:
  fixes s :: "'a file_state_scheme"
  assumes "space_ok s (pagetable (proc_at s pr)) fl" and "umapped (mem s) (pagetable (proc_at s pr)) va (i + k)"
    and "map Some bs = map (\<lambda>j. ubyte (mem s) (pagetable (proc_at s pr)) (va + of_nat j)) [i..<i + k]"
    and "pipe_ok (pipes s pi)" and "PIPESIZE < length (pipe_queue (pipes s pi)) + k"
    and "readopen (pipes s pi)" and "\<not> killed (proc_at s pr)" and "length (procs s) = NPROC" and "held s = {L_pipe pi}"
    and "cur s = Some pr" and "pr < NPROC"
  shows "pipewrite_loop pr pi va i k s = Switch
    (upd_proc pr (\<lambda>q. q\<lparr>pchan := Some (Ch_pipe_write pi), pstate := SLEEPING\<rparr>)
      ((upd_pipe pi (fold pipe_put (take (PIPESIZE - length (pipe_queue (pipes s pi))) bs)) s)
       \<lparr>procs := map (awaken (Ch_pipe_read pi)) (procs s), held := {L_proc pr}\<rparr>))"
  using assms
proof (induction k arbitrary: i s bs)
  case 0
  then show ?case by (simp add: pipe_ok_def pipe_queue_def)
next
  case (Suc k)
  let ?pt = "pagetable (proc_at s pr)"
  show ?case
  proof (cases "nwrite (pipes s pi) = nread (pipes s pi) + of_nat PIPESIZE")
    case True
    then have len: "length (pipe_queue (pipes s pi)) = PIPESIZE" using pipe_full_iff by blast
    let ?w = "s\<lparr>procs := map (awaken (Ch_pipe_read pi)) (procs s)\<rparr>"
    have "sleep (Ch_pipe_write pi) (L_pipe pi) ?w = Switch (upd_proc pr (\<lambda>q. q\<lparr>pchan := Some (Ch_pipe_write pi), pstate := SLEEPING\<rparr>) (?w\<lparr>held := {L_proc pr}\<rparr>))"
      using Suc.prems by (intro sleep_Switch) simp_all
    then show ?thesis using True len Suc.prems by (simp add: wakeup_Done upd_pipe_def)
  next
    case False
    obtain b bs' where bs: "bs = b # bs'" "Some b = ubyte (mem s) ?pt (va + of_nat i)"
      "map Some bs' = map (\<lambda>j. ubyte (mem s) ?pt (va + of_nat j)) [Suc i..<Suc i + k]"
      using Suc.prems(3) by (cases bs) (auto simp: upt_conv_Cons simp del: upt_Suc)
    have "umapped (mem s) ?pt (va + of_nat i) 1" using umapped_sub(2) [OF Suc.prems(2)] by simp
    then have ci: "copyin ?pt [] (va + of_nat i) 1 s = Done (0, [b]) s"
      using copyin_reads [OF Suc.prems(1), of "va + of_nat i" 1 "[]"] bs(2) by auto (metis option.inject)
    let ?u = "upd_pipe pi (pipe_put b) s"
    have lq: "length (pipe_queue (pipes s pi)) < PIPESIZE"
      using Suc.prems(4) pipe_full_iff [of "pipes s pi"] False by (simp add: pipe_ok_def pipe_queue_def order_less_le)
    have p: "pipe_ok (pipes ?u pi)" "length (pipe_queue (pipes ?u pi)) = Suc (length (pipe_queue (pipes s pi)))"
      using pipe_fifo.put_law [OF Suc.prems(4), of b] lq by simp_all
    have "pipewrite_loop pr pi va (Suc i) k ?u = Switch
      (upd_proc pr (\<lambda>q. q\<lparr>pchan := Some (Ch_pipe_write pi), pstate := SLEEPING\<rparr>)
        ((upd_pipe pi (fold pipe_put (take (PIPESIZE - length (pipe_queue (pipes ?u pi))) bs')) ?u)
         \<lparr>procs := map (awaken (Ch_pipe_read pi)) (procs ?u), held := {L_proc pr}\<rparr>))"
      using Suc.prems p bs(3) by (intro Suc.IH) simp_all
    moreover have "upd_pipe pi (fold pipe_put (take (PIPESIZE - length (pipe_queue (pipes ?u pi))) bs')) ?u
        = upd_pipe pi (fold pipe_put (take (PIPESIZE - length (pipe_queue (pipes s pi))) bs)) s"
      using lq unfolding p(2) by (simp add: upd_pipe_def bs(1) take_Cons_pos)
    ultimately show ?thesis using Suc.prems(6,7) False ci by simp
  qed
qed

text \<open>The bytes \<open>i\<close> to \<open>n\<close> of the user memory at \<open>va\<close>.\<close>

definition user_bytes :: "mem \<Rightarrow> u64 \<Rightarrow> u64 \<Rightarrow> nat \<Rightarrow> nat \<Rightarrow> u8 list" where
  "user_bytes m pt va i n = map (\<lambda>j. the (ubyte m pt (va + of_nat j))) [i..<n]"

lemma user_bytes_eq:
  assumes "umapped m pt va n"
  shows "map Some (user_bytes m pt va i n) = map (\<lambda>j. ubyte m pt (va + of_nat j)) [i..<n]" "length (user_bytes m pt va i n) = n - i"
    "take k (user_bytes m pt va 0 n) = user_bytes m pt va 0 (min k n)"
proof -
  have "\<forall>j\<in>set [i..<n]. ubyte m pt (va + of_nat j) \<noteq> None" using umapped_sub(2) [OF assms] by (auto simp: umapped_def)
  from map_the_Some [OF this] show "map Some (user_bytes m pt va i n) = map (\<lambda>j. ubyte m pt (va + of_nat j)) [i..<n]"
    by (simp add: user_bytes_def)
qed (simp_all add: user_bytes_def take_map min_def)

lemma pipewrite_fits:
  fixes s :: "'a file_state_scheme"
  assumes c: "calm s" "cur s = Some pr" and pt: "pt = pagetable (proc_at s pr)" and sp: "space_ok s pt fl"
    and p: "pipe_ok (pipes s pi)" and m: "umapped (mem s) pt va n"
    and "i \<le> n" "readopen (pipes s pi)" "\<not> killed (proc_at s pr)" "length (pipe_queue (pipes s pi)) + (n - i) \<le> PIPESIZE"
  shows "returns (pipewrite_loop pr pi va i (n - i) (s\<lparr>held := {L_pipe pi}\<rparr>)) (\<lambda>r t. r = int n \<and> pipe_ok (pipes t pi) \<and> mem t = mem s \<and> calm t
    \<and> pipe_queue (pipes t pi) = pipe_queue (pipes s pi) @ user_bytes (mem s) pt va i n)"
proof -
  let ?s = "s\<lparr>held := {L_pipe pi}\<rparr>" and ?bs = "user_bytes (mem s) pt va i n"
  have "space_ok ?s pt fl" using sp by (intro space_ok_held) simp_all
  then have "pipewrite_loop pr pi va i (n - i) ?s = Done (int (i + (n - i)))
      ((upd_pipe pi (fold pipe_put ?bs) ?s)\<lparr>held := {}, procs := map (awaken (Ch_pipe_read pi)) (procs ?s)\<rparr>)"
    using assms user_bytes_eq(1) [OF m, of i] by (intro pipewrite_loop_run [where fl = fl]) (simp_all add: calm_def)
  moreover have "pipe_ok (fold pipe_put ?bs (pipes s pi)) \<and> pipe_queue (fold pipe_put ?bs (pipes s pi)) = pipe_queue (pipes s pi) @ ?bs"
    using assms(10) user_bytes_eq(2) [OF m, of i] by (intro pipe_fifo.put_all [OF p]) simp
  ultimately show ?thesis using c \<open>i \<le> n\<close> by (simp add: calm_def)
qed

lemma pipes_upd_proc [simp]: "pipes (upd_proc p f s) = pipes s"
  by (simp add: upd_proc_def)

lemma space_ok_upd_proc: "space_ok (upd_proc p f s) pt fl = space_ok s pt fl"
  by (simp add: upd_proc_def space_ok_def pt_ok_def free_pages_def page_ok_def)

lemma pipewrite_continues:
  fixes s :: "'a file_state_scheme"
  assumes c: "calm s" "cur s = Some pr" and pt: "pt = pagetable (proc_at s pr)" and sp: "space_ok s pt fl"
    and p: "pipe_ok (pipes s pi)" and m: "umapped (mem s) pt va n"
    and r: "i \<le> n" "readopen (pipes s pi)" "\<not> killed (proc_at s pr)" "length (pipe_queue (pipes s pi)) + (n - i) \<le> PIPESIZE"
  shows "returns (pipewrite_resume pi va (int n) i (s\<lparr>held := {L_proc pr}\<rparr>)) (\<lambda>r t. r = int n \<and> pipe_ok (pipes t pi) \<and> mem t = mem s \<and> calm t
    \<and> pipe_queue (pipes t pi) = pipe_queue (pipes s pi) @ user_bytes (mem s) pt va i n)"
proof -
  let ?s = "upd_proc pr (\<lambda>q. q\<lparr>pchan := None\<rparr>) s"
  have l: "pr < length (procs s)" "held s = {}" using c by (simp_all add: calm_def)
  have ret: "sleep_return (L_pipe pi) (s\<lparr>held := {L_proc pr}\<rparr>) = Done () (?s\<lparr>held := {L_pipe pi}\<rparr>)"
    using c(2) by (simp add: sleep_return_def with_proc_def Let_def upd_proc_def)
  have f: "pipes ?s = pipes s" "pagetable (proc_at ?s pr) = pagetable (proc_at s pr)" "killed (proc_at ?s pr) = killed (proc_at s pr)" "calm ?s"
    using c l by (simp_all add: upd_proc_def calm_def)
  have sp': "space_ok ?s pt fl" using sp by (simp only: space_ok_upd_proc)
  have "returns (pipewrite_loop pr pi va i (n - i) (?s\<lparr>held := {L_pipe pi}\<rparr>)) (\<lambda>r t. r = int n \<and> pipe_ok (pipes t pi) \<and> mem t = mem ?s \<and> calm t
      \<and> pipe_queue (pipes t pi) = pipe_queue (pipes ?s pi) @ user_bytes (mem ?s) pt va i n)"
    by (rule pipewrite_fits [where fl = fl, OF f(4) _ _ sp']) (use c pt p m r l in simp_all)
  then have "returns (pipewrite_loop pr pi va i (n - i) (?s\<lparr>held := {L_pipe pi}\<rparr>)) (\<lambda>r t. r = int n \<and> pipe_ok (pipes t pi) \<and> mem t = mem s \<and> calm t
      \<and> pipe_queue (pipes t pi) = pipe_queue (pipes s pi) @ user_bytes (mem s) pt va i n)" by (simp only: f upd_proc_simps)
  moreover have "nat (int n) - i = n - i" by simp
  ultimately show ?thesis unfolding pipewrite_resume_def with_proc_def by (simp add: ret c(2))
qed

lemma pipewrite_fills:
  fixes s :: "'a file_state_scheme"
  assumes c: "calm s" "cur s = Some pr" and pt: "pt = pagetable (proc_at s pr)" and sp: "space_ok s pt fl"
    and p: "pipe_ok (pipes s pi)" and m: "umapped (mem s) pt va n"
    and r: "readopen (pipes s pi)" "\<not> killed (proc_at s pr)" "PIPESIZE < length (pipe_queue (pipes s pi)) + n"
  shows "\<exists>t. pipewrite_loop pr pi va 0 n (s\<lparr>held := {L_pipe pi}\<rparr>) = Switch t \<and> pipe_ok (pipes t pi) \<and> mem t = mem s
    \<and> pipe_queue (pipes t pi) = pipe_queue (pipes s pi) @ user_bytes (mem s) pt va 0 (PIPESIZE - length (pipe_queue (pipes s pi)))
    \<and> pstate (proc_at t pr) = SLEEPING \<and> pchan (proc_at t pr) = Some (Ch_pipe_write pi)
    \<and> (\<forall>j<NPROC. j \<noteq> pr \<longrightarrow> proc_at t j = awaken (Ch_pipe_read pi) (proc_at s j))"
proof -
  let ?s = "s\<lparr>held := {L_pipe pi}\<rparr>" and ?k = "PIPESIZE - length (pipe_queue (pipes s pi))"
  let ?bs = "user_bytes (mem s) pt va 0 ?k"
  have k: "?k \<le> n" using r(3) by simp
  have "space_ok ?s pt fl" using sp by (intro space_ok_held) simp_all
  then have "pipewrite_loop pr pi va 0 n ?s = Switch
    (upd_proc pr (\<lambda>q. q\<lparr>pchan := Some (Ch_pipe_write pi), pstate := SLEEPING\<rparr>)
      ((upd_pipe pi (fold pipe_put (take ?k (user_bytes (mem s) pt va 0 n))) ?s)
       \<lparr>procs := map (awaken (Ch_pipe_read pi)) (procs s), held := {L_proc pr}\<rparr>))"
    using assms user_bytes_eq(1) [OF m, of 0] pipewrite_loop_full [of ?s pr fl va 0 n "user_bytes (mem s) pt va 0 n" pi] by (simp add: calm_def)
  moreover have "take ?k (user_bytes (mem s) pt va 0 n) = ?bs" using k user_bytes_eq(3) [OF m, of ?k] by (simp add: min_def)
  moreover have "pipe_ok (fold pipe_put ?bs (pipes s pi)) \<and> pipe_queue (fold pipe_put ?bs (pipes s pi)) = pipe_queue (pipes s pi) @ ?bs"
  proof (rule pipe_fifo.put_all [OF p])
    have "length (pipe_queue (pipes s pi)) \<le> PIPESIZE" using p by (simp add: pipe_ok_def pipe_queue_def)
    then show "length (pipe_queue (pipes s pi)) + length ?bs \<le> PIPESIZE" by (simp add: user_bytes_def)
  qed
  ultimately show ?thesis using c by (auto simp: calm_def upd_proc_def nth_list_update)
qed

lemma piperead_takes:
  fixes s :: "'a file_state_scheme"
  assumes c: "calm s" "cur s = Some pr" and pt: "pt = pagetable (proc_at s pr)" and sp: "space_ok s pt fl"
    and p: "pipe_ok (pipes s pi)" and m: "umapped (mem s) pt va n"
    and r: "pipe_queue (pipes s pi) \<noteq> [] \<or> \<not> writeopen (pipes s pi)"
  shows "returns (piperead pi va (int n) s) (\<lambda>r t. r = int (min n (length (pipe_queue (pipes s pi)))) \<and> pipe_ok (pipes t pi) \<and> calm t
    \<and> pipe_queue (pipes t pi) = drop n (pipe_queue (pipes s pi)) \<and> delivered (mem s) pt va (take n (pipe_queue (pipes s pi))) (mem t))"
proof -
  let ?s = "s\<lparr>held := {L_pipe pi}\<rparr>" and ?q = "pipe_queue (pipes s pi)"
  have sp': "space_ok ?s pt fl" using sp by (intro space_ok_held) simp_all
  obtain t m' f p' where t: "piperead_copy pr pi va 0 n ?s = Done (min n (length ?q)) t"
    "t = (upd_pipe pi (\<lambda>_. p') ?s)\<lparr>mem := m', freelist := f\<rparr>" "pipe_ok p'" "pipe_queue p' = drop n ?q" "delivered (mem s) pt va (take n ?q) m'"
    using piperead_copy_run [OF sp', of pr va 0 n pi ?q] pt p m by auto
  have "\<not> (nread (pipes s pi) = nwrite (pipes s pi) \<and> writeopen (pipes s pi))" using r pipe_empty_iff [of "pipes s pi"] by auto
  then show ?thesis
    using t(1,3-5) c unfolding t(2) by (auto simp: piperead_def piperead_turn_def with_proc_def calm_def wakeup_Done)
qed

text \<open>C10: a pipe is a bounded queue of bytes between user memories, for all branches of \<open>pipewrite\<close> and \<open>piperead\<close> on mapped memory. With
  the read end open, a \<open>pipewrite\<close> that fits appends exactly its bytes, in order, and returns their number; one that does not
  fit appends as many of its first bytes as there is room for, wakes the readers and sleeps, and continues from there when it is
  scheduled again. With the read end closed, or the writer killed, it returns -1 and the queue is as it was. A \<open>piperead\<close> that finds bytes, or
  the write end closed, takes the first ones off the queue, puts them into user memory in order and nowhere else, and returns
  their number; on an empty pipe with a writer it sleeps. The indices may have wrapped around any number of times.\<close>

theorem pipe_fifo_order:
  fixes s :: "'a file_state_scheme"
  assumes "calm s" and "cur s = Some pr" and "pagetable (proc_at s pr) = pt" and "space_ok s pt fl"
    and "pipe_ok (pipes s pi)" and "umapped (mem s) pt va n"
  shows "(readopen (pipes s pi) \<and> \<not> killed (proc_at s pr) \<longrightarrow>
      (if length (pipe_queue (pipes s pi)) + n \<le> PIPESIZE
       then returns (pipewrite pi va (int n) s) (\<lambda>r t. r = int n \<and> pipe_ok (pipes t pi) \<and> mem t = mem s \<and> calm t
         \<and> pipe_queue (pipes t pi) = pipe_queue (pipes s pi) @ user_bytes (mem s) pt va 0 n)
       else \<exists>t. pipewrite pi va (int n) s = Switch t \<and> pipe_ok (pipes t pi) \<and> mem t = mem s
         \<and> pipe_queue (pipes t pi) = pipe_queue (pipes s pi)
             @ user_bytes (mem s) pt va 0 (PIPESIZE - length (pipe_queue (pipes s pi)))
         \<and> pstate (proc_at t pr) = SLEEPING \<and> pchan (proc_at t pr) = Some (Ch_pipe_write pi)
         \<and> (\<forall>j<NPROC. j \<noteq> pr \<longrightarrow> proc_at t j = awaken (Ch_pipe_read pi) (proc_at s j))))
    \<and> (\<forall>i\<le>n. readopen (pipes s pi) \<and> \<not> killed (proc_at s pr) \<and> length (pipe_queue (pipes s pi)) + (n - i) \<le> PIPESIZE \<longrightarrow>
      returns (pipewrite_resume pi va (int n) i (s\<lparr>held := {L_proc pr}\<rparr>)) (\<lambda>r t. r = int n \<and> pipe_ok (pipes t pi) \<and> mem t = mem s \<and> calm t
        \<and> pipe_queue (pipes t pi) = pipe_queue (pipes s pi) @ user_bytes (mem s) pt va i n))
    \<and> (0 < n \<and> (\<not> readopen (pipes s pi) \<or> killed (proc_at s pr)) \<longrightarrow> pipewrite pi va (int n) s = Done (- 1) s)
    \<and> (pipe_queue (pipes s pi) \<noteq> [] \<or> \<not> writeopen (pipes s pi) \<longrightarrow>
      returns (piperead pi va (int n) s) (\<lambda>r t. r = int (min n (length (pipe_queue (pipes s pi)))) \<and> pipe_ok (pipes t pi) \<and> calm t
        \<and> pipe_queue (pipes t pi) = drop n (pipe_queue (pipes s pi))
        \<and> delivered (mem s) pt va (take n (pipe_queue (pipes s pi))) (mem t)))
    \<and> (pipe_queue (pipes s pi) = [] \<and> writeopen (pipes s pi) \<and> \<not> killed (proc_at s pr) \<longrightarrow>
      (\<exists>t. piperead pi va (int n) s = Switch t \<and> pipes t = pipes s \<and> mem t = mem s \<and> pstate (proc_at t pr) = SLEEPING
         \<and> pchan (proc_at t pr) = Some (Ch_pipe_read pi)))"
proof -
  note h = assms(1,2) assms(3) [symmetric] assms(4-6)
  show ?thesis
  proof (intro conjI impI allI; (elim conjE)?)
    assume "readopen (pipes s pi)" "\<not> killed (proc_at s pr)"
    then show "if length (pipe_queue (pipes s pi)) + n \<le> PIPESIZE
       then returns (pipewrite pi va (int n) s) (\<lambda>r t. r = int n \<and> pipe_ok (pipes t pi) \<and> mem t = mem s \<and> calm t
         \<and> pipe_queue (pipes t pi) = pipe_queue (pipes s pi) @ user_bytes (mem s) pt va 0 n)
       else \<exists>t. pipewrite pi va (int n) s = Switch t \<and> pipe_ok (pipes t pi) \<and> mem t = mem s
         \<and> pipe_queue (pipes t pi) = pipe_queue (pipes s pi) @ user_bytes (mem s) pt va 0 (PIPESIZE - length (pipe_queue (pipes s pi)))
         \<and> pstate (proc_at t pr) = SLEEPING \<and> pchan (proc_at t pr) = Some (Ch_pipe_write pi)
         \<and> (\<forall>j<NPROC. j \<noteq> pr \<longrightarrow> proc_at t j = awaken (Ch_pipe_read pi) (proc_at s j))"
      using pipewrite_fits [OF h, of 0] pipewrite_fills [OF h] assms(1,2) by (simp add: pipewrite_def with_proc_def calm_def not_le)
  next
    fix i
    assume "i \<le> n" "readopen (pipes s pi)" "\<not> killed (proc_at s pr)" "length (pipe_queue (pipes s pi)) + (n - i) \<le> PIPESIZE"
    then show "returns (pipewrite_resume pi va (int n) i (s\<lparr>held := {L_proc pr}\<rparr>)) (\<lambda>r t. r = int n \<and> pipe_ok (pipes t pi) \<and> mem t = mem s \<and> calm t
        \<and> pipe_queue (pipes t pi) = pipe_queue (pipes s pi) @ user_bytes (mem s) pt va i n)"
      by (rule pipewrite_continues [OF h])
  next
    assume "0 < n" "\<not> readopen (pipes s pi) \<or> killed (proc_at s pr)"
    then show "pipewrite pi va (int n) s = Done (- 1) s"
      using assms(1,2) held_same [of s "{}"] by (cases n) (auto simp: pipewrite_def with_proc_def calm_def simp del: of_nat_Suc)
  next
    assume "pipe_queue (pipes s pi) \<noteq> [] \<or> \<not> writeopen (pipes s pi)"
    then show "returns (piperead pi va (int n) s) (\<lambda>r t. r = int (min n (length (pipe_queue (pipes s pi)))) \<and> pipe_ok (pipes t pi) \<and> calm t
        \<and> pipe_queue (pipes t pi) = drop n (pipe_queue (pipes s pi))
        \<and> delivered (mem s) pt va (take n (pipe_queue (pipes s pi))) (mem t))"
      by (rule piperead_takes [OF h])
  next
    assume "pipe_queue (pipes s pi) = []" "writeopen (pipes s pi)" "\<not> killed (proc_at s pr)"
    then show "\<exists>t. piperead pi va (int n) s = Switch t \<and> pipes t = pipes s \<and> mem t = mem s \<and> pstate (proc_at t pr) = SLEEPING
         \<and> pchan (proc_at t pr) = Some (Ch_pipe_read pi)"
      using assms(1,2) sleep_Switch [of "s\<lparr>held := {L_pipe pi}\<rparr>" pr "L_pipe pi" "Ch_pipe_read pi"] pipe_empty_iff [of "pipes s pi"]
      by (auto simp: piperead_def piperead_turn_def with_proc_def calm_def)
  qed
qed

section \<open>A concrete state\<close>

text \<open>A process with one page of user memory, and a pipe that holds two bytes.\<close>

definition example_pipe :: pipe where
  "example_pipe = \<lparr>pdata = (replicate 512 0)[511 := 104, 0 := 105], nread = 511, nwrite = 513, readopen = True, writeopen = True\<rparr>"

definition example_file :: file_state where
  "example_file = (fs_state.extend (log_state.extend (example_log0 zero_disk) (fs_state.fields example_sb []))
     (file_state.fields [] (\<lambda>_. example_pipe)))
     \<lparr>mem := example_mem, freelist := 0, procs := (procs example_procs)[1 := example_proc\<lparr>pagetable := 0x87FF0000\<rparr>]\<rparr>"

lemmas file_ext_defs = example_file_def example_log0_def example_bio0_def sl_ext_defs bio_state.defs vdisk_state.defs
  log_state.defs fs_state.defs file_state.defs

lemma example_file_simps [simp]:
  "held example_file = {}" "cur example_file = Some 1" "length (procs example_file) = 64"
  "procs example_file ! Suc 0 = example_proc\<lparr>pagetable := 0x87FF0000\<rparr>" "mem example_file = example_mem"
  "pipes example_file = (\<lambda>_. example_pipe)" "freelist example_file = 0" "kend example_file = 0x80025000"
  by (simp_all add: file_ext_defs example_procs_def)

lemma example_file_space: "space_ok example_file 0x87FF0000 []"
proof -
  have "space_ok example_file 0x87FF0000 [] = space_ok example_space 0x87FF0000 []"
    by (simp add: space_ok_def pt_ok_def free_pages_def page_ok_def example_space_def)
  then show ?thesis using example_space_ok by simp
qed

lemma example_pipe_queue: "pipe_ok example_pipe" "pipe_queue example_pipe = [104, 105]"
  by (simp_all add: pipe_ok_def pipe_queue_def ring_def example_pipe_def upt_rec)

theorem pipe_fifo_order_witness:
  "returns (pipewrite 0x87FF8000 0 3 example_file) (\<lambda>r t. r = 3 \<and> take 2 (pipe_queue (pipes t 0x87FF8000)) = [104, 105] \<and> length (pipe_queue (pipes t 0x87FF8000)) = 5)
   \<and> (\<exists>t. pipewrite 0x87FF8000 0 600 example_file = Switch t \<and> length (pipe_queue (pipes t 0x87FF8000)) = 512)
   \<and> returns (piperead 0x87FF8000 0 1 example_file) (\<lambda>r t. r = 1 \<and> pipe_queue (pipes t 0x87FF8000) = [105])"
proof -
  have c: "calm example_file" by (simp add: calm_def)
  have u: "umapped (mem example_file) 0x87FF0000 0 n" if "n \<le> 4096" for n using example_umapped [OF that] by (simp add: example_space_def)
  have pt: "pagetable (proc_at example_file 1) = 0x87FF0000" by simp
  have e: "readopen example_pipe" "\<not> killed (proc_at example_file 1)" by (simp_all add: example_pipe_def example_proc_def)
  have l: "length (user_bytes m p a 0 n) = n" for m p a n by (simp add: user_bytes_def)
  note f = pipe_fifo_order [OF c _ pt example_file_space, where pi = "0x87FF8000" and va = 0]
  show ?thesis
  proof (intro conjI)
    show "returns (pipewrite 0x87FF8000 0 3 example_file) (\<lambda>r t. r = 3 \<and> take 2 (pipe_queue (pipes t 0x87FF8000)) = [104, 105] \<and> length (pipe_queue (pipes t 0x87FF8000)) = 5)"
      using f [where n = 3] u [of 3] e example_pipe_queue by (auto simp: l elim!: returns_mono)
    show "\<exists>t. pipewrite 0x87FF8000 0 600 example_file = Switch t \<and> length (pipe_queue (pipes t 0x87FF8000)) = 512"
      using f [where n = 600] u [of 600] e example_pipe_queue by (auto simp: l)
    show "returns (piperead 0x87FF8000 0 1 example_file) (\<lambda>r t. r = 1 \<and> pipe_queue (pipes t 0x87FF8000) = [105])"
      using f [where n = 1] u [of 1] example_pipe_queue by (auto elim!: returns_mono)
  qed
qed

end
