(* ===== verification/Fs_Read.thy ===== *)
theory Fs_Read
  imports Log_Crash Fs
begin

text \<open>
  Reading files, over the buffer cache and the log: a file is the sequence of bytes that its block addresses lead to, and
  \<open>bmap\<close>, \<open>readi\<close> and the search of \<open>dirlookup\<close> return them without a change of any block. An inode is cached at most once.
\<close>

declare NBUF_def [simp del]

section \<open>Reading blocks under the log\<close>

lemma frame_fs: "bio_frame s t \<Longrightarrow> inodes t = inodes s \<and> sb t = sb s"
proof -
  assume "bio_frame s t"
  then have e: "t\<lparr>bufs := bufs s, sleeplocks := sleeplocks s, disk := disk s, disk_writes := disk_writes s, procs := procs s\<rparr> = s"
    by (simp add: bio_frame_def)
  have "inodes (t\<lparr>bufs := bufs s, sleeplocks := sleeplocks s, disk := disk s, disk_writes := disk_writes s, procs := procs s\<rparr>) = inodes s"
    "sb (t\<lparr>bufs := bufs s, sleeplocks := sleeplocks s, disk := disk s, disk_writes := disk_writes s, procs := procs s\<rparr>) = sb s"
    by (simp_all only: e)
  then show ?thesis by simp
qed

text \<open>\<open>read_only D S bl P s t\<close>: from \<open>s\<close> to \<open>t\<close> the file system has only been read.\<close>

definition read_only :: "u32 \<Rightarrow> u32 \<Rightarrow> u32 list \<Rightarrow> nat set \<Rightarrow> 'a log_state_scheme \<Rightarrow> 'a log_state_scheme \<Rightarrow> bool" where
  "read_only D S bl P s t \<longleftrightarrow> log_inv D S bl {} P t \<and> blk t = blk s \<and> bio_frame s t \<and> disk t = disk s \<and> disk_writes t = disk_writes s"

lemma read_only_refl: "log_inv D S bl {} P s \<Longrightarrow> read_only D S bl P s s"
  by (simp add: read_only_def)

lemma read_only_trans: "read_only D S bl P s t \<Longrightarrow> read_only D S bl P t u \<Longrightarrow> read_only D S bl P s u"
  using bio_frame_trans by (auto simp: read_only_def)

lemma read_onlyD:
  "read_only D S bl P s t \<Longrightarrow> log_inv D S bl {} P t"
  "read_only D S bl P s t \<Longrightarrow> blk t = blk s"
  "read_only D S bl P s t \<Longrightarrow> bio_frame s t"
  by (simp_all add: read_only_def)

lemma open_block:
  assumes i: "log_inv D S bl {} P s"
  shows "\<exists>b s1. bread D n s = Done b s1 \<and> bdata (buf_at s1 b) = blk s n \<and> bio_frame s s1 \<and> log_inv D S bl {b} P s1
    \<and> (b \<in> P \<or> bdata (buf_at s1 b) = disk s1 (blockno (buf_at s1 b)))
    \<and> blk s1 = blk s \<and> disk s1 = disk s \<and> disk_writes s1 = disk_writes s"
proof -
  have "returns (bread D n s) (\<lambda>b t. cache_inv D (insert b {}) P t \<and> b \<notin> {} \<and> blockno (buf_at t b) = n
        \<and> bdata (buf_at t b) = blk s n \<and> (\<forall>p\<in>P. blockno (buf_at s p) = n \<longrightarrow> b = p)
        \<and> blk t = blk s \<and> bio_frame s t
        \<and> (\<forall>c\<in>{} \<union> P. blockno (buf_at t c) = blockno (buf_at s c) \<and> bdata (buf_at t c) = bdata (buf_at s c))
        \<and> disk t = disk s \<and> disk_writes t = disk_writes s)"
    using log_inv_card(2) [OF i] by (intro bread_contract [OF log_invD(1) [OF i]]) simp_all
  then obtain b s1 where 1: "bread D n s = Done b s1" "cache_inv D {b} P s1" "blockno (buf_at s1 b) = n" "bdata (buf_at s1 b) = blk s n"
    "\<forall>p\<in>P. blockno (buf_at s p) = n \<longrightarrow> b = p" "blk s1 = blk s" "bio_frame s s1"
    "\<forall>p\<in>P. blockno (buf_at s1 p) = blockno (buf_at s p)" "disk s1 = disk s" "disk_writes s1 = disk_writes s"
    by (elim returnsE) auto
  have i1: "log_inv D S bl {b} P s1" using 1(7-9) by (intro log_inv_frame [OF i 1(2)])
  have "b \<in> P \<or> bdata (buf_at s1 b) = disk s1 (blockno (buf_at s1 b))"
  proof (cases "n \<in> set bl")
    case True
    then show ?thesis using pinned_member [OF i1] 1(3) by simp
  next
    case False
    then show ?thesis using log_inv_blk [OF i] 1(3,4,9) by simp
  qed
  then show ?thesis using 1 i1 by blast
qed

lemma close_block:
  assumes i: "log_inv D S bl {b} P s" and c: "b \<in> P \<or> bdata (buf_at s b) = disk s (blockno (buf_at s b))"
  shows "\<exists>t. brelse b s = Done () t \<and> read_only D S bl P s t"
proof -
  obtain t where t: "brelse b s = Done () t" "cache_inv D ({b} - {b}) P t" "bc.unchanged UNIV s t"
    using bc.rel_unchanged [OF log_invD(1) [OF i] _ c] by blast
  have "log_inv D S bl {} P t" using t(2,3) by (intro log_inv_frame [OF i]) (simp_all add: bc.unchanged_def)
  then have "read_only D S bl P s t" using t(3) by (simp add: read_only_def bc.unchanged_def)
  then show ?thesis using t(1) by blast
qed

lemma read_any_block:
  assumes i: "log_inv D S bl {} P s"
  shows "\<exists>b s1 t. bread D n s = Done b s1 \<and> bdata (buf_at s1 b) = blk s n \<and> bio_frame s s1 \<and> brelse b s1 = Done () t
    \<and> read_only D S bl P s t"
proof -
  obtain b s1 where 1: "bread D n s = Done b s1" "bdata (buf_at s1 b) = blk s n" "bio_frame s s1" "log_inv D S bl {b} P s1"
    "b \<in> P \<or> bdata (buf_at s1 b) = disk s1 (blockno (buf_at s1 b))" "blk s1 = blk s" "disk s1 = disk s" "disk_writes s1 = disk_writes s"
    using open_block [OF i] by blast
  obtain t where t: "brelse b s1 = Done () t" "read_only D S bl P s1 t" using close_block [OF 1(4,5)] by blast
  have "read_only D S bl P s t" using t(2) 1(6-8) bio_frame_trans [OF 1(3)] by (simp add: read_only_def)
  then show ?thesis using 1(1-3) t(1) by blast
qed

section \<open>The bytes of a file\<close>

text \<open>The disk block that holds block \<open>n\<close> of a file with the block addresses \<open>as\<close>, where block \<open>a\<close> of the disk has the
  contents \<open>B a\<close>, and the bytes of the file.\<close>

definition data_block :: "(u32 \<Rightarrow> u8 list) \<Rightarrow> u32 list \<Rightarrow> nat \<Rightarrow> u32" where
  "data_block B as n = (if n < NDIRECT then as ! n else get32 (B (as ! NDIRECT)) (4 * (n - NDIRECT)))"

definition data_bytes :: "(u32 \<Rightarrow> u8 list) \<Rightarrow> u32 list \<Rightarrow> nat \<Rightarrow> nat \<Rightarrow> u8 list" where
  "data_bytes B as off n = map (\<lambda>i. B (data_block B as (i div BSIZE)) ! (i mod BSIZE)) [off..<off + n]"

abbreviation file_block :: "'a fs_state_scheme \<Rightarrow> nat \<Rightarrow> nat \<Rightarrow> u32" where
  "file_block s ip \<equiv> data_block (blk s) (addrs (inode_at s ip))"

abbreviation file_bytes :: "'a fs_state_scheme \<Rightarrow> nat \<Rightarrow> nat \<Rightarrow> nat \<Rightarrow> u8 list" where
  "file_bytes s ip \<equiv> data_bytes (blk s) (addrs (inode_at s ip))"

text \<open>An inode all of whose blocks are allocated.\<close>

definition mapped :: "(u32 \<Rightarrow> u8 list) \<Rightarrow> u32 list \<Rightarrow> nat \<Rightarrow> bool" where
  "mapped B as z \<longleftrightarrow> z \<le> MAXFILE * BSIZE \<and> (NDIRECT * BSIZE < z \<longrightarrow> as ! NDIRECT \<noteq> 0)
     \<and> (\<forall>n. n * BSIZE < z \<longrightarrow> data_block B as n \<noteq> 0)"

definition mapped_inode :: "u32 \<Rightarrow> 'a fs_state_scheme \<Rightarrow> nat \<Rightarrow> bool" where
  "mapped_inode D s ip \<longleftrightarrow> idev (inode_at s ip) = D \<and> mapped (blk s) (addrs (inode_at s ip)) (unat (isize (inode_at s ip)))"

lemma file_same:
  assumes "read_only D S bl P s t"
  shows "inodes t = inodes s" "sb t = sb s" "blk t = blk s" "mapped_inode D t = mapped_inode D s"
proof -
  show i: "inodes t = inodes s" "sb t = sb s" using frame_fs [OF read_onlyD(3) [OF assms]] by simp_all
  show "blk t = blk s" using read_onlyD(2) [OF assms] .
  then show "mapped_inode D t = mapped_inode D s" by (intro ext) (simp add: mapped_inode_def i)
qed

lemma bmap_reads:
  assumes i: "log_inv D S bl {} P s" and m: "mapped_inode D s ip" and n: "unat bn * BSIZE < unat (isize (inode_at s ip))"
  shows "\<exists>t. bmap ip bn s = Done (file_block s ip (unat bn)) t \<and> read_only D S bl P s t"
proof (cases "unat bn < NDIRECT")
  case True
  then show ?thesis using m n read_only_refl [OF i] by (auto simp: bmap_def mapped_inode_def mapped_def data_block_def Let_def)
next
  case False
  let ?a = "addrs (inode_at s ip) ! NDIRECT"
  have b: "file_block s ip (unat bn) \<noteq> 0" "?a \<noteq> 0" "idev (inode_at s ip) = D" "unat bn - NDIRECT < NINDIRECT"
    using m n False by (auto simp: mapped_inode_def mapped_def)
  obtain bp s1 t where r: "bread D ?a s = Done bp s1" "bdata (buf_at s1 bp) = blk s ?a" "brelse bp s1 = Done () t" "read_only D S bl P s t"
    using read_any_block [OF i, of ?a] by blast
  have "get32 (blk s ?a) (4 * (unat bn - NDIRECT)) = file_block s ip (unat bn)" using False by (simp add: data_block_def)
  then show ?thesis using False b r by (auto simp: bmap_def Let_def)
qed

lemma div_mod_shift: "(a :: nat) mod N + i < N \<Longrightarrow> (a + i) div N = a div N \<and> (a + i) mod N = a mod N + i"
proof -
  assume l: "a mod N + i < N"
  have "a + i = a div N * N + (a mod N + i)" by simp
  then show ?thesis using l by (metis div_less div_mult_self3 mod_less mod_mult_self3 add_0_right not_less_zero)
qed

lemma file_bytes_block:
  assumes "length (blk s (file_block s ip (a div BSIZE))) = BSIZE" and "a mod BSIZE + m \<le> BSIZE"
  shows "bslice (blk s (file_block s ip (a div BSIZE))) (a mod BSIZE) m = file_bytes s ip a m"
proof (rule nth_equalityI)
  show "length (bslice (blk s (file_block s ip (a div BSIZE))) (a mod BSIZE) m) = length (file_bytes s ip a m)"
    using assms by (simp add: data_bytes_def)
  fix i assume "i < length (bslice (blk s (file_block s ip (a div BSIZE))) (a mod BSIZE) m)"
  then have i: "i < m" using assms by simp
  then have "(a + i) div BSIZE = a div BSIZE \<and> (a + i) mod BSIZE = a mod BSIZE + i" using assms(2) by (intro div_mod_shift) simp
  then show "bslice (blk s (file_block s ip (a div BSIZE))) (a mod BSIZE) m ! i = file_bytes s ip a m ! i"
    using i assms by (simp add: data_bytes_def nth_bslice)
qed

lemma file_bytes_split: "m \<le> k \<Longrightarrow> file_bytes s ip a m @ file_bytes s ip (a + m) (k - m) = file_bytes s ip a k"
  using upt_add_eq_append [of a "a + m" "k - m"] by (simp add: data_bytes_def)

lemma readi_loop_run:
  assumes "log_inv D S bl {} P s" and "mapped_inode D s ip" and "unat off + k \<le> unat (isize (inode_at s ip))"
  shows "\<exists>t. readi_loop ip (BufDst d) off tot k s = Done (int (tot + k), BufDst (d @ file_bytes s ip (unat off) k)) t
    \<and> read_only D S bl P s t"
  using assms
proof (induction k arbitrary: off tot d s rule: less_induct)
  case (less k)
  show ?case
  proof (cases "k = 0")
    case True
    then show ?thesis using read_only_refl [OF less.prems(1)] by (simp add: readi_loop.simps [of _ _ _ _ 0] data_bytes_def)
  next
    case False
    let ?a = "unat off" and ?m = "block_chunk off k"
    have m: "0 < ?m" "?m \<le> k" "?a mod BSIZE + ?m \<le> BSIZE" using False by (simp_all add: block_chunk_def)
    have sz: "unat (isize (inode_at s ip)) \<le> MAXFILE * BSIZE" using less.prems(2) by (simp add: mapped_inode_def mapped_def)
    have bn: "unat (off div of_nat BSIZE) = ?a div BSIZE" by (simp add: unat_div)
    have "?a div BSIZE * BSIZE < unat (isize (inode_at s ip))"
      using less.prems(3) False div_mult_mod_eq [of ?a BSIZE] by linarith
    then obtain s1 where 1: "bmap ip (off div of_nat BSIZE) s = Done (file_block s ip (?a div BSIZE)) s1" "read_only D S bl P s s1"
      using bmap_reads [OF less.prems(1,2), of "off div of_nat BSIZE"] unfolding bn by blast
    note f = file_same [OF 1(2)]
    have dev: "idev (inode_at s1 ip) = D" using less.prems(2) f(1) by (simp add: mapped_inode_def)
    obtain bp s2 s3 where 2: "bread D (file_block s ip (?a div BSIZE)) s1 = Done bp s2"
      "bdata (buf_at s2 bp) = blk s1 (file_block s ip (?a div BSIZE))" "brelse bp s2 = Done () s3" "read_only D S bl P s1 s3"
      using read_any_block [OF read_onlyD(1) [OF 1(2)]] by blast
    have bs: "bslice (bdata (buf_at s2 bp)) (?a mod BSIZE) ?m = file_bytes s ip ?a ?m"
      using file_bytes_block [OF length_blk [OF log_invD(1) [OF less.prems(1)]] m(3)] 2(2) read_onlyD(2) [OF 1(2)] by simp
    have r: "read_only D S bl P s s3" by (rule read_only_trans [OF 1(2) 2(4)])
    note f3 = file_same [OF r]
    have off: "unat (off + of_nat ?m) = ?a + ?m"
      using less.prems(3) sz m(2) by (simp add: unat_word_ariths unat_of_nat take_bit_nat_eq_self)
    have "\<exists>t. readi_loop ip (BufDst (d @ file_bytes s ip ?a ?m)) (off + of_nat ?m) (tot + ?m) (k - ?m) s3
        = Done (int (tot + ?m + (k - ?m)), BufDst ((d @ file_bytes s ip ?a ?m) @ file_bytes s3 ip (unat (off + of_nat ?m)) (k - ?m))) t
      \<and> read_only D S bl P s3 t"
      using less.prems(2,3) m by (intro less.IH read_onlyD(1) [OF r]) (simp_all add: f3 off)
    then obtain t where t: "readi_loop ip (BufDst (d @ file_bytes s ip ?a ?m)) (off + of_nat ?m) (tot + ?m) (k - ?m) s3
        = Done (int (tot + k), BufDst (d @ file_bytes s ip ?a k)) t" "read_only D S bl P s3 t"
      using m(2) file_bytes_split [OF m(2), of s ip ?a] by (auto simp: f3 off)
    have "readi_loop ip (BufDst d) off tot k s = Done (int (tot + k), BufDst (d @ file_bytes s ip ?a k)) t"
      using False 1(1) 2(1,3) t(1) dev bs by (subst readi_loop.simps) (simp add: either_copyout_def Let_def del: BSIZE_def)
    then show ?thesis using read_only_trans [OF r t(2)] by blast
  qed
qed

section \<open>The inode cache\<close>

text \<open>An inode in use is cached in one slot only.\<close>

definition icache_ok :: "'a fs_state_scheme \<Rightarrow> bool" where
  "icache_ok s \<longleftrightarrow> length (inodes s) = NINODE \<and> (\<forall>i<NINODE. 0 \<le> iref (inode_at s i))
     \<and> (\<forall>i<NINODE. \<forall>j<NINODE. 0 < iref (inode_at s i) \<longrightarrow> 0 < iref (inode_at s j) \<longrightarrow>
          idev (inode_at s i) = idev (inode_at s j) \<longrightarrow> inum (inode_at s i) = inum (inode_at s j) \<longrightarrow> i = j)"

abbreviation caches :: "u32 \<Rightarrow> u32 \<Rightarrow> inode \<Rightarrow> bool" where
  "caches dev ino x \<equiv> 0 < iref x \<and> idev x = dev \<and> inum x = ino"

lemma iget_scan_find:
  "iget_scan is dev ino i k emp = (case find (\<lambda>j. caches dev ino (is ! j)) [i..<i + k] of
     Some j \<Rightarrow> Inl j
   | None \<Rightarrow> Inr (case emp of Some e \<Rightarrow> Some e | None \<Rightarrow> find (\<lambda>j. iref (is ! j) = 0) [i..<i + k]))"
proof (induction "is" dev ino i k emp rule: iget_scan.induct)
  case (2 "is" dev ino i k emp)
  then show ?case unfolding upt_step by (auto split: option.splits)
qed (simp split: option.splits)

lemma iget_rule:
  assumes c: "icache_ok s" and h: "held s = {}"
    and room: "\<exists>i<NINODE. caches dev ino (inode_at s i) \<or> iref (inode_at s i) = 0"
  shows "\<exists>i x. iget dev ino s = Done i (upd_inode i (\<lambda>_. x) s) \<and> i < NINODE \<and> caches dev ino x
    \<and> icache_ok (upd_inode i (\<lambda>_. x) s) \<and> iref x = iref (inode_at s i) + 1
    \<and> (if 0 < iref (inode_at s i) then x = (inode_at s i)\<lparr>iref := iref (inode_at s i) + 1\<rparr> else \<not> ivalid x)"
proof (cases "find (\<lambda>j. caches dev ino (inode_at s j)) [0..<NINODE]")
  case (Some i)
  let ?x = "(inode_at s i)\<lparr>iref := iref (inode_at s i) + 1\<rparr>"
  have i: "i < NINODE" "caches dev ino (inode_at s i)" using Some by (auto simp: find_Some_iff)
  have "iget dev ino s = Done i (upd_inode i (\<lambda>_. ?x) s)"
    using Some h by (simp add: iget_def iget_scan_find upd_inode_def)
  moreover have "icache_ok (upd_inode i (\<lambda>_. ?x) s)"
    using c i unfolding icache_ok_def by (auto simp: upd_inode_def nth_list_update)
  ultimately show ?thesis using i by (intro exI [of _ i] exI [of _ ?x]) simp
next
  case None
  then have no: "\<forall>j<NINODE. \<not> caches dev ino (inode_at s j)" by (auto simp: find_None_iff)
  then obtain i where e: "find (\<lambda>j. iref (inode_at s j) = 0) [0..<NINODE] = Some i"
    using room by (cases "find (\<lambda>j. iref (inode_at s j) = 0) [0..<NINODE]") (auto simp: find_None_iff)
  then have i: "i < NINODE" "iref (inode_at s i) = 0" by (auto simp: find_Some_iff)
  let ?x = "(inode_at s i)\<lparr>idev := dev, inum := ino, iref := 1, ivalid := False\<rparr>"
  have "iget dev ino s = Done i (upd_inode i (\<lambda>_. ?x) s)"
    using None e h by (simp add: iget_def iget_scan_find upd_inode_def)
  moreover have "icache_ok (upd_inode i (\<lambda>_. ?x) s)"
    using c i no unfolding icache_ok_def by (auto simp: upd_inode_def nth_list_update)
  ultimately show ?thesis using i by (intro exI [of _ i] exI [of _ ?x]) simp
qed

section \<open>Reading files and directories\<close>

lemma readi_run:
  assumes i: "log_inv D S bl {} P s" and m: "mapped_inode D s ip" and off: "unat off \<le> unat (isize (inode_at s ip))"
    and ov: "unat off + unat n < 2 ^ 32"
  defines "k \<equiv> min (unat n) (unat (isize (inode_at s ip)) - unat off)"
  shows "\<exists>t. readi ip (BufDst []) off n s = Done (int k, BufDst (file_bytes s ip (unat off) k)) t \<and> read_only D S bl P s t"
proof -
  let ?z = "isize (inode_at s ip)"
  have a: "unat (off + n) = unat off + unat n" using ov by (simp add: unat_word_ariths)
  have g: "\<not> (off > ?z \<or> off + n < off)" using off a by (simp add: word_less_nat_alt)
  have n: "unat (if off + n > ?z then ?z - off else n) = k"
    using off a by (auto simp: k_def word_less_nat_alt unat_sub word_le_nat_alt)
  have "unat off + k \<le> unat ?z" using off by (simp add: k_def)
  from readi_loop_run [OF i m this, of "[]" 0] show ?thesis using g n by (simp add: readi_def Let_def)
qed

text \<open>Entry \<open>i\<close> of a directory: the inode number and the name.\<close>

definition dir_entry :: "(u32 \<Rightarrow> u8 list) \<Rightarrow> u32 list \<Rightarrow> nat \<Rightarrow> u16 \<times> u8 list" where
  "dir_entry B as i = (let e = data_bytes B as (16 * i) 16 in (get16 e 0, bslice e 2 DIRSIZ))"

abbreviation dirent :: "'a fs_state_scheme \<Rightarrow> nat \<Rightarrow> nat \<Rightarrow> u16 \<times> u8 list" where
  "dirent s dp \<equiv> dir_entry (blk s) (addrs (inode_at s dp))"

definition named :: "u8 list \<Rightarrow> u16 \<times> u8 list \<Rightarrow> bool" where
  "named n e \<longleftrightarrow> fst e \<noteq> 0 \<and> cstr (snd e) = n"

definition directory :: "u32 \<Rightarrow> 'a fs_state_scheme \<Rightarrow> nat \<Rightarrow> nat \<Rightarrow> bool" where
  "directory D s dp N \<longleftrightarrow> mapped_inode D s dp \<and> itype (inode_at s dp) = T_DIR \<and> unat (isize (inode_at s dp)) = 16 * N"

lemma dirent_name_length [simp]: "length (snd (dirent s dp i)) = DIRSIZ"
  by (simp add: dir_entry_def Let_def data_bytes_def)

lemma namecmp_named: "length name = DIRSIZ \<Longrightarrow> fst e \<noteq> 0 \<and> namecmp (arr name) (arr (snd e)) = 0 \<longleftrightarrow> named (cstr name) e" if "length (snd e) = DIRSIZ"
  using that by (auto simp: named_def namecmp_def strncmp_zero map_arr)

lemma unat_of_nat32: "n < 2 ^ 32 \<Longrightarrow> unat (of_nat n :: u32) = n"
  by (simp add: unat_of_nat take_bit_nat_eq_self)

lemma read_dirent_run:
  assumes i: "log_inv D S bl {} P s" and d: "directory D s dp N" and j: "j < N"
  shows "\<exists>t. read_dirent dp (16 * j) msg s = Done (dirent s dp j) t \<and> read_only D S bl P s t"
proof -
  have m: "mapped_inode D s dp" and z: "unat (isize (inode_at s dp)) = 16 * N" using d by (simp_all add: directory_def)
  have N: "16 * N \<le> MAXFILE * BSIZE" using m z by (simp add: mapped_inode_def mapped_def)
  then have o: "unat (of_nat (16 * j) :: u32) = 16 * j" using j by (intro unat_of_nat32) simp
  have "\<exists>t. readi dp (BufDst []) (of_nat (16 * j)) 16 s = Done (int (min (unat (16 :: u32)) (unat (isize (inode_at s dp)) - unat (of_nat (16 * j) :: u32))),
      BufDst (file_bytes s dp (unat (of_nat (16 * j) :: u32)) (min (unat (16 :: u32)) (unat (isize (inode_at s dp)) - unat (of_nat (16 * j) :: u32))))) t
      \<and> read_only D S bl P s t"
    using j N z by (intro readi_run [OF i m]) (simp_all only: o, simp_all)
  moreover have "min (unat (16 :: u32)) (unat (isize (inode_at s dp)) - 16 * j) = 16" using z j by simp
  ultimately obtain t where "readi dp (BufDst []) (of_nat (16 * j)) 16 s = Done (int 16, BufDst (file_bytes s dp (16 * j) 16)) t"
    "read_only D S bl P s t" unfolding o by metis
  then show ?thesis by (simp add: read_dirent_def dir_entry_def Let_def)
qed

lemma dirent_same: "read_only D S bl P s t \<Longrightarrow> dirent t dp = dirent s dp \<and> directory D t dp = directory D s dp"
  using file_same [of D S bl P s t] by (auto simp: directory_def)

lemma dirlookup_loop_run:
  assumes "log_inv D S bl {} P s" and "directory D s dp N" and "length name = DIRSIZ" and "j + k = N"
  shows "\<exists>t. read_only D S bl P s t \<and> dirlookup_loop dp name (16 * N) (16 * j) s =
    (case find (\<lambda>i. named (cstr name) (dirent s dp i)) [j..<j + k] of None \<Rightarrow> Done None t
     | Some i \<Rightarrow> andthen (iget D (ucast (fst (dirent s dp i))) t) (\<lambda>ip s. Done (Some (ip, 16 * i)) s))"
  using assms
proof (induction k arbitrary: j s)
  case 0
  then show ?case using read_only_refl by (auto simp: dirlookup_loop.simps [of _ _ _ "16 * N"])
next
  case (Suc k)
  obtain t where t: "read_dirent dp (16 * j) ''dirlookup read'' s = Done (dirent s dp j) t" "read_only D S bl P s t"
    using read_dirent_run [OF Suc.prems(1,2), of j] Suc.prems(4) by auto
  note e = dirent_same [OF t(2), of dp]
  have dev: "idev (inode_at t dp) = D" using Suc.prems(2) file_same(1) [OF t(2)] by (simp add: directory_def mapped_inode_def)
  have step: "dirlookup_loop dp name (16 * N) (16 * j) s =
     (if named (cstr name) (dirent s dp j) then andthen (iget D (ucast (fst (dirent s dp j))) t) (\<lambda>ip s. Done (Some (ip, 16 * j)) s)
      else dirlookup_loop dp name (16 * N) (16 * Suc j) t)"
  proof -
    obtain ino nm where d: "dirent s dp j = (ino, nm)" by (cases "dirent s dp j")
    have "length nm = DIRSIZ" using dirent_name_length [of s dp j] by (simp add: d)
    then have c: "(ino \<noteq> 0 \<and> namecmp (arr name) (arr nm) = 0) = named (cstr name) (ino, nm)"
      using namecmp_named [of "(ino, nm)" name] Suc.prems(3) by simp
    have o: "16 * j + 16 = 16 * Suc j" by simp
    show ?thesis using t(1) Suc.prems(4) dev unfolding d by (subst dirlookup_loop.simps) (simp only: andthen.simps prod.case c o fst_conv, simp)
  qed
  show ?case
  proof (cases "named (cstr name) (dirent s dp j)")
    case True
    then show ?thesis unfolding step upt_step using t(2) by auto
  next
    case False
    have "\<exists>u. read_only D S bl P t u \<and> dirlookup_loop dp name (16 * N) (16 * Suc j) t =
      (case find (\<lambda>i. named (cstr name) (dirent t dp i)) [Suc j..<Suc j + k] of None \<Rightarrow> Done None u
       | Some i \<Rightarrow> andthen (iget D (ucast (fst (dirent t dp i))) u) (\<lambda>ip s. Done (Some (ip, 16 * i)) s))"
      using Suc.prems(2-4) by (intro Suc.IH read_onlyD(1) [OF t(2)]) (simp_all add: e)
    then obtain u where u: "read_only D S bl P t u" "dirlookup_loop dp name (16 * N) (16 * Suc j) t =
      (case find (\<lambda>i. named (cstr name) (dirent t dp i)) [Suc j..<Suc j + k] of None \<Rightarrow> Done None u
       | Some i \<Rightarrow> andthen (iget D (ucast (fst (dirent t dp i))) u) (\<lambda>ip s. Done (Some (ip, 16 * i)) s))" by blast
    have "read_only D S bl P s u" by (rule read_only_trans [OF t(2) u(1)])
    then show ?thesis unfolding step upt_step using False u(2) [unfolded conjunct1 [OF e]] by (intro exI [of _ u]) (simp del: upt_Suc)
  qed
qed

end
