(* ===== verification/Fs_Path.thy ===== *)
theory Fs_Path
  imports Fs_Read
begin

text \<open>
  Path names, \<open>namei\<close> and \<open>nameiparent\<close>: the tree of directories as it is on disk, an abstract resolution of path names in
  it, and the proof that the walk of \<open>namex\<close> through the inode cache, with its locks and reference counts, computes that
  resolution.
\<close>

section \<open>Entries as \<open>dirlink\<close> writes them\<close>

lemma mk_dirent_eq: "mk_dirent name ino = word_le 2 ino @ nul_pad DIRSIZ (cstr (map (arr name) [0..<DIRSIZ]))"
proof -
  let ?c = "cstr (map (arr name) [0..<DIRSIZ])"
  have "strncpy (replicate DIRSIZ 0) (arr name) DIRSIZ = bpatch (replicate DIRSIZ 0) 0 (nul_pad DIRSIZ ?c)"
    by (rule strncpy_bpatch) simp
  moreover have "length (nul_pad DIRSIZ ?c) = DIRSIZ" by (rule length_nul_pad) (rule length_cstr_map)
  ultimately show ?thesis by (simp add: mk_dirent_def bpatch_def)
qed

lemma length_mk_dirent [simp]: "length (mk_dirent name ino) = 16"
  using length_nul_pad [OF length_cstr_map, of DIRSIZ "arr name"] by (simp add: mk_dirent_eq)

lemma cstr_padded: "cstr (nul_pad n (cstr xs)) = cstr xs"
  by (simp add: nul_pad_def cstr_no_nul) (simp add: cstr_def)

lemma mk_dirent_fields:
  "get16 (mk_dirent name ino) 0 = ino"
  "cstr (bslice (mk_dirent name ino) 2 DIRSIZ) = cstr (map (arr name) [0..<DIRSIZ])"
proof -
  show "get16 (mk_dirent name ino) 0 = ino" by (simp add: get16_def mk_dirent_eq bslice_def)
  have "bslice (mk_dirent name ino) 2 DIRSIZ = nul_pad DIRSIZ (cstr (map (arr name) [0..<DIRSIZ]))"
    using length_nul_pad [OF length_cstr_map, of DIRSIZ "arr name"] by (simp add: mk_dirent_eq bslice_def)
  then show "cstr (bslice (mk_dirent name ino) 2 DIRSIZ) = cstr (map (arr name) [0..<DIRSIZ])" by (simp add: cstr_padded)
qed

section \<open>Path names\<close>

text \<open>The elements of a path: the non-empty parts between slashes.\<close>

fun split_path :: "u8 list \<Rightarrow> u8 list list" where
  "split_path [] = [[]]"
| "split_path (c # cs) = (if c = slash then [] # split_path cs
     else case split_path cs of [] \<Rightarrow> [[c]] | e # es \<Rightarrow> (c # e) # es)"

definition elements :: "u8 list \<Rightarrow> u8 list list" where
  "elements path = filter (\<lambda>e. e \<noteq> []) (split_path path)"

lemma split_path_ne [simp]: "split_path p \<noteq> []"
  by (cases p) (simp_all split: list.split)

lemma split_path_takeWhile:
  "split_path p = takeWhile (\<lambda>c. c \<noteq> slash) p # (case dropWhile (\<lambda>c. c \<noteq> slash) p of [] \<Rightarrow> [] | _ # q \<Rightarrow> split_path q)"
  by (induction p) (auto split: list.splits)

lemma elements_slashes: "elements (dropWhile (\<lambda>c. c = slash) p) = elements p"
  by (induction p) (simp_all add: elements_def)

lemma elements_first:
  assumes "p \<noteq> []" and "hd p \<noteq> slash"
  shows "elements p = takeWhile (\<lambda>c. c \<noteq> slash) p # elements (dropWhile (\<lambda>c. c \<noteq> slash) p)"
proof -
  have ne: "takeWhile (\<lambda>c. c \<noteq> slash) p \<noteq> []" using assms by (cases p) auto
  show ?thesis
  proof (cases "dropWhile (\<lambda>c. c \<noteq> slash) p")
    case Nil
    then show ?thesis using ne split_path_takeWhile [of p] by (simp add: elements_def del: dropWhile_eq_Nil_conv)
  next
    case (Cons d q)
    then have "d = slash" using hd_dropWhile [of "\<lambda>c. c \<noteq> slash" p] by simp
    then show ?thesis using ne Cons split_path_takeWhile [of p] by (simp add: elements_def)
  qed
qed

lemma skipelem_elements:
  assumes "skipelem p name = Some (q, name')" and "0 \<notin> set p" and "length name = DIRSIZ"
  shows "\<exists>e. elements p = e # elements q \<and> cstr name' = take DIRSIZ e \<and> length name' = DIRSIZ \<and> 0 \<notin> set q"
proof -
  let ?p = "dropWhile (\<lambda>c. c = slash) p"
  let ?e = "takeWhile (\<lambda>c. c \<noteq> slash) ?p" and ?q = "dropWhile (\<lambda>c. c \<noteq> slash) ?p"
  have ne: "?p \<noteq> []" using assms(1) by (cases "?p = []") (auto simp del: dropWhile_eq_Nil_conv simp: skipelem_def Let_def)
  have q: "q = dropWhile (\<lambda>c. c = slash) ?q" and n: "name' = (if length ?e \<ge> DIRSIZ then take DIRSIZ ?e else bpatch name 0 (?e @ [0]))"
    using assms(1) ne by (simp_all del: dropWhile_eq_Nil_conv add: skipelem_def Let_def)
  have "elements p = ?e # elements q"
    using elements_first [OF ne hd_dropWhile [OF ne]] elements_slashes [of p] elements_slashes [of ?q] q by simp
  moreover have z: "0 \<notin> set ?e" "0 \<notin> set q"
    using assms(2) q by (auto dest!: set_dropWhileD set_takeWhileD)
  moreover have "cstr name' = take DIRSIZ ?e"
  proof (cases "length ?e \<ge> DIRSIZ")
    case True
    have "\<forall>x\<in>set (take DIRSIZ ?e). x \<noteq> 0" using z(1) by (metis in_set_takeD)
    then show ?thesis using True n by (simp add: cstr_def)
  next
    case False
    have "\<forall>x\<in>set ?e. x \<noteq> 0" using z(1) by metis
    then show ?thesis using False n by (simp add: cstr_def bpatch_def)
  qed
  moreover have "length name' = DIRSIZ" using n assms(3) by simp
  ultimately show ?thesis by blast
qed

section \<open>The directory tree on disk\<close>

definition disk_inode :: "'a fs_state_scheme \<Rightarrow> u32 \<Rightarrow> dinode" where
  "disk_inode s ino = get_dinode (blk s (IBLOCK (unat ino) (sb s))) (unat ino mod IPB * 64)"

definition dir_lookup :: "(u32 \<Rightarrow> u8 list) \<Rightarrow> dinode \<Rightarrow> u8 list \<Rightarrow> u32 option" where
  "dir_lookup B di n = map_option (\<lambda>i. ucast (fst (dir_entry B (d_addrs di) i)))
     (find (\<lambda>i. named n (dir_entry B (d_addrs di) i)) [0..<unat (d_size di) div 16])"

text \<open>Following a list of names from the inode with number \<open>ino\<close>, where \<open>I\<close> has the inodes and \<open>B\<close> the blocks of the disk.\<close>

fun resolve :: "(u32 \<Rightarrow> dinode) \<Rightarrow> (u32 \<Rightarrow> u8 list) \<Rightarrow> u32 \<Rightarrow> u8 list list \<Rightarrow> u32 option" where
  "resolve I B ino [] = Some ino"
| "resolve I B ino (n # ns) =
     (if d_type (I ino) = T_DIR
      then case dir_lookup B (I ino) n of None \<Rightarrow> None | Some ino' \<Rightarrow> resolve I B ino' ns
      else None)"

text \<open>A set \<open>L\<close> of live inodes: each has a type and a link, and the directories among them are well formed and lead to live
  inodes only.\<close>

definition live :: "(u32 \<Rightarrow> dinode) \<Rightarrow> (u32 \<Rightarrow> u8 list) \<Rightarrow> u32 set \<Rightarrow> bool" where
  "live I B L \<longleftrightarrow> (\<forall>ino\<in>L. d_type (I ino) \<noteq> 0 \<and> d_nlink (I ino) \<noteq> 0
     \<and> (d_type (I ino) = T_DIR \<longrightarrow> 16 dvd unat (d_size (I ino)) \<and> mapped B (d_addrs (I ino)) (unat (d_size (I ino)))
        \<and> (\<forall>n ino'. dir_lookup B (I ino) n = Some ino' \<longrightarrow> ino' \<in> L)))"

text \<open>The inode cache of device \<open>D\<close> with the inodes in the slots \<open>K\<close> locked by the running process: it agrees with the disk.\<close>

definition fs_ok :: "u32 \<Rightarrow> u32 \<Rightarrow> u32 list \<Rightarrow> nat set \<Rightarrow> u32 set \<Rightarrow> nat set \<Rightarrow> 'a fs_state_scheme \<Rightarrow> bool" where
  "fs_ok D S bl P L K s \<longleftrightarrow> log_inv D S bl {} P s \<and> icache_ok s \<and> live (disk_inode s) (blk s) L
     \<and> (\<forall>i<NINODE. if i \<in> K then sleeplocks s (SL_inode i) = \<lparr>locked_sl = True, pid_sl = mypid s\<rparr> \<and> ivalid (inode_at s i) \<and> 0 < iref (inode_at s i)
                    else \<not> locked_sl (sleeplocks s (SL_inode i)))
     \<and> (\<forall>i<NINODE. 0 < iref (inode_at s i) \<longrightarrow> idev (inode_at s i) = D \<and> inum (inode_at s i) \<in> L
          \<and> (ivalid (inode_at s i) \<longrightarrow> dinode_of (inode_at s i) = disk_inode s (inum (inode_at s i))))"

lemma fs_okD:
  assumes "fs_ok D S bl P L K s"
  shows "log_inv D S bl {} P s" "icache_ok s" "live (disk_inode s) (blk s) L" "calm s"
    "i < NINODE \<Longrightarrow> i \<in> K \<Longrightarrow> sleeplocks s (SL_inode i) = \<lparr>locked_sl = True, pid_sl = mypid s\<rparr> \<and> ivalid (inode_at s i) \<and> 0 < iref (inode_at s i)"
    "i < NINODE \<Longrightarrow> i \<notin> K \<Longrightarrow> \<not> locked_sl (sleeplocks s (SL_inode i))"
    "i < NINODE \<Longrightarrow> 0 < iref (inode_at s i) \<Longrightarrow> idev (inode_at s i) = D \<and> inum (inode_at s i) \<in> L"
    "i < NINODE \<Longrightarrow> 0 < iref (inode_at s i) \<Longrightarrow> ivalid (inode_at s i) \<Longrightarrow> dinode_of (inode_at s i) = disk_inode s (inum (inode_at s i))"
  using assms cache_invD(1) [OF log_invD(1), of D S bl "{}" P s] by (auto simp: fs_ok_def)

lemma read_only_fs_ok:
  assumes "fs_ok D S bl P L K s" and "read_only D S bl P s t"
  shows "fs_ok D S bl P L K t" "disk_inode t = disk_inode s"
proof -
  note f = file_same [OF assms(2)]
  show d: "disk_inode t = disk_inode s" by (intro ext) (simp add: disk_inode_def f)
  have "\<forall>i. sleeplocks t (SL_inode i) = sleeplocks s (SL_inode i)" using read_onlyD(3) [OF assms(2)] by (simp add: bio_frame_def)
  moreover have "mypid t = mypid s" by (rule bio_frame_mypid [OF read_onlyD(3) [OF assms(2)] fs_okD(4) [OF assms(1)]])
  ultimately show "fs_ok D S bl P L K t"
    using assms(1) read_onlyD(1) [OF assms(2)] by (simp add: fs_ok_def f d icache_ok_def)
qed

text \<open>Steps that change slots of the inode cache, inode locks and process states only.\<close>

lemma log_inv_fields:
  assumes "log_inv D S bl H P s" and "bufs t = bufs s" "disk t = disk s" "klog t = klog s" "cur t = cur s" "held t = held s"
    and "length (procs t) = length (procs s)" "map pid (procs t) = map pid (procs s)" "\<forall>b. sleeplocks t (SL_buf b) = sleeplocks s (SL_buf b)"
  shows "log_inv D S bl H P t" "blk t = blk s"
proof -
  have c: "calm s" using cache_invD(1) [OF log_invD(1) [OF assms(1)]] .
  then obtain p where p: "cur s = Some p" "p < length (procs s)" by (auto simp: calm_def)
  have "map pid (procs t) ! p = map pid (procs s) ! p" using assms(8) by simp
  then have "mypid t = mypid s" using p assms(5,7) by (simp add: mypid_def)
  then have "cache_inv D H P t" using log_invD(1) [OF assms(1)] assms
    by (simp add: cache_inv_def calm_def buf_ok_def cached_once_def)
  then show "log_inv D S bl H P t" using assms by (simp add: log_inv_def)
  show "blk t = blk s" by (rule ext) (simp add: blk_def assms split: option.split)
qed

text \<open>The file system as one process sees it between calls: \<open>I\<close> are the inodes and \<open>B\<close> the blocks of the disk, \<open>rb\<close> the
  reference counts of the inode cache.\<close>

definition fs_view ::
  "u32 \<Rightarrow> u32 \<Rightarrow> u32 list \<Rightarrow> nat set \<Rightarrow> u32 set \<Rightarrow> nat set \<Rightarrow> (u32 \<Rightarrow> dinode) \<Rightarrow> (u32 \<Rightarrow> u8 list) \<Rightarrow> (nat \<Rightarrow> int) \<Rightarrow> 'a fs_state_scheme \<Rightarrow> bool" where
  "fs_view D S bl P L K I B rb s \<longleftrightarrow> fs_ok D S bl P L K s \<and> disk_inode s = I \<and> blk s = B \<and> (\<forall>i<NINODE. iref (inode_at s i) = rb i)"

lemma fs_viewD:
  assumes "fs_view D S bl P L K I B rb s"
  shows "fs_ok D S bl P L K s" "disk_inode s = I" "blk s = B" "i < NINODE \<Longrightarrow> iref (inode_at s i) = rb i" "live I B L"
  using assms fs_okD(3) [of D S bl P L K s] by (auto simp: fs_view_def)

lemma live_inode:
  assumes v: "fs_view D S bl P L K I B rb s" and ip: "ip < NINODE" "0 < rb ip" "ivalid (inode_at s ip)"
  shows "dinode_of (inode_at s ip) = I (inum (inode_at s ip))" "nlink (inode_at s ip) \<noteq> 0" "itype (inode_at s ip) \<noteq> 0"
proof -
  note ok = fs_okD [OF fs_viewD(1) [OF v]]
  have r: "0 < iref (inode_at s ip)" using fs_viewD(4) [OF v ip(1)] ip(2) by simp
  show e: "dinode_of (inode_at s ip) = I (inum (inode_at s ip))" using ok(8) [OF ip(1) r ip(3)] fs_viewD(2) [OF v] by simp
  have "d_nlink (I (inum (inode_at s ip))) \<noteq> 0" "d_type (I (inum (inode_at s ip))) \<noteq> 0"
    using fs_viewD(5) [OF v] ok(7) [OF ip(1) r] by (simp_all add: live_def)
  then show "nlink (inode_at s ip) \<noteq> 0" "itype (inode_at s ip) \<noteq> 0" unfolding e [symmetric] by (simp_all add: dinode_of_def)
qed

lemma read_only_view:
  "fs_view D S bl P L K I B rb s \<Longrightarrow> read_only D S bl P s t \<Longrightarrow> fs_view D S bl P L K I B rb t"
  using read_only_fs_ok [of D S bl P L K s t] file_same [of D S bl P s t] by (simp add: fs_view_def)

lemma iget_step:
  assumes v: "fs_view D S bl P L K I B rb s" and l: "ino \<in> L" and r: "\<exists>i<NINODE. rb i = 0"
  shows "\<exists>i t. iget D ino s = Done i t \<and> i < NINODE \<and> inum (inode_at t i) = ino \<and> fs_view D S bl P L K I B (rb(i := rb i + 1)) t
    \<and> disk t = disk s"
proof -
  note ok = fs_okD [OF fs_viewD(1) [OF v]]
  have h: "held s = {}" using ok(4) by (simp add: calm_def)
  have "\<exists>i<NINODE. caches D ino (inode_at s i) \<or> iref (inode_at s i) = 0" using r fs_viewD(4) [OF v] by auto
  from iget_rule [OF ok(2) h this] obtain i x where x: "iget D ino s = Done i (upd_inode i (\<lambda>_. x) s)" "i < NINODE" "caches D ino x"
    "icache_ok (upd_inode i (\<lambda>_. x) s)" "iref x = iref (inode_at s i) + 1"
    "if 0 < iref (inode_at s i) then x = (inode_at s i)\<lparr>iref := iref (inode_at s i) + 1\<rparr> else \<not> ivalid x" by blast
  let ?t = "upd_inode i (\<lambda>_. x) s"
  have len: "length (inodes s) = NINODE" using ok(2) by (simp add: icache_ok_def)
  have lg: "log_inv D S bl {} P ?t" "blk ?t = blk s"
    by (rule log_inv_fields [OF ok(1)]; simp add: upd_inode_def)+
  have d: "disk_inode ?t = disk_inode s" by (intro ext) (simp add: disk_inode_def lg(2), simp add: upd_inode_def)
  have a: "inode_at ?t j = (if j = i then x else inode_at s j)" for j using len x(2) by (simp add: upd_inode_def nth_list_update)
  have o: "sleeplocks ?t = sleeplocks s" "mypid ?t = mypid s" by (simp_all add: upd_inode_def mypid_def)
  have "i \<in> K \<Longrightarrow> 0 < iref (inode_at s i)" using ok(5) x(2) by blast
  then have "fs_ok D S bl P L K ?t"
    using fs_viewD(1) [OF v] x(2-6) l lg ok(3) unfolding fs_ok_def a d o by (auto simp: dinode_of_def split: if_splits)
  then have "fs_view D S bl P L K I B (rb(i := rb i + 1)) ?t"
    using fs_viewD(2-4) [OF v] x(2,5) by (simp add: fs_view_def a d lg)
  moreover have "disk ?t = disk s" by (simp add: upd_inode_def)
  ultimately show ?thesis using x(1-3) a by auto
qed

text \<open>A step on one slot of the inode cache: its new contents, its lock and its reference count.\<close>

lemma slot_step:
  assumes v: "fs_view D S bl P L K I B rb s"
    and lg: "log_inv D S bl {} P t" "blk t = blk s" "sb t = sb s" "mypid t = mypid s" "inodes t = (inodes s)[ip := x]"
      "\<forall>j. sleeplocks t (SL_inode j) = (if j = ip then l else sleeplocks s (SL_inode j))"
    and ip: "ip < NINODE" "0 < iref (inode_at s ip)"
    and x: "idev x = idev (inode_at s ip)" "inum x = inum (inode_at s ip)" "iref x = iref (inode_at s ip) + k" "0 \<le> iref x"
      "ivalid x \<longrightarrow> dinode_of x = I (inum (inode_at s ip))"
    and K: "K - {ip} = K' - {ip}"
      "if ip \<in> K' then l = \<lparr>locked_sl = True, pid_sl = mypid s\<rparr> \<and> ivalid x \<and> 0 < iref x else \<not> locked_sl l"
  shows "fs_view D S bl P L K' I B (rb(ip := rb ip + k)) t"
proof -
  note ok = fs_okD [OF fs_viewD(1) [OF v]]
  have len: "length (inodes s) = NINODE" using ok(2) by (simp add: icache_ok_def)
  have d: "disk_inode t = disk_inode s" by (intro ext) (simp add: disk_inode_def lg(2,3))
  have a: "inode_at t j = (if j = ip then x else inode_at s j)" for j using len ip(1) by (simp add: lg(5) nth_list_update)
  have ic: "icache_ok t" using ok(2) x ip len unfolding icache_ok_def a by (auto simp: lg(5))
  have lk: "if j \<in> K' then sleeplocks t (SL_inode j) = \<lparr>locked_sl = True, pid_sl = mypid s\<rparr> \<and> ivalid (inode_at t j) \<and> 0 < iref (inode_at t j)
         else \<not> locked_sl (sleeplocks t (SL_inode j))" if "j < NINODE" for j
  proof (cases "j = ip")
    case True
    then show ?thesis using K(2) lg(6) by (simp add: a)
  next
    case False
    then have "j \<in> K \<longleftrightarrow> j \<in> K'" using K(1) by blast
    then show ?thesis using False ok(5,6) [OF that] lg(6) by (simp add: a)
  qed
  have rf: "idev (inode_at t j) = D \<and> inum (inode_at t j) \<in> L
      \<and> (ivalid (inode_at t j) \<longrightarrow> dinode_of (inode_at t j) = disk_inode s (inum (inode_at t j)))"
    if "j < NINODE" "0 < iref (inode_at t j)" for j
    using that x ip ok(7,8) [of j] ok(7) [OF ip] fs_viewD(2) [OF v] by (cases "j = ip") (simp_all add: a)
  have "fs_ok D S bl P L K' t" using lg(1,2) ic ok(3) lk rf by (simp add: fs_ok_def d lg(4))
  then show ?thesis using fs_viewD(2-4) [OF v] x(3) ip(1) by (simp add: fs_view_def d lg(2) a)
qed

lemma iunlock_step:
  assumes v: "fs_view D S bl P L {ip} I B rb s" and ip: "ip < NINODE"
  shows "\<exists>t. iunlock (Some ip) s = Done () t \<and> fs_view D S bl P L {} I B rb t \<and> inodes t = inodes s \<and> disk t = disk s"
proof -
  note ok = fs_okD [OF fs_viewD(1) [OF v]]
  obtain p where p: "cur s = Some p" "held s = {}" "length (procs s) = NPROC" using ok(4) by (auto simp: calm_def)
  let ?t = "(set_sl (SL_inode ip) False 0 s)\<lparr>procs := map (awaken (Ch_sleep (SL_inode ip))) (procs s)\<rparr>"
  have "iunlock (Some ip) s = Done () ?t"
    using ok(5) [OF ip] p holdingsleep_Done [of s p "SL_inode ip"] releasesleep_Done [of s "SL_inode ip"] by (simp add: iunlock_def)
  moreover have r: "0 < iref (inode_at s ip)" "dinode_of (inode_at s ip) = disk_inode s (inum (inode_at s ip))"
    using ok(5,8) [OF ip] by simp_all
  moreover have "fs_view D S bl P L {} I B (rb(ip := rb ip + 0)) ?t"
  proof (rule slot_step [where x = "inode_at s ip" and l = "\<lparr>locked_sl = False, pid_sl = 0\<rparr>", OF v _ _ _ _ _ _ ip])
    show "log_inv D S bl {} P ?t" "blk ?t = blk s" by (rule log_inv_fields [OF ok(1)]; simp add: set_sl_def awaken_def)+
    show "mypid ?t = mypid s" using p ok(4) by (auto simp: mypid_def set_sl_def awaken_def calm_def)
  qed (use r fs_viewD(2) [OF v] in \<open>simp_all add: set_sl_def\<close>)
  ultimately show ?thesis by (simp add: set_sl_def)
qed

lemma iput_step:
  assumes v: "fs_view D S bl P L {} I B rb s" and ip: "ip < NINODE" "0 < rb ip"
  shows "\<exists>t. iput ip s = Done () t \<and> fs_view D S bl P L {} I B (rb(ip := rb ip - 1)) t \<and> map inum (inodes t) = map inum (inodes s)
    \<and> disk t = disk s"
proof -
  note ok = fs_okD [OF fs_viewD(1) [OF v]]
  have h: "held s = {}" using ok(4) by (simp add: calm_def)
  have r: "iref (inode_at s ip) = rb ip" by (rule fs_viewD(4) [OF v ip(1)])
  let ?x = "(inode_at s ip)\<lparr>iref := iref (inode_at s ip) - 1\<rparr>"
  have "ivalid (inode_at s ip) \<Longrightarrow> nlink (inode_at s ip) \<noteq> 0" using live_inode(2) [OF v ip] .
  then have "iput ip s = Done () (upd_inode ip (\<lambda>_. ?x) s)" using h by (auto simp: iput_def upd_inode_def)
  moreover have "fs_view D S bl P L {} I B (rb(ip := rb ip + - 1)) (upd_inode ip (\<lambda>_. ?x) s)"
  proof (rule slot_step [OF v _ _ _ _ _ _ ip(1)])
    show "log_inv D S bl {} P (upd_inode ip (\<lambda>_. ?x) s)" "blk (upd_inode ip (\<lambda>_. ?x) s) = blk s"
      by (rule log_inv_fields [OF ok(1)]; simp add: upd_inode_def)+
    show "if ip \<in> {} then sleeplocks s (SL_inode ip) = \<lparr>locked_sl = True, pid_sl = mypid s\<rparr> \<and> ivalid ?x \<and> 0 < iref ?x
          else \<not> locked_sl (sleeplocks s (SL_inode ip))" using ok(6) [OF ip(1)] by simp
  qed (use r ip(2) ok(8) [OF ip(1)] fs_viewD(2) [OF v] in \<open>simp_all add: upd_inode_def mypid_def dinode_of_def\<close>)
  moreover have "map inum (inodes (upd_inode ip (\<lambda>_. ?x) s)) = map inum (inodes s)"
    by (simp add: upd_inode_def map_update) (metis list_update_id map_update)
  ultimately show ?thesis by (simp add: upd_inode_def)
qed

lemma ilock_step:
  assumes v: "fs_view D S bl P L {} I B rb s" and ip: "ip < NINODE" "0 < rb ip"
  shows "\<exists>t. ilock (Some ip) s = Done () t \<and> fs_view D S bl P L {ip} I B rb t \<and> inum (inode_at t ip) = inum (inode_at s ip) \<and> disk t = disk s"
proof -
  note ok = fs_okD [OF fs_viewD(1) [OF v]]
  obtain p where p: "cur s = Some p" "held s = {}" using ok(4) by (auto simp: calm_def)
  have r: "0 < iref (inode_at s ip)" using fs_viewD(4) [OF v ip(1)] ip(2) by simp
  let ?s = "set_sl (SL_inode ip) True (mypid s) s" and ?n = "IBLOCK (unat (inum (inode_at s ip))) (sb s)"
  have a: "acquiresleep (SL_inode ip) s = Done () ?s" using acquiresleep_Done [OF p(1)] ok(6) [OF ip(1)] p(2) by simp
  show ?thesis
  proof (cases "ivalid (inode_at s ip)")
    case True
    have "fs_view D S bl P L {ip} I B (rb(ip := rb ip + 0)) ?s"
    proof (rule slot_step [OF v _ _ _ _ _ _ ip(1) r])
      show "log_inv D S bl {} P ?s" "blk ?s = blk s" by (rule log_inv_fields [OF ok(1)]; simp add: set_sl_def)+
    qed (use r True ok(8) [OF ip(1)] fs_viewD(2) [OF v] in \<open>simp_all add: set_sl_def mypid_def\<close>)
    then show ?thesis using a r True by (simp add: ilock_def) (simp add: set_sl_def)
  next
    case False
    have l0: "log_inv D S bl {} P ?s" "blk ?s = blk s" by (rule log_inv_fields [OF ok(1)]; simp add: set_sl_def)+
    obtain b s1 where 1: "bread D ?n ?s = Done b s1" "bdata (buf_at s1 b) = blk s ?n" "bio_frame ?s s1" "log_inv D S bl {b} P s1"
      "b \<in> P \<or> bdata (buf_at s1 b) = disk s1 (blockno (buf_at s1 b))" "blk s1 = blk s" "disk s1 = disk s"
      using open_block [OF l0(1), of ?n] unfolding l0(2) by (auto simp: set_sl_def)
    let ?di = "disk_inode s (inum (inode_at s ip))"
    let ?f = "\<lambda>x. x\<lparr>itype := d_type ?di, imajor := d_major ?di, iminor := d_minor ?di, nlink := d_nlink ?di, isize := d_size ?di, addrs := d_addrs ?di\<rparr>"
    let ?s2 = "upd_inode ip ?f s1"
    have in1: "inodes s1 = inodes s" "sb s1 = sb s" using frame_fs [OF 1(3)] by (simp_all add: set_sl_def)
    have l2: "log_inv D S bl {b} P ?s2" "blk ?s2 = blk s1" by (rule log_inv_fields [OF 1(4)]; simp add: upd_inode_def)+
    obtain t where t: "brelse b ?s2 = Done () t" "read_only D S bl P ?s2 t" using close_block [OF l2(1)] 1(5) by (auto simp: upd_inode_def)
    have it: "inodes t = (inodes s)[ip := ?f (inode_at s ip)]" "sb t = sb s" using file_same(1,2) [OF t(2)] by (simp_all add: upd_inode_def in1)
    let ?x = "(?f (inode_at s ip))\<lparr>ivalid := True\<rparr>"
    let ?t = "upd_inode ip (\<lambda>x. x\<lparr>ivalid := True\<rparr>) t"
    have len: "length (inodes s) = NINODE" using ok(2) by (simp add: icache_ok_def)
    have ty: "d_type ?di \<noteq> 0" using fs_viewD(2,5) [OF v] ok(7) [OF ip(1) r] by (simp add: live_def)
    have e: "get_dinode (blk s ?n) (unat (inum (inode_at s ip)) mod 16 * 64) = ?di" by (simp add: disk_inode_def)
    have s0: "inodes ?s = inodes s" "sb ?s = sb s" by (simp_all add: set_sl_def)
    have at: "inode_at ?t ip = ?x" using ip(1) len by (simp add: upd_inode_def it)
    have run: "ilock (Some ip) s = Done () ?t"
      using r False ok(7) [OF ip(1) r] ty at by (simp add: ilock_def a s0 1(1,2) in1 e t(1) Let_def)
    have "fs_view D S bl P L {ip} I B (rb(ip := rb ip + 0)) ?t"
    proof (rule slot_step [OF v _ _ _ _ _ _ ip(1) r])
      show "log_inv D S bl {} P ?t" by (rule log_inv_fields [OF read_onlyD(1) [OF t(2)]]; simp add: upd_inode_def)+
      have "blk ?t = blk t" by (rule log_inv_fields [OF read_onlyD(1) [OF t(2)]]; simp add: upd_inode_def)+
      then show "blk ?t = blk s" using file_same(3) [OF t(2)] l2(2) 1(6) by simp
      show "inodes ?t = (inodes s)[ip := ?x]" "sb ?t = sb s" using ip(1) len by (simp_all add: upd_inode_def it)
      show "mypid ?t = mypid s" using bio_frame_mypid [OF 1(3)] bio_frame_mypid [OF read_onlyD(3) [OF t(2)]] ok(4)
          bio_frame_calm [OF 1(3)] by (simp add: mypid_def calm_def set_sl_def upd_inode_def)
      show "\<forall>j. sleeplocks ?t (SL_inode j) = (if j = ip then \<lparr>locked_sl = True, pid_sl = mypid s\<rparr> else sleeplocks s (SL_inode j))"
        using 1(3) read_onlyD(3) [OF t(2)] by (simp add: bio_frame_def upd_inode_def set_sl_def)
    qed (use r fs_viewD(2) [OF v] in \<open>simp_all add: dinode_of_def\<close>)
    moreover have "disk ?t = disk s" using t(2) 1(7) by (simp add: read_only_def upd_inode_def)
    ultimately show ?thesis using run at by simp
  qed
qed

lemma dirlookup_step:
  assumes v: "fs_view D S bl P L {ip} I B rb s" and ip: "ip < NINODE" and ty: "itype (inode_at s ip) = T_DIR" and n: "length name = DIRSIZ"
    and room: "\<exists>i<NINODE. rb i = 0"
  shows "\<exists>t. disk t = disk s \<and> (case dir_lookup B (I (inum (inode_at s ip))) (cstr name) of
      None \<Rightarrow> dirlookup ip name s = Done None t \<and> fs_view D S bl P L {ip} I B rb t
    | Some ino \<Rightarrow> \<exists>i off. dirlookup ip name s = Done (Some (i, off)) t \<and> i < NINODE \<and> inum (inode_at t i) = ino
        \<and> fs_view D S bl P L {ip} I B (rb(i := rb i + 1)) t)"
proof -
  note ok = fs_okD [OF fs_viewD(1) [OF v]]
  let ?di = "I (inum (inode_at s ip))"
  have l: "0 < iref (inode_at s ip)" "ivalid (inode_at s ip)" using ok(5) [OF ip] by simp_all
  then have "0 < rb ip" using fs_viewD(4) [OF v ip] by simp
  then have e: "dinode_of (inode_at s ip) = ?di" using live_inode(1) [OF v ip] l by simp
  have a: "addrs (inode_at s ip) = d_addrs ?di" "isize (inode_at s ip) = d_size ?di" "d_type ?di = T_DIR"
    unfolding e [symmetric] using ty by (simp_all add: dinode_of_def)
  have lv: "inum (inode_at s ip) \<in> L" "idev (inode_at s ip) = D" using ok(7) [OF ip l(1)] by simp_all
  then have w: "16 dvd unat (d_size ?di)" "mapped B (d_addrs ?di) (unat (d_size ?di))"
    "\<And>m j. dir_lookup B ?di m = Some j \<Longrightarrow> j \<in> L" using fs_viewD(5) [OF v] a(3) by (simp_all add: live_def)
  let ?N = "unat (d_size ?di) div 16" and ?e = "dir_entry B (d_addrs ?di)"
  have N: "16 * ?N = unat (d_size ?di)" using w(1) by simp
  have "directory D s ip ?N" using w(2) N a ty lv fs_viewD(3) [OF v] by (simp add: directory_def mapped_inode_def)
  from dirlookup_loop_run [OF ok(1) this n, of 0 ?N] obtain u where u: "read_only D S bl P s u"
    "dirlookup_loop ip name (16 * ?N) (16 * 0) s = (case find (\<lambda>i. named (cstr name) (dirent s ip i)) [0..<0 + ?N] of None \<Rightarrow> Done None u
      | Some i \<Rightarrow> andthen (iget D (ucast (fst (dirent s ip i))) u) (\<lambda>ip s. Done (Some (ip, 16 * i)) s))" by auto
  have de: "dirent s ip = ?e" using a(1) fs_viewD(3) [OF v] by simp
  have lu: "dirlookup ip name s = (case find (\<lambda>i. named (cstr name) (?e i)) [0..<?N] of None \<Rightarrow> Done None u
      | Some i \<Rightarrow> andthen (iget D (ucast (fst (?e i))) u) (\<lambda>ip s. Done (Some (ip, 16 * i)) s))"
    using u(2) [unfolded de] ty a(2) N by (simp add: dirlookup_def)
  have vu: "fs_view D S bl P L {ip} I B rb u" by (rule read_only_view [OF v u(1)])
  have du: "disk u = disk s" using u(1) by (simp add: read_only_def)
  show ?thesis
  proof (cases "find (\<lambda>i. named (cstr name) (?e i)) [0..<?N]")
    case None
    then show ?thesis using lu vu du by (intro exI [of _ u]) (simp add: dir_lookup_def)
  next
    case (Some j)
    then have f: "dir_lookup B ?di (cstr name) = Some (ucast (fst (?e j)))" by (simp add: dir_lookup_def)
    obtain i t where "iget D (ucast (fst (?e j))) u = Done i t" "i < NINODE" "inum (inode_at t i) = ucast (fst (?e j))"
      "fs_view D S bl P L {ip} I B (rb(i := rb i + 1)) t" "disk t = disk u"
      using iget_step [OF vu w(3) [OF f] room] by blast
    then show ?thesis using Some lu f du by (intro exI [of _ t]) simp
  qed
qed

lemma iunlockput_step:
  assumes v: "fs_view D S bl P L {ip} I B rb s" and ip: "ip < NINODE" "0 < rb ip"
  shows "\<exists>t. iunlockput ip s = Done () t \<and> fs_view D S bl P L {} I B (rb(ip := rb ip - 1)) t \<and> map inum (inodes t) = map inum (inodes s)
    \<and> disk t = disk s"
proof -
  obtain u where u: "iunlock (Some ip) s = Done () u" "fs_view D S bl P L {} I B rb u" "inodes u = inodes s" "disk u = disk s"
    using iunlock_step [OF v ip(1)] by blast
  show ?thesis using iput_step [OF u(2) ip] u by (simp add: iunlockput_def)
qed

text \<open>The walk of \<open>namex\<close> over the names of a path.\<close>

fun walk :: "(u32 \<Rightarrow> dinode) \<Rightarrow> (u32 \<Rightarrow> u8 list) \<Rightarrow> bool \<Rightarrow> u32 \<Rightarrow> u8 list list \<Rightarrow> u32 option" where
  "walk I B par ino [] = (if par then None else Some ino)"
| "walk I B par ino (n # ns) =
     (if d_type (I ino) \<noteq> T_DIR then None else if par \<and> ns = [] then Some ino
      else case dir_lookup B (I ino) n of None \<Rightarrow> None | Some j \<Rightarrow> walk I B par j ns)"

lemma walk_resolve: "walk I B False ino ns = resolve I B ino ns"
  by (induction I B ino ns rule: resolve.induct) (simp_all split: option.split)

lemma walk_parent:
  "ns \<noteq> [] \<Longrightarrow> walk I B True ino ns = (case resolve I B ino (butlast ns) of None \<Rightarrow> None | Some j \<Rightarrow> if d_type (I j) = T_DIR then Some j else None)"
  by (induction I B ino ns rule: resolve.induct) (simp_all split: option.split)

lemma skipelem_None: "skipelem p name = None \<Longrightarrow> elements p = []"
proof -
  assume "skipelem p name = None"
  then have "dropWhile (\<lambda>c. c = slash) p = []" by (simp add: skipelem_def Let_def split: if_splits)
  then show ?thesis using elements_slashes [of p] by (simp only:) (simp add: elements_def)
qed

lemma skipelem_rest: "skipelem p name = Some (q, m) \<Longrightarrow> elements q = [] \<longleftrightarrow> q = []"
proof -
  assume "skipelem p name = Some (q, m)"
  then have q: "q = dropWhile (\<lambda>c. c = slash) (dropWhile (\<lambda>c. c \<noteq> slash) (dropWhile (\<lambda>c. c = slash) p))"
    by (auto simp: skipelem_def Let_def split: if_splits)
  show ?thesis
  proof (cases "q = []")
    case False
    then have "hd q \<noteq> slash" unfolding q by (rule hd_dropWhile)
    then show ?thesis using elements_first [OF False] False by simp
  qed (simp add: elements_def)
qed

text \<open>What \<open>namex\<close> returns in slot \<open>r\<close> after a walk that ends in \<open>w\<close>: a reference to that inode, and none to any other.\<close>

definition arrives :: "(u32 option \<Rightarrow> nat option \<Rightarrow> (nat \<Rightarrow> int) \<Rightarrow> (nat \<Rightarrow> int) \<Rightarrow> 'a fs_state_scheme \<Rightarrow> bool)" where
  "arrives w r rb rb' t \<longleftrightarrow> (case w of None \<Rightarrow> r = None \<and> rb' = rb
     | Some j \<Rightarrow> \<exists>i. r = Some i \<and> i < NINODE \<and> inum (inode_at t i) = j \<and> rb' = rb(i := rb i + 1))"

lemma ref_back: "(f(i := f i + 1))(i := (f(i := f i + 1)) i - 1) = (f :: nat \<Rightarrow> int)"
  by auto

lemma ref_swap: "(f(p := f p + 1, i := (f(p := f p + 1)) i + 1))(p := (f(p := f p + 1, i := (f(p := f p + 1)) i + 1)) p - 1) = (f(i := f i + 1) :: nat \<Rightarrow> int)"
  by (intro ext) auto

text \<open>One round of the loop of \<open>namex\<close>, from the locked directory in slot \<open>ip\<close>.\<close>

lemma namex_round:
  assumes v: "fs_view D S bl P L {ip} I B (rb(ip := rb ip + 1)) s" and ip: "ip < NINODE" "0 \<le> rb ip"
    and ty: "itype (inode_at s ip) = T_DIR" and n: "length m = DIRSIZ" and room: "\<forall>ip. \<exists>i<NINODE. i \<noteq> ip \<and> rb i = 0"
  shows "\<exists>u t. disk t = disk s \<and> iunlockput ip u = Done () t \<and> (case dir_lookup B (I (inum (inode_at s ip))) (cstr m) of
      None \<Rightarrow> dirlookup ip m s = Done None u \<and> fs_view D S bl P L {} I B rb t
    | Some j \<Rightarrow> \<exists>i off. dirlookup ip m s = Done (Some (i, off)) u \<and> i < NINODE \<and> inum (inode_at t i) = j
        \<and> fs_view D S bl P L {} I B (rb(i := rb i + 1)) t)"
proof -
  let ?rb = "rb(ip := rb ip + 1)" and ?l = "dir_lookup B (I (inum (inode_at s ip))) (cstr m)"
  have "\<exists>i<NINODE. ?rb i = 0" using room by (metis fun_upd_other)
  from dirlookup_step [OF v ip(1) ty n this] obtain u where u: "disk u = disk s"
    "case ?l of None \<Rightarrow> dirlookup ip m s = Done None u \<and> fs_view D S bl P L {ip} I B ?rb u
     | Some j \<Rightarrow> \<exists>i off. dirlookup ip m s = Done (Some (i, off)) u \<and> i < NINODE \<and> inum (inode_at u i) = j
         \<and> fs_view D S bl P L {ip} I B (?rb(i := ?rb i + 1)) u" by blast
  show ?thesis
  proof (cases ?l)
    case None
    then have l: "dirlookup ip m s = Done None u" "fs_view D S bl P L {ip} I B ?rb u" using u(2) by (simp_all del: fun_upd_apply)
    have "0 < ?rb ip" using ip(2) by simp
    from iunlockput_step [OF l(2) ip(1) this, unfolded ref_back] show ?thesis using l(1) None u(1) by auto
  next
    case (Some j)
    then obtain i off where i: "dirlookup ip m s = Done (Some (i, off)) u" "i < NINODE" "inum (inode_at u i) = j"
      "fs_view D S bl P L {ip} I B (?rb(i := ?rb i + 1)) u" using u(2) by auto
    have "0 < (?rb(i := ?rb i + 1)) ip" using ip(2) by auto
    from iunlockput_step [OF i(4) ip(1) this, unfolded ref_swap] obtain t where t: "iunlockput ip u = Done () t"
      "fs_view D S bl P L {} I B (rb(i := rb i + 1)) t" "map inum (inodes t) = map inum (inodes u)" "disk t = disk u" by blast
    have "length (inodes t) = NINODE" "length (inodes u) = NINODE"
      using fs_okD(2) [OF fs_viewD(1) [OF t(2)]] fs_okD(2) [OF fs_viewD(1) [OF i(4)]] by (simp_all add: icache_ok_def)
    then have "inum (inode_at t i) = j" using i(2,3) arg_cong [of _ _ "\<lambda>xs. xs ! i", OF t(3)] by simp
    then show ?thesis using t i(1,2) u(1) Some by (auto simp del: fun_upd_apply)
  qed
qed

lemma namex_loop_end:
  assumes v: "fs_view D S bl P L {} I B (rb(ip := rb ip + 1)) s" and ip: "ip < NINODE" "0 \<le> rb ip" and e: "skipelem path name = None"
  shows "\<exists>r rb' t. namex_loop ip path name par s = Done (r, name) t \<and> disk t = disk s \<and> fs_view D S bl P L {} I B rb' t
    \<and> arrives (if par then None else Some (inum (inode_at s ip))) r rb rb' t"
proof (cases par)
  case True
  have "0 < (rb(ip := rb ip + 1)) ip" using ip(2) by simp
  from iput_step [OF v ip(1) this, unfolded ref_back] obtain t where
    t: "iput ip s = Done () t" "fs_view D S bl P L {} I B rb t" "disk t = disk s" by blast
  moreover have "arrives None None rb rb t" by (simp add: arrives_def)
  ultimately show ?thesis using e True by (auto simp: namex_loop.simps [of ip])
next
  case False
  have "arrives (Some (inum (inode_at s ip))) (Some ip) rb (rb(ip := rb ip + 1)) s" using ip by (simp add: arrives_def)
  then show ?thesis using e False v
    by (intro exI [of _ "Some ip"] exI [of _ "rb(ip := rb ip + 1)"] exI [of _ s]) (simp add: namex_loop.simps [of ip] del: fun_upd_apply)
qed

lemma namex_loop_lock:
  assumes v: "fs_view D S bl P L {} I B (rb(ip := rb ip + 1)) s" and ip: "ip < NINODE" "0 \<le> rb ip"
  shows "\<exists>t. ilock (Some ip) s = Done () t \<and> fs_view D S bl P L {ip} I B (rb(ip := rb ip + 1)) t
    \<and> inum (inode_at t ip) = inum (inode_at s ip) \<and> itype (inode_at t ip) = d_type (I (inum (inode_at s ip))) \<and> disk t = disk s"
proof -
  have pos: "0 < (rb(ip := rb ip + 1)) ip" using ip(2) by simp
  from ilock_step [OF v ip(1) this] obtain t where t: "ilock (Some ip) s = Done () t" "fs_view D S bl P L {ip} I B (rb(ip := rb ip + 1)) t"
    "inum (inode_at t ip) = inum (inode_at s ip)" "disk t = disk s" by blast
  have "I (inum (inode_at s ip)) = dinode_of (inode_at t ip)"
    using live_inode(1) [OF t(2) ip(1) pos] fs_okD(5) [OF fs_viewD(1) [OF t(2)] ip(1)] t(3) by simp
  then have "itype (inode_at t ip) = d_type (I (inum (inode_at s ip)))" by (simp only: dinode_of_def dinode.simps)
  then show ?thesis using t by blast
qed

lemma namex_loop_run:
  assumes "fs_view D S bl P L {} I B (rb(ip := rb ip + 1)) s" "ip < NINODE" "0 \<notin> set path" "length name = DIRSIZ"
    and room: "\<forall>ip. \<exists>i<NINODE. i \<noteq> ip \<and> rb i = 0" and nn: "\<forall>i<NINODE. 0 \<le> rb i"
  shows "\<exists>r m rb' t. namex_loop ip path name par s = Done (r, m) t \<and> disk t = disk s \<and> fs_view D S bl P L {} I B rb' t
    \<and> arrives (walk I B par (inum (inode_at s ip)) (map (take DIRSIZ) (elements path))) r rb rb' t
    \<and> (par \<and> r \<noteq> None \<longrightarrow> cstr m = take DIRSIZ (last (elements path)))"
  using assms(1-4)
proof (induction path arbitrary: ip name s rule: length_induct)
  case (1 path)
  note v = 1(2) and ip = 1(3)
  have rb: "0 \<le> rb ip" using nn ip by simp
  show ?case
  proof (cases "skipelem path name")
    case None
    then have "elements path = []" by (rule skipelem_None)
    with namex_loop_end [OF v ip rb None, of par] show ?thesis by (auto simp: arrives_def)
  next
    case (Some qm)
    obtain q m where qm: "qm = (q, m)" by (cases qm)
    note sk = Some [unfolded qm]
    obtain e where e: "elements path = e # elements q" "cstr m = take DIRSIZ e" "length m = DIRSIZ" "0 \<notin> set q"
      using skipelem_elements [OF sk 1(4,5)] by blast
    let ?ino = "inum (inode_at s ip)"
    obtain s1 where s1: "ilock (Some ip) s = Done () s1" "fs_view D S bl P L {ip} I B (rb(ip := rb ip + 1)) s1"
      "inum (inode_at s1 ip) = ?ino" "itype (inode_at s1 ip) = d_type (I ?ino)" "disk s1 = disk s" using namex_loop_lock [OF v ip rb] by blast
    note step = namex_loop.simps [of ip path name par s, unfolded sk s1(1), simplified]
    have pq: "elements q = [] \<longleftrightarrow> q = []" by (rule skipelem_rest [OF sk])
    consider (nodir) "itype (inode_at s1 ip) \<noteq> T_DIR" | (parent) "itype (inode_at s1 ip) = T_DIR" "par" "q = []"
      | (look) "itype (inode_at s1 ip) = T_DIR" "\<not> (par \<and> q = [])" by blast
    then show ?thesis
    proof cases
      case nodir
      have "0 < (rb(ip := rb ip + 1)) ip" using rb by simp
      from iunlockput_step [OF s1(2) ip this, unfolded ref_back] nodir show ?thesis using step e(1) s1(4,5) by (auto simp: arrives_def)
    next
      case parent
      obtain t where "iunlock (Some ip) s1 = Done () t" "fs_view D S bl P L {} I B (rb(ip := rb ip + 1)) t" "inodes t = inodes s1" "disk t = disk s1"
        using iunlock_step [OF s1(2) ip] by blast
      moreover have "arrives (Some ?ino) (Some ip) rb (rb(ip := rb ip + 1)) t" using calculation s1(3) ip by (simp add: arrives_def)
      ultimately show ?thesis using parent pq step e(1,2) s1(4,5) by (intro exI) auto
    next
      case look
      from namex_round [OF s1(2) ip rb look(1) e(3) room] obtain u t where t: "disk t = disk s1" "iunlockput ip u = Done () t"
        "case dir_lookup B (I ?ino) (take DIRSIZ e) of None \<Rightarrow> dirlookup ip m s1 = Done None u \<and> fs_view D S bl P L {} I B rb t
         | Some j \<Rightarrow> \<exists>i off. dirlookup ip m s1 = Done (Some (i, off)) u \<and> i < NINODE \<and> inum (inode_at t i) = j
             \<and> fs_view D S bl P L {} I B (rb(i := rb i + 1)) t" unfolding s1(3) e(2) by blast
      show ?thesis
      proof (cases "dir_lookup B (I ?ino) (take DIRSIZ e)")
        case None
        then show ?thesis using step look t e(1) s1(4,5) pq by (auto simp: arrives_def)
      next
        case (Some j)
        then obtain i off where i: "dirlookup ip m s1 = Done (Some (i, off)) u" "i < NINODE" "inum (inode_at t i) = j"
          "fs_view D S bl P L {} I B (rb(i := rb i + 1)) t" using t(3) by auto
        from 1(1) [rule_format, OF skipelem_shorter [OF sk] i(4,2) e(4,3)] obtain r k rb' t' where
          "namex_loop i q m par t = Done (r, k) t'" "disk t' = disk t" "fs_view D S bl P L {} I B rb' t'"
          "arrives (walk I B par j (map (take DIRSIZ) (elements q))) r rb rb' t'"
          "par \<and> r \<noteq> None \<longrightarrow> cstr k = take DIRSIZ (last (elements q))" unfolding i(3) by blast
        then show ?thesis using step look e(1) s1(4,5) t(1,2) i(1) Some pq by (intro exI) auto
      qed
    qed
  qed
qed

text \<open>Where the resolution of a path starts: at the root, or in the current directory of the process.\<close>

definition starts :: "u32 \<Rightarrow> u32 set \<Rightarrow> (nat \<Rightarrow> int) \<Rightarrow> 'a fs_state_scheme \<Rightarrow> u8 list \<Rightarrow> u32 \<Rightarrow> bool" where
  "starts D L rb s path ino \<longleftrightarrow>
     (if path \<noteq> [] \<and> hd path = slash then D = ROOTDEV \<and> ino = ROOTINO \<and> ino \<in> L
      else \<exists>d<NINODE. cwd (proc_at s (the (cur s))) = Some d \<and> 0 < rb d \<and> ino = inum (inode_at s d))"

lemma idup_step:
  assumes v: "fs_view D S bl P L {} I B rb s" and ip: "ip < NINODE" "0 < rb ip"
  shows "\<exists>t. idup ip s = Done ip t \<and> fs_view D S bl P L {} I B (rb(ip := rb ip + 1)) t \<and> inum (inode_at t ip) = inum (inode_at s ip) \<and> disk t = disk s"
proof -
  note ok = fs_okD [OF fs_viewD(1) [OF v]]
  have h: "held s = {}" using ok(4) by (simp add: calm_def)
  have len: "length (inodes s) = NINODE" using ok(2) by (simp add: icache_ok_def)
  have r: "iref (inode_at s ip) = rb ip" by (rule fs_viewD(4) [OF v ip(1)])
  let ?x = "(inode_at s ip)\<lparr>iref := iref (inode_at s ip) + 1\<rparr>"
  let ?t = "upd_inode ip (\<lambda>_. ?x) s"
  have "idup ip s = Done ip ?t" using h by (simp add: idup_def upd_inode_def)
  moreover have "fs_view D S bl P L {} I B (rb(ip := rb ip + 1)) ?t"
  proof (rule slot_step [OF v _ _ _ _ _ _ ip(1)])
    show "log_inv D S bl {} P ?t" "blk ?t = blk s"
      by (rule log_inv_fields [OF ok(1)]; simp add: upd_inode_def)+
    show "if ip \<in> {} then sleeplocks s (SL_inode ip) = \<lparr>locked_sl = True, pid_sl = mypid s\<rparr> \<and> ivalid ?x \<and> 0 < iref ?x
          else \<not> locked_sl (sleeplocks s (SL_inode ip))" using ok(6) [OF ip(1)] by simp
  qed (use r ip(2) ok(8) [OF ip(1)] fs_viewD(2) [OF v] in \<open>simp_all add: upd_inode_def mypid_def dinode_of_def\<close>)
  ultimately show ?thesis using ip(1) len by (simp add: upd_inode_def)
qed

lemma namex_run:
  assumes v: "fs_view D S bl P L {} I B rb s" and z: "0 \<notin> set path" "length name = DIRSIZ"
    and room: "\<forall>ip. \<exists>i<NINODE. i \<noteq> ip \<and> rb i = 0" and st: "starts D L rb s path ino"
  shows "\<exists>r m rb' t. namex path par name s = Done (r, m) t \<and> disk t = disk s \<and> fs_view D S bl P L {} I B rb' t
    \<and> arrives (walk I B par ino (map (take DIRSIZ) (elements path))) r rb rb' t
    \<and> (par \<and> r \<noteq> None \<longrightarrow> cstr m = take DIRSIZ (last (elements path)))"
proof -
  have nn: "\<forall>i<NINODE. 0 \<le> rb i"
    using fs_okD(2) [OF fs_viewD(1) [OF v]] fs_viewD(4) [OF v] by (auto simp: icache_ok_def)
  obtain p where p: "cur s = Some p" using fs_okD(4) [OF fs_viewD(1) [OF v]] by (auto simp: calm_def)
  have "\<exists>ip t. (if path \<noteq> [] \<and> hd path = slash then iget ROOTDEV ROOTINO s
      else with_proc s (\<lambda>p. case cwd (proc_at s p) of None \<Rightarrow> Panic ''kerneltrap'' | Some d \<Rightarrow> idup d s)) = Done ip t
      \<and> ip < NINODE \<and> fs_view D S bl P L {} I B (rb(ip := rb ip + 1)) t \<and> inum (inode_at t ip) = ino \<and> disk t = disk s"
  proof (cases "path \<noteq> [] \<and> hd path = slash")
    case True
    have f: "\<exists>i<NINODE. rb i = 0" using room by blast
    show ?thesis using iget_step [OF v _ f] st True by (simp add: starts_def) blast
  next
    case False
    then obtain d where d: "d < NINODE" "cwd (proc_at s p) = Some d" "0 < rb d" "ino = inum (inode_at s d)"
      using st p by (auto simp: starts_def)
    then show ?thesis using idup_step [OF v d(1,3)] False p by (simp add: with_proc_def) blast
  qed
  then obtain ip t where t: "ip < NINODE" "fs_view D S bl P L {} I B (rb(ip := rb ip + 1)) t" "inum (inode_at t ip) = ino" "disk t = disk s"
    "namex path par name s = namex_loop ip path name par t" unfolding namex_def by auto
  from namex_loop_run [OF t(2,1) z room nn, of par] show ?thesis unfolding t(3-5) .
qed

text \<open>C3: path resolution. On a file system whose inode cache agrees with the disk, with two slots of the cache unused, \<open>namei\<close> returns
  the inode that following the elements of the path through the directories on disk leads to, each cut to \<open>DIRSIZ\<close> bytes, and
  fails where that leads nowhere; it gains one reference to the result and none to any other inode, leaves every inode
  unlocked, and writes nothing.\<close>

theorem namei_resolves:
  assumes "fs_view D S bl P L {} I B rb s" and "0 \<notin> set path" and "\<forall>ip. \<exists>i<NINODE. i \<noteq> ip \<and> rb i = 0" and "starts D L rb s path ino"
  shows "\<exists>r rb' t. namei path s = Done r t \<and> fs_view D S bl P L {} I B rb' t \<and> disk t = disk s
    \<and> arrives (resolve I B ino (map (take DIRSIZ) (elements path))) r rb rb' t"
proof -
  have "length (replicate DIRSIZ (0 :: u8)) = DIRSIZ" by simp
  from namex_run [OF assms(1,2) this assms(3,4), of False] show ?thesis
    unfolding walk_resolve by (force simp: namei_def)
qed

text \<open>C9: \<open>nameiparent\<close> returns the directory that all elements of the path but the last lead to, with the last one copied to
  \<open>name\<close>, and fails on a path without elements and where the parent is no directory.\<close>

theorem nameiparent_resolves:
  assumes "fs_view D S bl P L {} I B rb s" and "0 \<notin> set path" and "\<forall>ip. \<exists>i<NINODE. i \<noteq> ip \<and> rb i = 0" and "starts D L rb s path ino"
    and "length name = DIRSIZ" and "es = map (take DIRSIZ) (elements path)"
  shows "\<exists>r m rb' t. nameiparent path name s = Done (r, m) t \<and> fs_view D S bl P L {} I B rb' t \<and> disk t = disk s
    \<and> arrives (if es = [] then None else case resolve I B ino (butlast es) of None \<Rightarrow> None | Some j \<Rightarrow> if d_type (I j) = T_DIR then Some j else None)
        r rb rb' t
    \<and> (r \<noteq> None \<longrightarrow> cstr m = last es)"
proof -
  have w: "walk I B True ino es = (if es = [] then None else case resolve I B ino (butlast es) of None \<Rightarrow> None
      | Some j \<Rightarrow> if d_type (I j) = T_DIR then Some j else None)" by (simp add: walk_parent)
  from namex_run [OF assms(1,2,5,3,4), of True, folded assms(6), unfolded w] obtain r m rb' t where
    r: "namex path True name s = Done (r, m) t" "disk t = disk s" "fs_view D S bl P L {} I B rb' t"
      "arrives (if es = [] then None else case resolve I B ino (butlast es) of None \<Rightarrow> None
      | Some j \<Rightarrow> if d_type (I j) = T_DIR then Some j else None) r rb rb' t" "r \<noteq> None \<longrightarrow> cstr m = take DIRSIZ (last (elements path))" by blast
  moreover have "r \<noteq> None \<Longrightarrow> es \<noteq> []" using r(4) by (auto simp: arrives_def)
  ultimately show ?thesis using assms(6) by (auto simp: nameiparent_def last_map)
qed

section \<open>A small file system\<close>

text \<open>Inode 1 is the root directory, with the entries \<open>.\<close> and \<open>a\<close>; inode 2 is the file \<open>a\<close> of four bytes.\<close>

definition example_inodes :: "u8 list" where
  "example_inodes = replicate 64 0
     @ ([1, 0, 0, 0, 0, 0, 1, 0, 32, 0, 0, 0, 46, 0, 0, 0] @ replicate 48 0)
     @ ([2, 0, 0, 0, 0, 0, 1, 0, 4, 0, 0, 0, 47, 0, 0, 0] @ replicate 48 0) @ replicate 832 0"

definition example_files :: "u32 \<Rightarrow> u8 list" where
  "example_files n = (if n = 32 then example_inodes
     else if n = 46 then mk_dirent [46, 0] 1 @ mk_dirent [97, 0] 2 @ replicate 992 0
     else if n = 47 then [104, 105, 33, 10] @ replicate 1020 0 else replicate 1024 0)"

definition example_fs0 :: fs_state where
  "example_fs0 = log_state.extend (example_log0 example_files) (fs_state.fields example_sb
     (replicate 50 \<lparr>idev = 0, inum = 0, iref = 0, ivalid = False, itype = 0, imajor = 0, iminor = 0, nlink = 0, isize = 0, addrs = []\<rparr>))"

definition example_fs :: fs_state where
  "example_fs = binit example_fs0"

lemma example_files_inodes:
  "get_dinode example_inodes 64 = \<lparr>d_type = 1, d_major = 0, d_minor = 0, d_nlink = 1, d_size = 32, d_addrs = 46 # replicate 12 0\<rparr>"
  "get_dinode example_inodes 128 = \<lparr>d_type = 2, d_major = 0, d_minor = 0, d_nlink = 1, d_size = 4, d_addrs = 47 # replicate 12 0\<rparr>"
  by code_simp+

lemma example_dir:
  "dir_entry example_files (46 # replicate 12 0) 0 = (1, 46 # replicate 13 0)"
  "dir_entry example_files (46 # replicate 12 0) 1 = (2, 97 # replicate 13 0)"
  by code_simp+

lemma binit_loop_fs: "inodes (binit_loop b k s) = inodes s \<and> sb (binit_loop b k s) = sb s
  \<and> (\<forall>i. sleeplocks (binit_loop b k s) (SL_inode i) = sleeplocks s (SL_inode i))"
  by (induction k arbitrary: b s) (simp_all add: link_front_eq initsleeplock_def)

lemma example_fs0_simps [simp]:
  "held example_fs0 = {}" "cur example_fs0 = Some 1" "procs example_fs0 = procs example_procs"
  "bufs example_fs0 = replicate 31 zero_buf" "disk example_fs0 = example_files"
  "klog example_fs0 = klog (example_log0 example_files)" "\<not> locked_sl (sleeplocks example_fs0 l)" "sb example_fs0 = example_sb"
  "inodes example_fs0 = replicate 50 \<lparr>idev = 0, inum = 0, iref = 0, ivalid = False, itype = 0, imajor = 0, iminor = 0, nlink = 0, isize = 0, addrs = []\<rparr>"
  by (simp_all add: example_fs0_def example_log0_def example_bio0_def sl_ext_defs bio_state.defs vdisk_state.defs log_state.defs fs_state.defs)

lemma example_fs_simps:
  "klog example_fs = klog (example_log0 example_files)" "disk example_fs = example_files" "sb example_fs = example_sb"
  "inodes example_fs = inodes example_fs0" "\<not> locked_sl (sleeplocks example_fs (SL_inode i))"
  unfolding example_fs_def using binit_fields(3) [of 0 example_fs0]
  by (simp_all add: binit_def binit_loop_klog binit_loop_fs NBUF_def upd_buf_def Let_def)

lemma example_files_length: "length (example_files n) = BSIZE"
  by (simp add: example_files_def example_inodes_def)

lemma example_fs_log: "log_inv 1 2 [] {} {} example_fs" "blk example_fs = example_files"
proof -
  have c: "cache_inv 1 {} {} example_fs"
    unfolding example_fs_def by (rule binit_cache_inv) (simp_all add: calm_def NBUF_def example_files_length)
  have "get32 (example_files 2) 0 = 0" by (simp add: example_files_def get32_zeros)
  then show "log_inv 1 2 [] {} {} example_fs" using c by (simp add: log_inv_def example_fs_simps)
  show "blk example_fs = example_files" using blk_clean [OF c] by (intro ext) (simp add: example_fs_simps)
qed

lemma example_disk_inodes:
  "disk_inode example_fs 1 = \<lparr>d_type = 1, d_major = 0, d_minor = 0, d_nlink = 1, d_size = 32, d_addrs = 46 # replicate 12 0\<rparr>"
  "disk_inode example_fs 2 = \<lparr>d_type = 2, d_major = 0, d_minor = 0, d_nlink = 1, d_size = 4, d_addrs = 47 # replicate 12 0\<rparr>"
  using example_files_inodes
  by (simp_all add: disk_inode_def example_fs_log example_fs_simps example_sb_def IBLOCK_def example_files_def)

lemma example_mapped: "mapped example_files (46 # replicate 12 0) 32" "mapped example_files (47 # replicate 12 0) 4"
  by (auto simp: mapped_def data_block_def)

lemma example_lookup: "dir_lookup example_files (disk_inode example_fs 1) n = (if n = [46] then Some 1 else if n = [97] then Some 2 else None)"
proof -
  have u: "[0..<2] = [0, 1 :: nat]" by (simp add: numeral_2_eq_2)
  have c: "cstr (46 # replicate 13 0) = [46]" "cstr (97 # replicate 13 0) = [97]" by code_simp+
  show ?thesis using example_dir c by (simp add: dir_lookup_def example_disk_inodes u named_def del: replicate.simps)
qed

lemma example_view: "fs_view 1 2 [] {} {1, 2} {} (disk_inode example_fs) example_files (\<lambda>_. 0) example_fs"
proof -
  have "live (disk_inode example_fs) example_files {1, 2}"
    using example_mapped by (simp add: live_def example_lookup) (simp add: example_disk_inodes T_DIR_def)
  moreover have "icache_ok example_fs" by (simp add: icache_ok_def example_fs_simps)
  ultimately show ?thesis using example_fs_log
    by (simp add: fs_view_def fs_ok_def example_fs_simps)
qed

lemma two_slots: "\<forall>ip. \<exists>i<NINODE. i \<noteq> ip \<and> (\<lambda>_. 0 :: int) (i :: nat) = 0"
proof
  fix ip :: nat
  show "\<exists>i<NINODE. i \<noteq> ip \<and> (\<lambda>_. 0 :: int) i = 0"
    by (rule exI [of _ "if ip = 0 then 1 else 0"]) simp
qed

theorem namei_resolves_witness:
  "\<exists>i t. namei [47, 97] example_fs = Done (Some i) t \<and> inum (inode_at t i) = 2 \<and> iref (inode_at t i) = 1"
proof -
  have e: "map (take DIRSIZ) (elements [47, 97]) = [[97]]" by code_simp
  have s: "starts 1 {1, 2} (\<lambda>_. 0) example_fs [47, 97] 1" by (simp add: starts_def slash_def ROOTINO_def)
  have r: "resolve (disk_inode example_fs) example_files 1 [[97]] = Some 2"
    using example_lookup by (simp add: example_disk_inodes T_DIR_def)
  show ?thesis
    using namei_resolves [OF example_view _ two_slots s, unfolded e r] by (auto simp: arrives_def fs_view_def)
qed

theorem nameiparent_resolves_witness:
  "\<exists>i m t. nameiparent [47, 97] (replicate 14 0) example_fs = Done (Some i, m) t \<and> inum (inode_at t i) = 1 \<and> cstr m = [97]"
proof -
  have e: "[[97]] = map (take DIRSIZ) (elements [47, 97])" by code_simp
  have s: "starts 1 {1, 2} (\<lambda>_. 0) example_fs [47, 97] 1" by (simp add: starts_def slash_def ROOTINO_def)
  show ?thesis
    using nameiparent_resolves [OF example_view _ two_slots s _ e, of "replicate 14 0"]
    by (auto simp: arrives_def example_disk_inodes T_DIR_def)
qed

text \<open>C8: \<open>readi\<close> into a kernel buffer, on an inode whose blocks are all allocated and an offset within the file: it returns the
  bytes of the file from the offset on, \<open>n\<close> or as many as there are, and leaves the disk and every block as they were.\<close>

theorem readi_reads_file:
  assumes "log_inv D S bl {} P s" and "mapped_inode D s ip" and "unat off \<le> unat (isize (inode_at s ip))" and "unat off + unat n < 2 ^ 32"
  shows "\<exists>t. readi ip (BufDst []) off n s
      = Done (int (min (unat n) (unat (isize (inode_at s ip)) - unat off)),
              BufDst (take (unat n) (drop (unat off) (file_bytes s ip 0 (unat (isize (inode_at s ip))))))) t
    \<and> log_inv D S bl {} P t \<and> blk t = blk s \<and> disk t = disk s"
proof -
  have "take (unat n) (drop (unat off) (file_bytes s ip 0 (unat (isize (inode_at s ip)))))
      = file_bytes s ip (unat off) (min (unat n) (unat (isize (inode_at s ip)) - unat off))"
    using assms(3) by (simp add: data_bytes_def drop_map take_map min_def)
  then show ?thesis using readi_run [OF assms] by (auto simp: read_only_def)
qed

definition example_open :: fs_state where
  "example_open = upd_inode 0 (\<lambda>_. \<lparr>idev = 1, inum = 2, iref = 1, ivalid = True, itype = 2, imajor = 0, iminor = 0, nlink = 1,
     isize = 4, addrs = 47 # replicate 12 0\<rparr>) example_fs"

lemma example_open_inv: "log_inv 1 2 [] {} {} example_open" "blk example_open = example_files"
  unfolding example_open_def using log_inv_fields [OF example_fs_log(1), of "upd_inode 0 f example_fs" for f] example_fs_log(2)
  by (simp_all add: upd_inode_def)

theorem readi_reads_file_witness:
  "\<exists>t. readi 0 (BufDst []) 1 2 example_open = Done (2, BufDst [105, 33]) t \<and> disk t = example_files"
proof -
  have i: "inode_at example_open 0 = \<lparr>idev = 1, inum = 2, iref = 1, ivalid = True, itype = 2, imajor = 0, iminor = 0, nlink = 1,
     isize = 4, addrs = 47 # replicate 12 0\<rparr>" "disk example_open = example_files"
    by (simp_all add: example_open_def upd_inode_def example_fs_simps)
  have m: "mapped_inode 1 example_open 0" using example_mapped(2) by (simp add: mapped_inode_def i example_open_inv)
  have b: "take 2 (drop 1 (data_bytes example_files (47 # replicate 12 0) 0 4)) = [105, 33]" by code_simp
  show ?thesis using readi_reads_file [OF example_open_inv(1) m, of 1 2] b by (auto simp: i example_open_inv simp del: replicate.simps)
qed

end
