(* ===== verification/Ulib.thy ===== *)
theory Ulib
  imports Cstring
begin

text \<open>
  The library of the user programs, \<open>user/ulib.c\<close>. A string is the list of its bytes before the NUL; \<open>char_at s i\<close> is \<open>s[i]\<close>, the
  NUL included. A file descriptor open for reading is the list of the pieces its next reads return.
\<close>

definition char_at :: "u8 list \<Rightarrow> nat \<Rightarrow> u8" where
  "char_at s i = (if i < length s then s ! i else 0)"

fun strchr :: "u8 list \<Rightarrow> u8 \<Rightarrow> nat option" where
  "strchr [] c = None"
| "strchr (x # s) c = (if x = 0 then None else if x = c then Some 0 else map_option Suc (strchr s c))"

text \<open>\<open>read(fd, buf, n)\<close>: the bytes it stores, none at the end of the input.\<close>

definition read_fd :: "nat \<Rightarrow> u8 list list \<Rightarrow> u8 list \<times> u8 list list" where
  "read_fd n pieces = (case pieces of [] \<Rightarrow> ([], [])
     | x # xs \<Rightarrow> (take n x, if length x \<le> n then xs else drop n x # xs))"

lemma strchr_Some: "strchr s c = Some k \<Longrightarrow> k < length s \<and> s ! k = c \<and> c \<notin> set (take k s) \<and> 0 \<notin> set (take k s)"
  by (induction s c arbitrary: k rule: strchr.induct) (auto split: if_splits)

lemma strchr_no_nul: "0 \<notin> set s \<Longrightarrow> strchr s c = None \<longleftrightarrow> c \<notin> set s"
  by (induction s c rule: strchr.induct) auto

lemma strchr_append: "0 \<notin> set s \<Longrightarrow> c \<notin> set s \<Longrightarrow> strchr (s @ t) c = map_option (\<lambda>k. length s + k) (strchr t c)"
  by (cases "strchr t c"; induction s) auto

lemma read_fd_less: "(bs, fd') = read_fd n fd \<Longrightarrow> bs \<noteq> [] \<Longrightarrow> sum_list (map length fd') < sum_list (map length fd)"
  by (auto simp: read_fd_def split: list.splits)

lemma read_fd_rule:
  assumes "(bs, fd') = read_fd n fd" and "[] \<notin> set fd" and "0 < n"
  shows "concat fd = bs @ concat fd'" "length bs \<le> n" "[] \<notin> set fd'" "bs = [] \<longleftrightarrow> fd = []"
  using assms by (auto simp: read_fd_def split: list.splits if_splits)

section \<open>Strings\<close>

text \<open>\<open>strcpy\<close> into the array \<open>s\<close> from position \<open>i\<close> on, of the string \<open>t\<close>.\<close>

fun strcpy_loop :: "u8 list \<Rightarrow> u8 list \<Rightarrow> nat \<Rightarrow> u8 list" where
  "strcpy_loop s [] i = s[i := 0]"
| "strcpy_loop s (c # t) i = (if c = 0 then s[i := 0] else strcpy_loop (s[i := c]) t (Suc i))"

definition strcpy :: "u8 list \<Rightarrow> u8 list \<Rightarrow> u8 list" where
  "strcpy s t = strcpy_loop s t 0"

lemma char_at_nz: "char_at s 0 \<noteq> 0 \<Longrightarrow> s \<noteq> []"
  by (auto simp: char_at_def)

function strcmp :: "u8 list \<Rightarrow> u8 list \<Rightarrow> int" where
  "strcmp p q =
     (if char_at p 0 \<noteq> 0 \<and> char_at p 0 = char_at q 0 then strcmp (drop 1 p) (drop 1 q)
      else uint (char_at p 0) - uint (char_at q 0))"
  by pat_completeness auto

termination by (relation "measure (\<lambda>(p, _). length p)") (auto dest!: char_at_nz)

declare strcmp.simps [simp del]

fun ulib_strlen :: "u8 list \<Rightarrow> nat" where
  "ulib_strlen [] = 0"
| "ulib_strlen (c # s) = (if c = 0 then 0 else Suc (ulib_strlen s))"

text \<open>\<open>atoi\<close>, on 32-bit integers that wrap.\<close>

fun atoi_loop :: "u8 list \<Rightarrow> 32 word \<Rightarrow> 32 word" where
  "atoi_loop [] n = n"
| "atoi_loop (c # s) n = (if 48 \<le> c \<and> c \<le> 57 then atoi_loop s (n * 10 + ucast c - 48) else n)"

definition atoi :: "u8 list \<Rightarrow> int" where
  "atoi s = sint (atoi_loop s 0)"

section \<open>Memory\<close>

definition ulib_memset :: "mem \<Rightarrow> u64 \<Rightarrow> u8 \<Rightarrow> nat \<Rightarrow> mem" where
  "ulib_memset m dst c n = memset_loop m dst c 0 n"

definition ulib_memmove :: "mem \<Rightarrow> u64 \<Rightarrow> u64 \<Rightarrow> int \<Rightarrow> mem" where
  "ulib_memmove m vdst vsrc n =
     (if vsrc > vdst then copy_up m vdst vsrc (nat n)
      else copy_down m (vdst + of_int n) (vsrc + of_int n) (nat n))"

definition ulib_memcpy :: "mem \<Rightarrow> u64 \<Rightarrow> u64 \<Rightarrow> nat \<Rightarrow> mem" where
  "ulib_memcpy m dst src n = ulib_memmove m dst src (sint (of_nat n :: 32 word))"

fun ulib_memcmp :: "ptr \<Rightarrow> ptr \<Rightarrow> nat \<Rightarrow> int" where
  "ulib_memcmp p1 p2 0 = 0"
| "ulib_memcmp p1 p2 (Suc n) =
     (if p1 0 \<noteq> p2 0 then uint (p1 0) - uint (p2 0) else ulib_memcmp (\<lambda>i. p1 (Suc i)) (\<lambda>i. p2 (Suc i)) n)"

text \<open>\<open>gets\<close> with \<open>k\<close> bytes of room before the last byte of the array, from position \<open>i\<close> on.\<close>

fun gets_loop :: "u8 list \<Rightarrow> nat \<Rightarrow> nat \<Rightarrow> u8 list list \<Rightarrow> u8 list \<times> u8 list list" where
  "gets_loop buf i 0 fd = (buf[i := 0], fd)"
| "gets_loop buf i (Suc k) fd =
     (case read_fd 1 fd of (cs, fd) \<Rightarrow>
      case cs of
        [] \<Rightarrow> (buf[i := 0], fd)
      | c # _ \<Rightarrow> if c = 10 \<or> c = 13 then ((buf[i := c])[Suc i := 0], fd) else gets_loop (buf[i := c]) (Suc i) k fd)"

definition gets :: "u8 list \<Rightarrow> nat \<Rightarrow> u8 list list \<Rightarrow> u8 list \<times> u8 list list" where
  "gets buf nbuf fd = gets_loop buf 0 (nbuf - 1) fd"

lemma strcpy_loop_eq: "0 \<notin> set t \<Longrightarrow> i + length t < length s \<Longrightarrow> strcpy_loop s t i = bpatch s i (t @ [0])"
proof (induction t arbitrary: s i)
  case Nil
  then show ?case by (simp add: bpatch_def upd_conv_take_nth_drop)
next
  case (Cons c t)
  then have "strcpy_loop s (c # t) i = bpatch (s[i := c]) (Suc i) (t @ [0])" by simp
  also have "\<dots> = bpatch s i (c # t @ [0])" using Cons.prems by (simp add: bpatch_def take_Suc_conv_app_nth take_update_swap list_update_append)
  finally show ?case by simp
qed

lemma strcpy_copies: "0 \<notin> set t \<Longrightarrow> length t < length s \<Longrightarrow> cstr (strcpy s t) = t"
proof -
  assume z: "0 \<notin> set t" "length t < length s"
  then have "strcpy s t = t @ 0 # drop (Suc (length t)) s" using strcpy_loop_eq [of t 0 s] by (simp add: strcpy_def bpatch_def)
  moreover have "\<forall>x\<in>set t. x \<noteq> 0" using z(1) by metis
  ultimately show ?thesis by (simp add: cstr_def)
qed

lemma strcmp_zero: "0 \<notin> set p \<Longrightarrow> 0 \<notin> set q \<Longrightarrow> strcmp p q = 0 \<longleftrightarrow> p = q"
proof (induction p q rule: strcmp.induct)
  case (1 p q)
  then show ?case by (cases p; cases q; subst strcmp.simps) (auto simp: char_at_def uint_0_iff dest!: iffD2 [OF word_uint_eq_iff])
qed

lemma ulib_strlen_eq: "ulib_strlen s = length (cstr s)"
  by (induction s) (simp_all add: cstr_def)

lemma copy_down_same: "copy_down m d d n = m"
  by (induction n arbitrary: d) simp_all

lemma mem_write_same: "mem_write m a (mem_read m a n) = m"
  by (rule ext) (auto simp: mem_write_def)

lemma ulib_memmove_write:
  assumes "unat src + n < 2 ^ 64" and "unat dst + n < 2 ^ 64" and "n < 2 ^ 31"
  shows "ulib_memmove m dst src (int n) = mem_write m dst (mem_read m src n)"
proof (cases "src > dst")
  case True
  then show ?thesis using copy_up_write [of src n dst m] assms by (simp add: ulib_memmove_def word_less_nat_alt)
next
  case False
  show ?thesis
  proof (cases "src = dst")
    case True
    then show ?thesis by (simp add: ulib_memmove_def copy_down_same mem_write_same)
  next
    case f: False
    then show ?thesis using copy_down_write [of src n dst m] assms False by (simp add: ulib_memmove_def word_less_nat_alt word_unat_eq_iff)
  qed
qed

end
