(* ===== verification/Grep.thy ===== *)
theory Grep
  imports Ulib
begin

text \<open>
  The program \<open>user/grep.c\<close>: its matcher against the language of a pattern, and its loop over the input against the list of
  the lines that match.
\<close>

section \<open>The matcher\<close>

text \<open>\<open>matchhere\<close> and \<open>matchstar\<close>; \<open>match\<close> is \<open>match_re\<close>. The do loops are recursions on the text.\<close>

function matchhere :: "u8 list \<Rightarrow> u8 list \<Rightarrow> bool" and matchstar :: "u8 \<Rightarrow> u8 list \<Rightarrow> u8 list \<Rightarrow> bool" where
  "matchhere re t =
     (if char_at re 0 = 0 then True
      else if char_at re 1 = 42 then matchstar (char_at re 0) (drop 2 re) t
      else if char_at re 0 = 36 \<and> char_at re 1 = 0 then char_at t 0 = 0
      else if char_at t 0 \<noteq> 0 \<and> (char_at re 0 = 46 \<or> char_at re 0 = char_at t 0) then matchhere (drop 1 re) (drop 1 t)
      else False)"
| "matchstar c re t =
     (if matchhere re t then True
      else if char_at t 0 \<noteq> 0 \<and> (char_at t 0 = c \<or> c = 46) then matchstar c re (drop 1 t)
      else False)"
  by pat_completeness auto

termination
  by (relation "inv_image (less_than <*lex*> less_than <*lex*> less_than)
    (\<lambda>x. case x of Inl (re, t) \<Rightarrow> (length re, length t, 0) | Inr (c, re, t) \<Rightarrow> (length re, length t, Suc 0))")
    (auto dest!: char_at_nz)

declare matchhere.simps [simp del] matchstar.simps [simp del]

function match_from :: "u8 list \<Rightarrow> u8 list \<Rightarrow> bool" where
  "match_from re t = (if matchhere re t then True else if char_at t 0 \<noteq> 0 then match_from re (drop 1 t) else False)"
  by pat_completeness auto

termination by (relation "measure (\<lambda>(_, t). length t)") (auto dest!: char_at_nz)

declare match_from.simps [simp del]

definition match_re :: "u8 list \<Rightarrow> u8 list \<Rightarrow> bool" where
  "match_re re t = (if char_at re 0 = 94 then matchhere (drop 1 re) t else match_from re t)"

section \<open>The language of a pattern\<close>

datatype item = One u8 | Star u8

text \<open>The items of a pattern without its \<open>^\<close>, and whether it ends in \<open>$\<close>.\<close>

fun items :: "u8 list \<Rightarrow> item list \<times> bool" where
  "items [] = ([], False)"
| "items [c] = (if c = 36 then ([], True) else ([One c], False))"
| "items (c # d # re) = (if d = 42 then (Star c # fst (items re), snd (items re))
     else (One c # fst (items (d # re)), snd (items (d # re))))"

definition fits :: "u8 \<Rightarrow> u8 \<Rightarrow> bool" where
  "fits c x \<longleftrightarrow> c = 46 \<or> x = c"

fun lang :: "item list \<Rightarrow> u8 list set" where
  "lang [] = {[]}"
| "lang (One c # is) = {x # xs |x xs. fits c x \<and> xs \<in> lang is}"
| "lang (Star c # is) = {xs @ ys |xs ys. (\<forall>x\<in>set xs. fits c x) \<and> ys \<in> lang is}"

definition stops :: "bool \<Rightarrow> u8 list \<Rightarrow> bool" where
  "stops e v \<longleftrightarrow> (e \<longrightarrow> v = [])"

definition matches_here :: "item list \<times> bool \<Rightarrow> u8 list \<Rightarrow> bool" where
  "matches_here r t \<longleftrightarrow> (\<exists>u v. t = u @ v \<and> u \<in> lang (fst r) \<and> stops (snd r) v)"

lemma matches_here_Nil: "matches_here ([], e) t \<longleftrightarrow> stops e t"
  by (simp add: matches_here_def)

lemma matches_here_One:
  "matches_here (One c # is, e) t \<longleftrightarrow> (\<exists>x t'. t = x # t' \<and> fits c x \<and> matches_here (is, e) t')"
  (is "?l \<longleftrightarrow> ?r")
proof
  assume ?l
  then obtain x xs v where "t = (x # xs) @ v" "fits c x" "xs \<in> lang is" "stops e v" by (auto simp: matches_here_def)
  then show ?r by (auto simp: matches_here_def)
next
  assume ?r
  then obtain x xs v where "t = x # xs @ v" "fits c x" "xs \<in> lang is" "stops e v" by (auto simp: matches_here_def)
  then show ?l unfolding matches_here_def by (intro exI [of _ "x # xs"] exI [of _ v]) simp
qed

lemma matches_hereI: "u \<in> lang is \<Longrightarrow> stops e v \<Longrightarrow> matches_here (is, e) (u @ v)"
  unfolding matches_here_def fst_conv snd_conv by blast

lemma lang_StarI: "\<forall>x\<in>set xs. fits c x \<Longrightarrow> ys \<in> lang is \<Longrightarrow> xs @ ys \<in> lang (Star c # is)"
  unfolding lang.simps by blast

lemma matches_here_Star:
  "matches_here (Star c # is, e) t \<longleftrightarrow> matches_here (is, e) t \<or> (\<exists>x t'. t = x # t' \<and> fits c x \<and> matches_here (Star c # is, e) t')"
  (is "?l \<longleftrightarrow> ?r")
proof
  assume ?l
  then obtain xs ys v where x: "t = (xs @ ys) @ v" "\<forall>x\<in>set xs. fits c x" "ys \<in> lang is" "stops e v"
    by (auto simp: matches_here_def)
  show ?r
  proof (cases xs)
    case Nil
    then show ?thesis using matches_hereI [OF x(3,4)] x(1) by simp
  next
    case (Cons y zs)
    then show ?thesis using matches_hereI [OF lang_StarI x(4), of zs c ys "is"] x by simp
  qed
next
  assume ?r
  then consider "matches_here (is, e) t" | x t' where "t = x # t'" "fits c x" "matches_here (Star c # is, e) t'" by blast
  then show ?l
  proof cases
    case 1
    then obtain u v where "t = u @ v" "u \<in> lang is" "stops e v" by (auto simp: matches_here_def)
    then show ?thesis using matches_hereI [OF lang_StarI, of "[]" c u "is" e v] by simp
  next
    case 2
    then obtain xs ys v where "t' = (xs @ ys) @ v" "\<forall>x\<in>set xs. fits c x" "ys \<in> lang is" "stops e v"
      by (auto simp: matches_here_def)
    then show ?thesis using matches_hereI [OF lang_StarI, of "x # xs" c ys "is" e v] 2 by simp
  qed
qed

lemma matchstar_iff:
  assumes h: "\<And>t. 0 \<notin> set t \<Longrightarrow> matchhere re t = matches_here (is, e) t"
  shows "0 \<notin> set t \<Longrightarrow> matchstar c re t = matches_here (Star c # is, e) t"
proof (induction t)
  case Nil
  then show ?case using h [of "[]"] by (subst matches_here_Star) (simp add: matchstar.simps char_at_def)
next
  case (Cons x t)
  then show ?case using h [of "x # t"]
    by (subst matches_here_Star, subst matchstar.simps) (auto simp: char_at_def fits_def)
qed

lemma matchhere_iff: "0 \<notin> set re \<Longrightarrow> 0 \<notin> set t \<Longrightarrow> matchhere re t = matches_here (items re) t"
proof (induction re arbitrary: t rule: items.induct)
  case 1
  then show ?case by (simp add: matchhere.simps char_at_def matches_here_Nil stops_def)
next
  case (2 c)
  have n: "matchhere [] t' = True" for t' by (simp add: matchhere.simps char_at_def)
  show ?case using 2 by (cases t) (auto simp: matchhere.simps [of "[c]"] char_at_def n matches_here_Nil matches_here_One stops_def fits_def)
next
  case (3 c d re)
  show ?case
  proof (cases "d = 42")
    case True
    have "matchstar c re t = matches_here (Star c # fst (items re), snd (items re)) t"
      using True "3.prems" by (intro matchstar_iff) (simp_all add: "3.IH"(1))
    then show ?thesis using True "3.prems"(1) by (subst matchhere.simps) (simp add: char_at_def)
  next
    case False
    have "matches_here (items (c # d # re)) t \<longleftrightarrow> (\<exists>x t'. t = x # t' \<and> fits c x \<and> matches_here (items (d # re)) t')"
      using False by (simp add: matches_here_One)
    then show ?thesis using False "3.IH"(3) [OF False] "3.prems"
      by (cases t) (auto simp: matchhere.simps [of "c # d # re"] char_at_def fits_def)
  qed
qed

lemma match_from_iff:
  "0 \<notin> set re \<Longrightarrow> 0 \<notin> set t \<Longrightarrow> match_from re t \<longleftrightarrow> (\<exists>u v. t = u @ v \<and> matches_here (items re) v)"
proof (induction t)
  case Nil
  then show ?case by (simp add: match_from.simps char_at_def matchhere_iff)
next
  case (Cons x t)
  have "(\<exists>u v. x # t = u @ v \<and> matches_here (items re) v) \<longleftrightarrow>
      matches_here (items re) (x # t) \<or> (\<exists>u v. t = u @ v \<and> matches_here (items re) v)"
    by (metis append_Cons append_Nil append_eq_Cons_conv)
  then show ?case using Cons by (simp add: match_from.simps [of re "x # t"] char_at_def matchhere_iff)
qed

text \<open>C13: the matcher of \<open>grep\<close> decides the pattern language: it accepts exactly the texts with a part in the language of the
  pattern, at the start of the text if the pattern begins with a caret and at its end if the pattern ends in a dollar sign.\<close>

theorem match_decides_language:
  assumes "0 \<notin> set re" and "0 \<notin> set t"
  shows "match_re re t \<longleftrightarrow> (\<exists>u v w. t = u @ v @ w \<and> (let anchored = (char_at re 0 = 94); r = items (if anchored then drop 1 re else re)
    in v \<in> lang (fst r) \<and> (anchored \<longrightarrow> u = []) \<and> stops (snd r) w))"
proof (cases "char_at re 0 = 94")
  case True
  have "0 \<notin> set (drop 1 re)" using assms(1) by (meson in_set_dropD)
  then show ?thesis using True assms(2) by (simp add: match_re_def matchhere_iff matches_here_def Let_def)
next
  case False
  then show ?thesis using assms by (simp add: match_re_def match_from_iff matches_here_def Let_def) blast
qed

theorem match_decides_language_witness: "match_re [97, 42, 98, 36] [120, 97, 97, 98]"
proof -
  have i: "items [97, 42, 98, 36] = ([Star 97, One 98], True)" by code_simp
  have l: "[97, 97, 98] \<in> lang [Star 97, One 98]"
    using lang_StarI [of "[97, 97]" 97 "[98]" "[One 98]"] by (simp add: fits_def del: lang.simps(3))
  show ?thesis
  proof (rule iffD2 [OF match_decides_language])
    show "\<exists>u v w. [120, 97, 97, 98] = u @ v @ w \<and> (let anchored = char_at [97, 42, 98, 36] 0 = 94;
        r = items (if anchored then drop 1 [97, 42, 98, 36] else [97, 42, 98, 36])
      in v \<in> lang (fst r) \<and> (anchored \<longrightarrow> u = []) \<and> stops (snd r) w)"
      by (intro exI [of _ "[120]"] exI [of _ "[97, 97, 98]"] exI [of _ "[]"])
        (use l in \<open>simp add: char_at_def Let_def stops_def i del: items.simps lang.simps\<close>)
  qed simp_all
qed

section \<open>The program\<close>

text \<open>The inner loop of \<open>grep\<close>, from position \<open>p\<close> of the buffer: the buffer, the position after the last line, and the
  output. Reaching this loop the string in the buffer ends at the NUL that follows the \<open>m\<close> bytes read.\<close>

function grep_lines :: "u8 list \<Rightarrow> u8 list \<Rightarrow> nat \<Rightarrow> u8 list \<Rightarrow> u8 list \<times> nat \<times> u8 list" where
  "grep_lines pattern buf p out =
     (case strchr (drop p buf) 10 of
        None \<Rightarrow> (buf, p, out)
      | Some k \<Rightarrow>
          let q = p + k;
              buf = buf[q := 0]
          in if match_re pattern (cstr (drop p buf))
             then let buf = buf[q := 10] in grep_lines pattern buf (q + 1) (out @ bslice buf p (q + 1 - p))
             else grep_lines pattern buf (q + 1) out)"
  by pat_completeness auto

termination
  by (relation "measure (\<lambda>(_, buf, p, _). length buf - p)") (auto dest!: strchr_Some)

declare grep_lines.simps [simp del]

function grep_loop :: "u8 list \<Rightarrow> u8 list \<Rightarrow> nat \<Rightarrow> u8 list list \<Rightarrow> u8 list \<Rightarrow> u8 list \<times> u8 list" where
  "grep_loop pattern buf m fd out =
     (let (bs, fd') = read_fd (1024 - m - 1) fd in
      if bs = [] then (buf, out)
      else let buf = bpatch buf m bs;
               m = m + length bs;
               (buf, p, out) = grep_lines pattern (buf[m := 0]) 0 out
           in if m > 0
              then grep_loop pattern (bpatch buf 0 (bslice buf p (m - p))) (m - p) fd' out
              else grep_loop pattern buf m fd' out)"
  by pat_completeness auto

termination
  by (relation "measure (\<lambda>(_, _, _, fd, _). sum_list (map length fd))") (auto dest: read_fd_less)

declare grep_loop.simps [simp del]

definition grep :: "u8 list \<Rightarrow> u8 list \<Rightarrow> u8 list list \<Rightarrow> u8 list \<Rightarrow> u8 list \<times> u8 list" where
  "grep pattern buf fd out = grep_loop pattern buf 0 fd out"

section \<open>What it prints\<close>

text \<open>The lines of a text, without their newlines, and the bytes after the last newline.\<close>

fun split_lines :: "u8 list \<Rightarrow> u8 list list \<times> u8 list" where
  "split_lines [] = ([], [])"
| "split_lines (c # s) = (case split_lines s of (ls, r) \<Rightarrow>
     if c = 10 then ([] # ls, r) else case ls of [] \<Rightarrow> ([], c # r) | l # ls' \<Rightarrow> ((c # l) # ls', r))"

definition matching_lines :: "u8 list \<Rightarrow> u8 list list \<Rightarrow> u8 list" where
  "matching_lines pattern ls = concat (map (\<lambda>l. l @ [10]) (filter (match_re pattern) ls))"

lemma split_lines_none: "10 \<notin> set s \<Longrightarrow> split_lines s = ([], s)"
  by (induction s) auto

lemma split_lines_line: "10 \<notin> set l \<Longrightarrow> split_lines (l @ 10 # s) = (l # fst (split_lines s), snd (split_lines s))"
  by (induction l) (auto split: prod.splits)

lemma split_lines_append:
  "split_lines (s @ t) = (fst (split_lines s) @ fst (split_lines (snd (split_lines s) @ t)), snd (split_lines (snd (split_lines s) @ t)))"
  by (induction s) (auto split: prod.splits list.splits)

lemma split_lines_rest: "10 \<notin> set (snd (split_lines s)) \<and> set (snd (split_lines s)) \<subseteq> set s \<and> length (snd (split_lines s)) \<le> length s"
  by (induction s) (auto split: prod.splits list.splits)

lemma grep_lines_run:
  assumes "drop p buf = body @ 0 # junk" and "0 \<notin> set body" and "p + length body < length buf"
  shows "\<exists>buf'. grep_lines pattern buf p out = (buf', p + (length body - length (snd (split_lines body))),
      out @ matching_lines pattern (fst (split_lines body)))
    \<and> drop (p + (length body - length (snd (split_lines body)))) buf' = snd (split_lines body) @ 0 # junk \<and> length buf' = length buf"
  using assms
proof (induction "length body" arbitrary: p buf body out rule: less_induct)
  case less
  show ?case
  proof (cases "10 \<in> set body")
    case False
    then have "strchr (drop p buf) 10 = None" using less.prems by (simp add: strchr_append)
    then show ?thesis using False less.prems by (simp add: grep_lines.simps split_lines_none matching_lines_def)
  next
    case True
    obtain l s where l: "body = l @ 10 # s" "10 \<notin> set l" using split_list_first [OF True] by blast
    let ?q = "p + length l"
    have d: "drop p buf = l @ 10 # s @ 0 # junk" using less.prems(1) l by simp
    have z: "0 \<notin> set l" "0 \<notin> set s" using less.prems(2) l by auto
    have c: "strchr (drop p buf) 10 = Some (length l)" using l z d by (simp add: strchr_append)
    have d0: "drop p (buf[?q := 0]) = l @ 0 # s @ 0 # junk" using d by (simp add: drop_update_swap)
    have t: "cstr (drop p (buf[?q := 0])) = l" using z(1) unfolding d0 by (auto simp: cstr_def takeWhile_append)
    let ?r = "snd (split_lines s)" and ?b0 = "buf[?q := 0]" and ?b1 = "buf[?q := 0, ?q := 10]"
    have d1: "drop p ?b1 = l @ 10 # s @ 0 # junk" using d by (simp add: drop_update_swap)
    have tail: "drop (?q + 1) b = s @ 0 # junk" if "drop p b = l @ x # s @ 0 # junk" for b x
    proof -
      have "drop (?q + 1) b = drop (Suc (length l)) (drop p b)" by (simp add: add.commute)
      then show ?thesis by (simp add: that)
    qed
    have IH: "\<exists>buf'. grep_lines pattern b (?q + 1) o' = (buf', ?q + 1 + (length s - length ?r), o' @ matching_lines pattern (fst (split_lines s)))
        \<and> drop (?q + 1 + (length s - length ?r)) buf' = ?r @ 0 # junk \<and> length buf' = length b"
      if "drop (?q + 1) b = s @ 0 # junk" "length b = length buf" for b o'
      using that z(2) less.prems(3) l by (intro less.hyps) simp_all
    have n: "?q + 1 + (length s - length ?r) = p + (length body - length ?r)" using split_lines_rest [of s] l by auto
    have sl: "split_lines body = (l # fst (split_lines s), ?r)" using l by (simp add: split_lines_line)
    have run: "grep_lines pattern buf p out = (if match_re pattern l then grep_lines pattern ?b1 (?q + 1) (out @ l @ [10])
      else grep_lines pattern ?b0 (?q + 1) out)"
      by (subst grep_lines.simps) (use c t d1 in \<open>simp add: Let_def bslice_def\<close>)
    show ?thesis
    proof (cases "match_re pattern l")
      case True
      then show ?thesis using IH [OF tail [OF d1], of "out @ l @ [10]"] unfolding n sl by (simp add: run matching_lines_def)
    next
      case False
      then show ?thesis using IH [OF tail [OF d0], of out] unfolding n sl by (simp add: run matching_lines_def)
    qed
  qed
qed

text \<open>A text whose lines, and the bytes after the last newline, fit in the buffer.\<close>

definition fits_buf :: "u8 list \<Rightarrow> bool" where
  "fits_buf s \<longleftrightarrow> 0 \<notin> set s \<and> (\<forall>l\<in>set (fst (split_lines s)). length l \<le> 1022) \<and> length (snd (split_lines s)) \<le> 1022"

lemma first_piece: "split_lines s = (ls, r) \<Longrightarrow> s = r \<and> ls = [] \<or> (\<exists>l ls' t. ls = l # ls' \<and> s = l @ 10 # t)"
proof (induction s arbitrary: ls r)
  case (Cons c s)
  show ?case
  proof (cases "split_lines s")
    case (Pair ls1 r1)
    then show ?thesis using Cons by (cases ls1) (force split: if_splits)+
  qed
qed simp

lemma pending_short:
  assumes "10 \<notin> set r" and "fits_buf (r @ t)"
  shows "length r \<le> 1022"
proof -
  obtain ls x where s: "split_lines (r @ t) = (ls, x)" by (cases "split_lines (r @ t)")
  from first_piece [OF s] show ?thesis
  proof (elim disjE exE conjE)
    assume "r @ t = x"
    then show ?thesis using assms(2) s by (auto simp: fits_buf_def)
  next
    fix l ls' t'
    assume l: "ls = l # ls'" "r @ t = l @ 10 # t'"
    then have "length r \<le> length l" using assms(1) by (auto simp: append_eq_append_conv2 append_eq_Cons_conv)
    then show ?thesis using assms(2) s l(1) by (auto simp: fits_buf_def)
  qed
qed

lemma grep_loop_run:
  assumes "length buf = 1024" and "take m buf = r" and "m = length r" and "10 \<notin> set r" and "[] \<notin> set fd" and "fits_buf (r @ concat fd)"
  shows "\<exists>buf'. grep_loop pattern buf m fd out = (buf', out @ matching_lines pattern (fst (split_lines (r @ concat fd)))) \<and> length buf' = 1024"
  using assms
proof (induction "sum_list (map length fd)" arbitrary: buf m fd r out rule: less_induct)
  case less
  obtain bs fd' where rd: "read_fd (1024 - m - 1) fd = (bs, fd')" by (cases "read_fd (1024 - m - 1) fd")
  have m: "m \<le> 1022" using pending_short [OF less.prems(4,6)] less.prems(3) by simp
  note f = read_fd_rule [OF rd [symmetric] less.prems(5)]
  show ?case
  proof (cases "fd = []")
    case True
    then show ?thesis using rd m less.prems(1,4) by (simp add: grep_loop.simps [of pattern buf] read_fd_def split_lines_none matching_lines_def)
  next
    case False
    let ?t = "r @ bs" and ?M = "m + length bs"
    let ?r = "snd (split_lines ?t)" and ?b = "(bpatch buf m bs)[?M := 0]"
    have bs: "concat fd = bs @ concat fd'" "length bs \<le> 1023 - m" "[] \<notin> set fd'" "bs \<noteq> []" using f m False by auto
    have z: "0 \<notin> set ?t" using less.prems(6) bs(1) by (simp add: fits_buf_def)
    have lb: "length (bpatch buf m bs) = 1024" using less.prems(1) bs(2) m by (simp add: bpatch_def)
    have "drop ?M buf = buf ! ?M # drop (Suc ?M) buf" using less.prems(1) bs(2) m by (simp add: Cons_nth_drop_Suc)
    then have b: "drop 0 ?b = ?t @ 0 # drop (Suc ?M) buf"
      using less.prems(1-3) bs(2) m by (simp add: bpatch_def list_update_append)
    have M: "length ?t < 1024" using less.prems(3) bs(2) m by simp
    obtain b' where b': "grep_lines pattern ?b 0 out = (b', length ?t - length ?r, out @ matching_lines pattern (fst (split_lines ?t)))"
      "drop (length ?t - length ?r) b' = ?r @ 0 # drop (Suc ?M) buf" "length b' = 1024"
      using grep_lines_run [OF b z, of pattern out] lb M by auto
    let ?p = "length ?t - length ?r"
    have p: "?M - ?p = length ?r" using split_lines_rest [of ?t] less.prems(3) by simp
    let ?b2 = "bpatch b' 0 (bslice b' ?p (length ?r))"
    have b2: "bslice b' ?p (length ?r) = ?r" using b'(2) by (simp add: bslice_def)
    have run: "grep_loop pattern buf m fd out = grep_loop pattern ?b2 (length ?r) fd' (out @ matching_lines pattern (fst (split_lines ?t)))"
      by (subst grep_loop.simps) (use rd bs(4) b'(1) p in \<open>simp add: Let_def\<close>)
    have sp: "split_lines (r @ concat fd) = (fst (split_lines ?t) @ fst (split_lines (?r @ concat fd')), snd (split_lines (?r @ concat fd')))"
      using split_lines_append [of ?t "concat fd'"] bs(1) by simp
    have "\<exists>buf'. grep_loop pattern ?b2 (length ?r) fd' (out @ matching_lines pattern (fst (split_lines ?t)))
        = (buf', (out @ matching_lines pattern (fst (split_lines ?t))) @ matching_lines pattern (fst (split_lines (?r @ concat fd')))) \<and> length buf' = 1024"
    proof (rule less.hyps)
      show "sum_list (map length fd') < sum_list (map length fd)" by (rule read_fd_less [OF rd [symmetric] bs(4)])
      show "length ?b2 = 1024" using b'(3) split_lines_rest [of ?t] M unfolding b2 by (simp add: bpatch_def)
      show "take (length ?r) ?b2 = ?r" unfolding b2 by (simp add: bpatch_def)
      show "10 \<notin> set ?r" using split_lines_rest by blast
      show "fits_buf (?r @ concat fd')" using less.prems(6) split_lines_rest [of ?t] bs(1) unfolding fits_buf_def sp by auto
    qed (use bs(3) in simp_all)
    then show ?thesis unfolding run sp by (simp add: matching_lines_def)
  qed
qed



end
