(* ===== verification/Syscall_Args.thy ===== *)
theory Syscall_Args
  imports File_Layer
begin

text \<open>
  Arguments of system calls, the first part of \<open>kernel/syscall.c\<close>.
\<close>

text \<open>Reading and writing a saved register of process \<open>p\<close>.\<close>

definition tf_get :: "'a proc_state_scheme \<Rightarrow> nat \<Rightarrow> u64 \<Rightarrow> u64" where
  "tf_get s p off = load64 (mem s) (trapframe (proc_at s p) + off)"

definition tf_set :: "nat \<Rightarrow> u64 \<Rightarrow> u64 \<Rightarrow> 'a proc_state_scheme \<Rightarrow> 'a proc_state_scheme" where
  "tf_set p off v s = s\<lparr>mem := store64 (mem s) (trapframe (proc_at s p) + off) v\<rparr>"

definition fetchaddr :: "u64 \<Rightarrow> 'a proc_state_scheme \<Rightarrow> (u64 option, 'a proc_state_scheme) res" where
  "fetchaddr va s = with_proc s (\<lambda>p.
     if va \<ge> sz (proc_at s p) \<or> va + 8 > sz (proc_at s p) then Done None s
     else andthen (copyin (pagetable (proc_at s p)) [] va 8 s) (\<lambda>(r, bs) s.
       Done (if r \<noteq> 0 then None else Some (le_word bs)) s))"

text \<open>The result has the bytes put into \<open>buf\<close>; \<open>strlen\<close> of them is what the call returns.\<close>

definition fetchstr :: "u64 \<Rightarrow> nat \<Rightarrow> 'a proc_state_scheme \<Rightarrow> (int \<times> u8 list, 'a proc_state_scheme) res" where
  "fetchstr va mx s = with_proc s (\<lambda>p.
     andthen (copyinstr (pagetable (proc_at s p)) [] va mx s) (\<lambda>(err, buf) s.
     if err < 0 then Done (err, buf) s
     else Done (int (length (cstr buf)), buf) s))"

definition argraw :: "nat \<Rightarrow> 'a proc_state_scheme \<Rightarrow> (u64, 'a proc_state_scheme) res" where
  "argraw n s = with_proc s (\<lambda>p.
     if n = 0 then Done (tf_get s p TF_a0) s
     else if n = 1 then Done (tf_get s p TF_a1) s
     else if n = 2 then Done (tf_get s p TF_a2) s
     else if n = 3 then Done (tf_get s p TF_a3) s
     else if n = 4 then Done (tf_get s p TF_a4) s
     else if n = 5 then Done (tf_get s p TF_a5) s
     else Panic ''argraw'')"

text \<open>\<open>argint\<close> and \<open>argaddr\<close> always return 0; the models return the argument.\<close>

definition argint :: "nat \<Rightarrow> 'a proc_state_scheme \<Rightarrow> (int, 'a proc_state_scheme) res" where
  "argint n s = andthen (argraw n s) (\<lambda>v s. Done (sint (ucast v :: u32)) s)"

definition argaddr :: "nat \<Rightarrow> 'a proc_state_scheme \<Rightarrow> (u64, 'a proc_state_scheme) res" where
  "argaddr n s = argraw n s"

definition argstr :: "nat \<Rightarrow> nat \<Rightarrow> 'a proc_state_scheme \<Rightarrow> (int \<times> u8 list, 'a proc_state_scheme) res" where
  "argstr n mx s = andthen (argaddr n s) (\<lambda>a s. fetchstr a mx s)"

end
