(* ===== verification/Exec.thy ===== *)
theory Exec
  imports Syscall_Args
begin

text \<open>
  Loading a program, \<open>kernel/exec.c\<close> and \<open>kernel/elf.h\<close>. The strings of \<open>argv\<close> are byte lists without
  their terminator.
\<close>

definition ELF_MAGIC :: u32 where "ELF_MAGIC = 0x464C457F"

definition ELF_PROG_LOAD :: u32 where "ELF_PROG_LOAD = 1"

text \<open>The fields of \<open>struct elfhdr\<close> (64 bytes) and \<open>struct proghdr\<close> (56 bytes) that the loader uses.\<close>

record elfhdr =
  e_magic :: u32
  e_entry :: u64
  e_phoff :: u64
  e_phnum :: u16

record proghdr =
  ph_type :: u32
  ph_off :: u64
  ph_vaddr :: u64
  ph_filesz :: u64
  ph_memsz :: u64

definition get64 :: "u8 list \<Rightarrow> nat \<Rightarrow> u64" where
  "get64 bs off = le_word (bslice bs off 8)"

definition get_elfhdr :: "u8 list \<Rightarrow> elfhdr" where
  "get_elfhdr bs = \<lparr>e_magic = get32 bs 0, e_entry = get64 bs 24, e_phoff = get64 bs 32, e_phnum = get16 bs 56\<rparr>"

definition get_proghdr :: "u8 list \<Rightarrow> proghdr" where
  "get_proghdr bs = \<lparr>ph_type = get32 bs 0, ph_off = get64 bs 8, ph_vaddr = get64 bs 16,
     ph_filesz = get64 bs 32, ph_memsz = get64 bs 40\<rparr>"

text \<open>Reading \<open>n\<close> bytes into a local object of the kernel: \<open>None\<close> when fewer are there.\<close>

definition read_obj :: "nat \<Rightarrow> u32 \<Rightarrow> u32 \<Rightarrow> 'a fs_state_scheme \<Rightarrow> (u8 list option, 'a fs_state_scheme) res" where
  "read_obj ip off n s =
     andthen (readi ip (BufDst []) off n s) (\<lambda>(r, dst) s.
     Done (if r \<noteq> int (unat n) then None else case dst of BufDst bs \<Rightarrow> Some bs | _ \<Rightarrow> None) s)"

function loadseg_loop :: "u64 \<Rightarrow> u64 \<Rightarrow> nat \<Rightarrow> u32 \<Rightarrow> nat \<Rightarrow> nat \<Rightarrow> 'a fs_state_scheme \<Rightarrow> (int, 'a fs_state_scheme) res" where
  "loadseg_loop pt va ip offset n i s =
     (if i < n
      then andthen (walkaddr pt (va + of_nat i) s) (\<lambda>pa s.
           if pa = 0 then Panic ''loadseg: address should exist''
           else let m = (if n - i < 4096 then n - i else 4096) in
           andthen (readi ip (PhysDst pa) (offset + of_nat i) (of_nat m) s) (\<lambda>(r, _) s.
           if r \<noteq> int m then Done (- 1) s else loadseg_loop pt va ip offset n (i + 4096) s))
      else Done 0 s)"
  by pat_completeness auto

termination by (relation "measure (\<lambda>(_, _, _, _, n, i, _). n - i)") auto

declare loadseg_loop.simps [simp del]

definition loadseg :: "u64 \<Rightarrow> u64 \<Rightarrow> nat \<Rightarrow> u32 \<Rightarrow> u32 \<Rightarrow> 'a fs_state_scheme \<Rightarrow> (int, 'a fs_state_scheme) res" where
  "loadseg pt va ip offset n s =
     (if va mod PGSIZE \<noteq> 0 then Panic ''loadseg: va must be page aligned''
      else loadseg_loop pt va ip offset (unat n) 0 s)"

text \<open>The program-header loop: whether it ended well, and the size of the image so far.\<close>

fun exec_load :: "u64 \<Rightarrow> nat \<Rightarrow> u32 \<Rightarrow> nat \<Rightarrow> u64 \<Rightarrow> 'a fs_state_scheme \<Rightarrow> (bool \<times> u64, 'a fs_state_scheme) res" where
  "exec_load pt ip off 0 n s = Done (True, n) s"
| "exec_load pt ip off (Suc k) n s =
     andthen (read_obj ip off 56 s) (\<lambda>r s.
     case r of None \<Rightarrow> Done (False, n) s
     | Some bs \<Rightarrow>
       let ph = get_proghdr bs in
       if ph_type ph \<noteq> ELF_PROG_LOAD then exec_load pt ip (off + 56) k n s
       else if ph_memsz ph < ph_filesz ph then Done (False, n) s
       else if ph_vaddr ph + ph_memsz ph < ph_vaddr ph then Done (False, n) s
       else andthen (uvmalloc pt n (ph_vaddr ph + ph_memsz ph) s) (\<lambda>sz1 s.
            if sz1 = 0 then Done (False, n) s
            else if ph_vaddr ph mod PGSIZE \<noteq> 0 then Done (False, sz1) s
            else andthen (loadseg pt (ph_vaddr ph) ip (ucast (ph_off ph)) (ucast (ph_filesz ph)) s) (\<lambda>r s.
                 if r < 0 then Done (False, sz1) s else exec_load pt ip (off + 56) k sz1 s)))"

text \<open>Pushing the argument strings: the stack pointer and the \<open>ustack\<close> entries, or failure.\<close>

fun exec_args :: "u64 \<Rightarrow> u64 \<Rightarrow> u8 list list \<Rightarrow> u64 \<Rightarrow> u64 list \<Rightarrow> 'a kmem_state_scheme \<Rightarrow> ((u64 \<times> u64 list) option, 'a kmem_state_scheme) res" where
  "exec_args pt stackbase [] stk ustack s = Done (Some (stk, ustack)) s"
| "exec_args pt stackbase (a # argv) stk ustack s =
     (if length ustack \<ge> MAXARG then Done None s
      else let stk = stk - of_nat (length a + 1);
               stk = stk - stk mod 16
           in if stk < stackbase then Done None s
              else andthen (copyout pt stk (a @ [0]) s) (\<lambda>r s.
                   if r < 0 then Done None s else exec_args pt stackbase argv stk (ustack @ [stk]) s))"

definition exec_bad :: "u64 \<Rightarrow> u64 \<Rightarrow> nat option \<Rightarrow> 'a fs_state_scheme \<Rightarrow> (int, 'a fs_state_scheme) res" where
  "exec_bad pt n ip s =
     andthen (if pt \<noteq> 0 then proc_freepagetable pt n s else Done () s) (\<lambda>_ s.
     andthen (case ip of None \<Rightarrow> Done () s
       | Some ip \<Rightarrow> andthen (iunlockput ip s) (\<lambda>_ s. end_op s)) (\<lambda>_ s.
     Done (- 1) s))"

definition last_elem :: "u8 list \<Rightarrow> u8 list" where
  "last_elem path = rev (takeWhile (\<lambda>c. c \<noteq> slash) (rev path))"

text \<open>The end of \<open>exec\<close>: the stack, and the switch to the new image.\<close>

definition exec_commit :: "u8 list \<Rightarrow> u8 list list \<Rightarrow> u64 \<Rightarrow> u64 \<Rightarrow> elfhdr \<Rightarrow> 'a fs_state_scheme \<Rightarrow> (int, 'a fs_state_scheme) res" where
  "exec_commit path argv pt n elf s = with_proc s (\<lambda>p.
     let oldsz = sz (proc_at s p);
         n = PGROUNDUP n
     in andthen (uvmalloc pt n (n + 2 * PGSIZE) s) (\<lambda>sz1 s.
     if sz1 = 0 then exec_bad pt n None s
     else
       andthen (uvmclear pt (sz1 - 2 * PGSIZE) s) (\<lambda>_ s.
       let stackbase = sz1 - PGSIZE in
       andthen (exec_args pt stackbase argv sz1 [] s) (\<lambda>r s.
       case r of None \<Rightarrow> exec_bad pt sz1 None s
       | Some (sp0, ustack) \<Rightarrow>
           let argc = length ustack;
               sp0 = sp0 - of_nat ((argc + 1) * 8);
               sp0 = sp0 - sp0 mod 16
           in if sp0 < stackbase then exec_bad pt sz1 None s
              else andthen (copyout pt sp0 (concat (map (word_le 8) (ustack @ [0]))) s) (\<lambda>r s.
                if r < 0 then exec_bad pt sz1 None s
                else
                  let s = tf_set p TF_a1 sp0 s;
                      s = upd_proc p (\<lambda>q. q\<lparr>pname := safestrcpy (pname q) (arr (last_elem path)) 16\<rparr>) s;
                      oldpt = pagetable (proc_at s p);
                      s = upd_proc p (\<lambda>q. q\<lparr>pagetable := pt, sz := sz1\<rparr>) s;
                      s = tf_set p TF_epc (e_entry elf) s;
                      s = tf_set p TF_sp sp0 s
                  in andthen (proc_freepagetable oldpt oldsz s) (\<lambda>_ s. Done (int argc) s))))))"

definition exec :: "u8 list \<Rightarrow> u8 list list \<Rightarrow> 'a fs_state_scheme \<Rightarrow> (int, 'a fs_state_scheme) res" where
  "exec path argv s = with_proc s (\<lambda>p.
     andthen (begin_op s) (\<lambda>_ s.
     andthen (namei path s) (\<lambda>ipo s.
     case ipo of
       None \<Rightarrow> andthen (end_op s) (\<lambda>_ s. Done (- 1) s)
     | Some ip \<Rightarrow>
         andthen (ilock (Some ip) s) (\<lambda>_ s.
         andthen (read_obj ip 0 64 s) (\<lambda>h s.
         case h of None \<Rightarrow> exec_bad 0 0 (Some ip) s
         | Some hb \<Rightarrow>
           let elf = get_elfhdr hb in
           if e_magic elf \<noteq> ELF_MAGIC then exec_bad 0 0 (Some ip) s
           else andthen (proc_pagetable p s) (\<lambda>pt s.
           if pt = 0 then exec_bad 0 0 (Some ip) s
           else andthen (exec_load pt ip (ucast (e_phoff elf)) (unat (e_phnum elf)) 0 s) (\<lambda>(ok, n) s.
           if \<not> ok then exec_bad pt n (Some ip) s
           else andthen (iunlockput ip s) (\<lambda>_ s.
                andthen (end_op s) (\<lambda>_ s.
                exec_commit path argv pt n elf s))))))))) "

end
