(* ===== verification/Proc_Life.thy ===== *)
theory Proc_Life
  imports Syscall_Args
begin

text \<open>
  The parts of \<open>kernel/proc.c\<close> that use the file system: \<open>userinit\<close>, \<open>fork\<close> and \<open>exit\<close>.
\<close>

definition PROT_READ :: int where "PROT_READ = 1"

definition PROT_WRITE :: int where "PROT_WRITE = 2"

definition PROT_EXEC :: int where "PROT_EXEC = 4"

definition MAP_SHARED :: int where "MAP_SHARED = 1"

text \<open>Division of C \<open>int\<close>s, which truncates towards 0.\<close>

definition cdiv :: "int \<Rightarrow> int \<Rightarrow> int" where
  "cdiv a b = (if a \<ge> 0 then a div b else - ((- a) div b))"

definition upd_vma :: "nat \<Rightarrow> nat \<Rightarrow> (mmapitem \<Rightarrow> mmapitem) \<Rightarrow> 'a proc_state_scheme \<Rightarrow> 'a proc_state_scheme" where
  "upd_vma p i f s = upd_proc p (\<lambda>q. q\<lparr>vma := (vma q)[i := f (vma q ! i)]\<rparr>) s"

definition initcode :: "u8 list" where
  "initcode =
    [0x17, 0x05, 0x00, 0x00, 0x13, 0x05, 0x45, 0x02,
     0x97, 0x05, 0x00, 0x00, 0x93, 0x85, 0x35, 0x02,
     0x93, 0x08, 0x70, 0x00, 0x73, 0x00, 0x00, 0x00,
     0x93, 0x08, 0x20, 0x00, 0x73, 0x00, 0x00, 0x00,
     0xef, 0xf0, 0x9f, 0xff, 0x2f, 0x69, 0x6e, 0x69,
     0x74, 0x00, 0x00, 0x24, 0x00, 0x00, 0x00, 0x00,
     0x00, 0x00, 0x00, 0x00]"

definition userinit :: "'a file_state_scheme \<Rightarrow> (unit, 'a file_state_scheme) res" where
  "userinit s =
     andthen (allocproc s) (\<lambda>po s.
     let s = s\<lparr>initproc := po\<rparr> in
     case po of None \<Rightarrow> Panic ''kerneltrap''
     | Some p \<Rightarrow>
         andthen (uvminit (pagetable (proc_at s p)) initcode s) (\<lambda>_ s.
         let s = upd_proc p (\<lambda>q. q\<lparr>sz := PGSIZE\<rparr>) s;
             s = tf_set p TF_epc 0 s;
             s = tf_set p TF_sp PGSIZE s;
             s = upd_proc p (\<lambda>q. q\<lparr>pname := safestrcpy (pname q) (arr (bytes_of ''initcode'')) 16\<rparr>) s
         in andthen (namei (bytes_of ''/'') s) (\<lambda>ip s.
            let s = upd_proc p (\<lambda>q. q\<lparr>cwd := ip\<rparr>) s;
                s = upd_proc p (\<lambda>q. q\<lparr>pstate := RUNNABLE\<rparr>) s
            in release (L_proc p) s)))"

text \<open>\<open>fork\<close>: the loops over the open files and over the mapped regions.\<close>

fun fork_files :: "nat \<Rightarrow> nat \<Rightarrow> nat \<Rightarrow> nat \<Rightarrow> 'a file_state_scheme \<Rightarrow> (unit, 'a file_state_scheme) res" where
  "fork_files p np i 0 s = Done () s"
| "fork_files p np i (Suc k) s =
     andthen (case ofile (proc_at s p) ! i of None \<Rightarrow> Done () s
       | Some f \<Rightarrow> andthen (filedup f s) (\<lambda>f s. Done () (upd_proc np (\<lambda>q. q\<lparr>ofile := (ofile q)[i := Some f]\<rparr>) s))) (\<lambda>_ s.
     fork_files p np (Suc i) k s)"

fun fork_vmas :: "nat \<Rightarrow> nat \<Rightarrow> nat \<Rightarrow> nat \<Rightarrow> 'a file_state_scheme \<Rightarrow> (unit, 'a file_state_scheme) res" where
  "fork_vmas p np i 0 s = Done () s"
| "fork_vmas p np i (Suc k) s =
     andthen (if used (vma (proc_at s p) ! i) \<noteq> 0
       then let s = upd_vma np i (\<lambda>_. vma (proc_at s p) ! i) s in
            case vfile (vma (proc_at s p) ! i) of None \<Rightarrow> Panic ''kerneltrap''
            | Some f \<Rightarrow> andthen (filedup f s) (\<lambda>_ s. Done () s)
       else Done () s) (\<lambda>_ s.
     fork_vmas p np (Suc i) k s)"

definition fork :: "'a file_state_scheme \<Rightarrow> (int, 'a file_state_scheme) res" where
  "fork s = with_proc s (\<lambda>p.
     andthen (allocproc s) (\<lambda>npo s.
     case npo of None \<Rightarrow> Done (- 1) s
     | Some np \<Rightarrow>
         andthen (uvmcopy (pagetable (proc_at s p)) (pagetable (proc_at s np)) (sz (proc_at s p)) s) (\<lambda>r s.
         if r < 0
         then andthen (freeproc np s) (\<lambda>_ s. andthen (release (L_proc np) s) (\<lambda>_ s. Done (- 1) s))
         else
           let s = upd_proc np (\<lambda>q. q\<lparr>sz := sz (proc_at s p), parent := Some p\<rparr>) s;
               s = s\<lparr>mem := mem_write (mem s) (trapframe (proc_at s np)) (mem_read (mem s) (trapframe (proc_at s p)) 288)\<rparr>;
               s = tf_set np TF_a0 0 s
           in andthen (fork_files p np 0 NOFILE s) (\<lambda>_ s.
              andthen (case cwd (proc_at s p) of None \<Rightarrow> Panic ''kerneltrap'' | Some d \<Rightarrow> idup d s) (\<lambda>d s.
              let s = upd_proc np (\<lambda>q. q\<lparr>cwd := Some d\<rparr>) s in
              andthen (fork_vmas p np 0 MAXMMAPITEM s) (\<lambda>_ s.
              let s = upd_proc np (\<lambda>q. q\<lparr>pname := safestrcpy (pname q) (arr (pname (proc_at s p))) 16\<rparr>) s;
                  n = pid (proc_at s np);
                  s = upd_proc np (\<lambda>q. q\<lparr>pstate := RUNNABLE\<rparr>) s
              in andthen (release (L_proc np) s) (\<lambda>_ s. Done n s)))))))"

fun exit_files :: "nat \<Rightarrow> nat \<Rightarrow> nat \<Rightarrow> 'a file_state_scheme \<Rightarrow> (unit, 'a file_state_scheme) res" where
  "exit_files p fd 0 s = Done () s"
| "exit_files p fd (Suc k) s =
     andthen (case ofile (proc_at s p) ! fd of None \<Rightarrow> Done () s
       | Some f \<Rightarrow> andthen (fileclose f s) (\<lambda>_ s. Done () (upd_proc p (\<lambda>q. q\<lparr>ofile := (ofile q)[fd := None]\<rparr>) s))) (\<lambda>_ s.
     exit_files p (Suc fd) k s)"

fun exit_vmas :: "nat \<Rightarrow> nat \<Rightarrow> nat \<Rightarrow> 'a file_state_scheme \<Rightarrow> (unit, 'a file_state_scheme) res" where
  "exit_vmas p i 0 s = Done () s"
| "exit_vmas p i (Suc k) s =
     andthen (let v = vma (proc_at s p) ! i in
       if used v \<noteq> 0
       then case vfile v of None \<Rightarrow> Panic ''kerneltrap''
         | Some f \<Rightarrow>
            andthen (if flags v = MAP_SHARED \<and> prot v AND PROT_WRITE \<noteq> 0
                     then andthen (filewrite f (addr v) (vlength v) s) (\<lambda>_ s. Done () s) else Done () s) (\<lambda>_ s.
            andthen (fileclose f s) (\<lambda>_ s.
            andthen (uvmunmap (pagetable (proc_at s p)) (addr v) (word_of_int (cdiv (vlength v) 4096)) True s) (\<lambda>_ s.
            Done () (upd_vma p i (\<lambda>v. v\<lparr>used := 0\<rparr>) s))))
       else Done () s) (\<lambda>_ s.
     exit_vmas p (Suc i) k s)"

definition exit :: "int \<Rightarrow> 'a file_state_scheme \<Rightarrow> (unit, 'a file_state_scheme) res" where
  "exit status s = with_proc s (\<lambda>p.
     if Some p = initproc s then Panic ''init exiting''
     else
       andthen (exit_files p 0 NOFILE s) (\<lambda>_ s.
       andthen (exit_vmas p 0 MAXMMAPITEM s) (\<lambda>_ s.
       andthen (begin_op s) (\<lambda>_ s.
       andthen (case cwd (proc_at s p) of None \<Rightarrow> Panic ''kerneltrap'' | Some d \<Rightarrow> iput d s) (\<lambda>_ s.
       andthen (end_op s) (\<lambda>_ s.
       let s = upd_proc p (\<lambda>q. q\<lparr>cwd := None\<rparr>) s in
       case initproc s of None \<Rightarrow> Panic ''kerneltrap''
       | Some ini \<Rightarrow>
           andthen (acquire (L_proc ini) s) (\<lambda>_ s.
           andthen (wakeup1 ini s) (\<lambda>_ s.
           andthen (release (L_proc ini) s) (\<lambda>_ s.
           andthen (acquire (L_proc p) s) (\<lambda>_ s.
           let original_parent = parent (proc_at s p) in
           andthen (release (L_proc p) s) (\<lambda>_ s.
           case original_parent of None \<Rightarrow> Panic ''kerneltrap''
           | Some pp \<Rightarrow>
               andthen (acquire (L_proc pp) s) (\<lambda>_ s.
               andthen (acquire (L_proc p) s) (\<lambda>_ s.
               andthen (reparent p s) (\<lambda>_ s.
               andthen (wakeup1 pp s) (\<lambda>_ s.
               let s = upd_proc p (\<lambda>q. q\<lparr>xstate := status, pstate := ZOMBIE\<rparr>) s in
               andthen (release (L_proc pp) s) (\<lambda>_ s.
               andthen (sched s) (\<lambda>_ s.
               Panic ''zombie exit'')))))))))))))))))"

end
