(* ===== verification/Sysfile.thy ===== *)
theory Sysfile
  imports Exec Proc_Life
begin

text \<open>
  The file system calls, \<open>kernel/sysfile.c\<close>. Each reads its arguments from the trapframe and returns
  the 64-bit value that goes into \<open>a0\<close>.
\<close>

definition O_RDONLY :: int where "O_RDONLY = 0x000"

definition O_WRONLY :: int where "O_WRONLY = 0x001"

definition O_RDWR :: int where "O_RDWR = 0x002"

definition O_CREATE :: int where "O_CREATE = 0x200"

definition O_TRUNC :: int where "O_TRUNC = 0x400"

definition argfd :: "nat \<Rightarrow> 'a file_state_scheme \<Rightarrow> ((int \<times> nat) option, 'a file_state_scheme) res" where
  "argfd n s =
     andthen (argint n s) (\<lambda>fd s.
     if fd < 0 \<or> fd \<ge> int NOFILE then Done None s
     else with_proc s (\<lambda>p. case ofile (proc_at s p) ! nat fd of
       None \<Rightarrow> Done None s | Some f \<Rightarrow> Done (Some (fd, f)) s))"

fun fdalloc_scan :: "nat option list \<Rightarrow> nat \<Rightarrow> nat \<Rightarrow> nat option" where
  "fdalloc_scan fs fd 0 = None"
| "fdalloc_scan fs fd (Suc k) = (if fs ! fd = None then Some fd else fdalloc_scan fs (Suc fd) k)"

definition fdalloc :: "nat \<Rightarrow> 'a file_state_scheme \<Rightarrow> (int, 'a file_state_scheme) res" where
  "fdalloc f s = with_proc s (\<lambda>p.
     case fdalloc_scan (ofile (proc_at s p)) 0 NOFILE of
       Some fd \<Rightarrow> Done (int fd) (upd_proc p (\<lambda>q. q\<lparr>ofile := (ofile q)[fd := Some f]\<rparr>) s)
     | None \<Rightarrow> Done (- 1) s)"

definition sys_dup :: "'a file_state_scheme \<Rightarrow> (u64, 'a file_state_scheme) res" where
  "sys_dup s =
     andthen (argfd 0 s) (\<lambda>r s.
     case r of None \<Rightarrow> Done (- 1) s
     | Some (_, f) \<Rightarrow>
         andthen (fdalloc f s) (\<lambda>fd s.
         if fd < 0 then Done (- 1) s
         else andthen (filedup f s) (\<lambda>_ s. Done (word_of_int fd) s)))"

definition sys_read :: "'a file_state_scheme \<Rightarrow> (u64, 'a file_state_scheme) res" where
  "sys_read s =
     andthen (argfd 0 s) (\<lambda>r s.
     case r of None \<Rightarrow> Done (- 1) s
     | Some (_, f) \<Rightarrow>
         andthen (argint 2 s) (\<lambda>n s. andthen (argaddr 1 s) (\<lambda>a s.
         andthen (fileread f a n s) (\<lambda>r s. Done (word_of_int r) s))))"

definition sys_write :: "'a file_state_scheme \<Rightarrow> (u64, 'a file_state_scheme) res" where
  "sys_write s =
     andthen (argfd 0 s) (\<lambda>r s.
     case r of None \<Rightarrow> Done (- 1) s
     | Some (_, f) \<Rightarrow>
         andthen (argint 2 s) (\<lambda>n s. andthen (argaddr 1 s) (\<lambda>a s.
         andthen (filewrite f a n s) (\<lambda>r s. Done (word_of_int r) s))))"

definition sys_close :: "'a file_state_scheme \<Rightarrow> (u64, 'a file_state_scheme) res" where
  "sys_close s =
     andthen (argfd 0 s) (\<lambda>r s.
     case r of None \<Rightarrow> Done (- 1) s
     | Some (fd, f) \<Rightarrow> with_proc s (\<lambda>p.
         andthen (fileclose f (upd_proc p (\<lambda>q. q\<lparr>ofile := (ofile q)[nat fd := None]\<rparr>) s)) (\<lambda>_ s. Done 0 s)))"

definition sys_fstat :: "'a file_state_scheme \<Rightarrow> (u64, 'a file_state_scheme) res" where
  "sys_fstat s =
     andthen (argfd 0 s) (\<lambda>r s.
     case r of None \<Rightarrow> Done (- 1) s
     | Some (_, f) \<Rightarrow> andthen (argaddr 1 s) (\<lambda>st s.
         andthen (filestat f st s) (\<lambda>r s. Done (word_of_int r) s)))"

definition sys_link_bad :: "nat \<Rightarrow> 'a file_state_scheme \<Rightarrow> (u64, 'a file_state_scheme) res" where
  "sys_link_bad ip s =
     andthen (ilock (Some ip) s) (\<lambda>_ s.
     andthen (iupdate ip (upd_inode ip (\<lambda>x. x\<lparr>nlink := nlink x - 1\<rparr>) s)) (\<lambda>_ s.
     andthen (iunlockput ip s) (\<lambda>_ s.
     andthen (end_op s) (\<lambda>_ s. Done (- 1) s))))"

definition sys_link :: "'a file_state_scheme \<Rightarrow> (u64, 'a file_state_scheme) res" where
  "sys_link s =
     andthen (argstr 0 MAXPATH s) (\<lambda>(r0, old) s.
     if r0 < 0 then Done (- 1) s
     else andthen (argstr 1 MAXPATH s) (\<lambda>(r1, new) s.
     if r1 < 0 then Done (- 1) s
     else andthen (begin_op s) (\<lambda>_ s.
     andthen (namei (cstr old) s) (\<lambda>ipo s.
     case ipo of None \<Rightarrow> andthen (end_op s) (\<lambda>_ s. Done (- 1) s)
     | Some ip \<Rightarrow>
         andthen (ilock (Some ip) s) (\<lambda>_ s.
         if itype (inode_at s ip) = T_DIR
         then andthen (iunlockput ip s) (\<lambda>_ s. andthen (end_op s) (\<lambda>_ s. Done (- 1) s))
         else
           andthen (iupdate ip (upd_inode ip (\<lambda>x. x\<lparr>nlink := nlink x + 1\<rparr>) s)) (\<lambda>_ s.
           andthen (iunlock (Some ip) s) (\<lambda>_ s.
           andthen (nameiparent (cstr new) (replicate DIRSIZ 0) s) (\<lambda>(dpo, name) s.
           case dpo of None \<Rightarrow> sys_link_bad ip s
           | Some dp \<Rightarrow>
               andthen (ilock (Some dp) s) (\<lambda>_ s.
               andthen (if idev (inode_at s dp) \<noteq> idev (inode_at s ip) then Done (- 1) s
                        else dirlink dp name (inum (inode_at s ip)) s) (\<lambda>r s.
               if r < 0 then andthen (iunlockput dp s) (\<lambda>_ s. sys_link_bad ip s)
               else andthen (iunlockput dp s) (\<lambda>_ s.
                    andthen (iput ip s) (\<lambda>_ s.
                    andthen (end_op s) (\<lambda>_ s. Done 0 s)))))))))))))"

function isdirempty_loop :: "nat \<Rightarrow> nat \<Rightarrow> nat \<Rightarrow> 'a fs_state_scheme \<Rightarrow> (bool, 'a fs_state_scheme) res" where
  "isdirempty_loop dp lim off s =
     (if off < lim
      then andthen (read_dirent dp off ''isdirempty: readi'' s) (\<lambda>(ino, _) s.
           if ino \<noteq> 0 then Done False s else isdirempty_loop dp lim (off + 16) s)
      else Done True s)"
  by pat_completeness auto

termination by (relation "measure (\<lambda>(_, lim, off, _). lim - off)") auto

declare isdirempty_loop.simps [simp del]

definition isdirempty :: "nat \<Rightarrow> 'a fs_state_scheme \<Rightarrow> (bool, 'a fs_state_scheme) res" where
  "isdirempty dp s = isdirempty_loop dp (unat (isize (inode_at s dp))) 32 s"

definition sys_unlink_bad :: "nat \<Rightarrow> 'a file_state_scheme \<Rightarrow> (u64, 'a file_state_scheme) res" where
  "sys_unlink_bad dp s =
     andthen (iunlockput dp s) (\<lambda>_ s. andthen (end_op s) (\<lambda>_ s. Done (- 1) s))"

definition sys_unlink :: "'a file_state_scheme \<Rightarrow> (u64, 'a file_state_scheme) res" where
  "sys_unlink s =
     andthen (argstr 0 MAXPATH s) (\<lambda>(r0, path) s.
     if r0 < 0 then Done (- 1) s
     else andthen (begin_op s) (\<lambda>_ s.
     andthen (nameiparent (cstr path) (replicate DIRSIZ 0) s) (\<lambda>(dpo, name) s.
     case dpo of None \<Rightarrow> andthen (end_op s) (\<lambda>_ s. Done (- 1) s)
     | Some dp \<Rightarrow>
         andthen (ilock (Some dp) s) (\<lambda>_ s.
         if namecmp (arr name) (arr (bytes_of ''.'')) = 0 \<or> namecmp (arr name) (arr (bytes_of ''..'')) = 0
         then sys_unlink_bad dp s
         else andthen (dirlookup dp name s) (\<lambda>r s.
         case r of None \<Rightarrow> sys_unlink_bad dp s
         | Some (ip, off) \<Rightarrow>
             andthen (ilock (Some ip) s) (\<lambda>_ s.
             if sint (nlink (inode_at s ip)) < 1 then Panic ''unlink: nlink < 1''
             else andthen (if itype (inode_at s ip) = T_DIR then isdirempty ip s else Done True s) (\<lambda>e s.
             if \<not> e then andthen (iunlockput ip s) (\<lambda>_ s. sys_unlink_bad dp s)
             else andthen (writei dp (BufSrc (replicate 16 0)) (of_nat off) 16 s) (\<lambda>r s.
             if r \<noteq> 16 then Panic ''unlink: writei''
             else andthen (if itype (inode_at s ip) = T_DIR
                           then iupdate dp (upd_inode dp (\<lambda>x. x\<lparr>nlink := nlink x - 1\<rparr>) s) else Done () s) (\<lambda>_ s.
             andthen (iunlockput dp s) (\<lambda>_ s.
             andthen (iupdate ip (upd_inode ip (\<lambda>x. x\<lparr>nlink := nlink x - 1\<rparr>) s)) (\<lambda>_ s.
             andthen (iunlockput ip s) (\<lambda>_ s.
             andthen (end_op s) (\<lambda>_ s. Done 0 s)))))))))))))"

text \<open>\<open>create\<close> returns the inode locked.\<close>

definition create_new :: "nat \<Rightarrow> u8 list \<Rightarrow> u16 \<Rightarrow> u16 \<Rightarrow> u16 \<Rightarrow> 'a fs_state_scheme \<Rightarrow> (nat option, 'a fs_state_scheme) res" where
  "create_new dp name type mjr mnr s =
     andthen (ialloc (idev (inode_at s dp)) type s) (\<lambda>ip s.
     andthen (ilock (Some ip) s) (\<lambda>_ s.
     andthen (iupdate ip (upd_inode ip (\<lambda>x. x\<lparr>imajor := mjr, iminor := mnr, nlink := 1\<rparr>) s)) (\<lambda>_ s.
     andthen (if type = T_DIR
       then andthen (iupdate dp (upd_inode dp (\<lambda>x. x\<lparr>nlink := nlink x + 1\<rparr>) s)) (\<lambda>_ s.
            andthen (dirlink ip (bytes_of ''.'') (inum (inode_at s ip)) s) (\<lambda>r s.
            if r < 0 then Panic ''create dots''
            else andthen (dirlink ip (bytes_of ''..'') (inum (inode_at s dp)) s) (\<lambda>r s.
            if r < 0 then Panic ''create dots'' else Done () s)))
       else Done () s) (\<lambda>_ s.
     andthen (dirlink dp name (inum (inode_at s ip)) s) (\<lambda>r s.
     if r < 0 then Panic ''create: dirlink''
     else andthen (iunlockput dp s) (\<lambda>_ s. Done (Some ip) s))))))"

definition create :: "u8 list \<Rightarrow> u16 \<Rightarrow> u16 \<Rightarrow> u16 \<Rightarrow> 'a fs_state_scheme \<Rightarrow> (nat option, 'a fs_state_scheme) res" where
  "create path type mjr mnr s =
     andthen (nameiparent path (replicate DIRSIZ 0) s) (\<lambda>(dpo, name) s.
     case dpo of None \<Rightarrow> Done None s
     | Some dp \<Rightarrow>
         andthen (ilock (Some dp) s) (\<lambda>_ s.
         andthen (dirlookup dp name s) (\<lambda>r s.
         case r of
           Some (ip, _) \<Rightarrow>
             andthen (iunlockput dp s) (\<lambda>_ s.
             andthen (ilock (Some ip) s) (\<lambda>_ s.
             if type = T_FILE \<and> (itype (inode_at s ip) = T_FILE \<or> itype (inode_at s ip) = T_DEVICE)
             then Done (Some ip) s
             else andthen (iunlockput ip s) (\<lambda>_ s. Done None s)))
         | None \<Rightarrow> create_new dp name type mjr mnr s)))"

definition sys_open_file :: "nat \<Rightarrow> int \<Rightarrow> 'a file_state_scheme \<Rightarrow> (u64, 'a file_state_scheme) res" where
  "sys_open_file ip omode s =
     (if itype (inode_at s ip) = T_DEVICE \<and> (sint (imajor (inode_at s ip)) < 0 \<or> sint (imajor (inode_at s ip)) \<ge> int NDEV)
      then andthen (iunlockput ip s) (\<lambda>_ s. andthen (end_op s) (\<lambda>_ s. Done (- 1) s))
      else andthen (filealloc s) (\<lambda>fo s.
      andthen (case fo of None \<Rightarrow> Done (- 1) s | Some f \<Rightarrow> fdalloc f s) (\<lambda>fd s.
      case fo of
        None \<Rightarrow> andthen (iunlockput ip s) (\<lambda>_ s. andthen (end_op s) (\<lambda>_ s. Done (- 1) s))
      | Some f \<Rightarrow>
          if fd < 0
          then andthen (fileclose f s) (\<lambda>_ s. andthen (iunlockput ip s) (\<lambda>_ s. andthen (end_op s) (\<lambda>_ s. Done (- 1) s)))
          else
            let s = (if itype (inode_at s ip) = T_DEVICE
                     then upd_file f (\<lambda>x. x\<lparr>ftype := FD_DEVICE, fmajor := imajor (inode_at s ip)\<rparr>) s
                     else upd_file f (\<lambda>x. x\<lparr>ftype := FD_INODE, foff := 0\<rparr>) s);
                s = upd_file f (\<lambda>x. x\<lparr>fip := Some ip, readable := (omode AND O_WRONLY = 0),
                      writable := (omode AND O_WRONLY \<noteq> 0 \<or> omode AND O_RDWR \<noteq> 0)\<rparr>) s
            in andthen (if omode AND O_TRUNC \<noteq> 0 \<and> itype (inode_at s ip) = T_FILE then itrunc ip s else Done () s) (\<lambda>_ s.
               andthen (iunlock (Some ip) s) (\<lambda>_ s.
               andthen (end_op s) (\<lambda>_ s. Done (word_of_int fd) s))))))"

definition sys_open :: "'a file_state_scheme \<Rightarrow> (u64, 'a file_state_scheme) res" where
  "sys_open s =
     andthen (argstr 0 MAXPATH s) (\<lambda>(r0, path) s.
     if r0 < 0 then Done (- 1) s
     else andthen (argint 1 s) (\<lambda>omode s.
     andthen (begin_op s) (\<lambda>_ s.
     if omode AND O_CREATE \<noteq> 0
     then andthen (create (cstr path) T_FILE 0 0 s) (\<lambda>ipo s.
          case ipo of None \<Rightarrow> andthen (end_op s) (\<lambda>_ s. Done (- 1) s)
          | Some ip \<Rightarrow> sys_open_file ip omode s)
     else andthen (namei (cstr path) s) (\<lambda>ipo s.
          case ipo of None \<Rightarrow> andthen (end_op s) (\<lambda>_ s. Done (- 1) s)
          | Some ip \<Rightarrow>
              andthen (ilock (Some ip) s) (\<lambda>_ s.
              if itype (inode_at s ip) = T_DIR \<and> omode \<noteq> O_RDONLY
              then andthen (iunlockput ip s) (\<lambda>_ s. andthen (end_op s) (\<lambda>_ s. Done (- 1) s))
              else sys_open_file ip omode s)))))"

definition sys_mkdir :: "'a file_state_scheme \<Rightarrow> (u64, 'a file_state_scheme) res" where
  "sys_mkdir s =
     andthen (begin_op s) (\<lambda>_ s.
     andthen (argstr 0 MAXPATH s) (\<lambda>(r0, path) s.
     andthen (if r0 < 0 then Done None s else create (cstr path) T_DIR 0 0 s) (\<lambda>ipo s.
     case ipo of None \<Rightarrow> andthen (end_op s) (\<lambda>_ s. Done (- 1) s)
     | Some ip \<Rightarrow> andthen (iunlockput ip s) (\<lambda>_ s. andthen (end_op s) (\<lambda>_ s. Done 0 s)))))"

definition sys_mknod :: "'a file_state_scheme \<Rightarrow> (u64, 'a file_state_scheme) res" where
  "sys_mknod s =
     andthen (begin_op s) (\<lambda>_ s.
     andthen (argstr 0 MAXPATH s) (\<lambda>(r0, path) s.
     andthen (if r0 < 0 then Done None s
       else andthen (argint 1 s) (\<lambda>mjr s. andthen (argint 2 s) (\<lambda>mnr s.
            create (cstr path) T_DEVICE (word_of_int mjr) (word_of_int mnr) s))) (\<lambda>ipo s.
     case ipo of None \<Rightarrow> andthen (end_op s) (\<lambda>_ s. Done (- 1) s)
     | Some ip \<Rightarrow> andthen (iunlockput ip s) (\<lambda>_ s. andthen (end_op s) (\<lambda>_ s. Done 0 s)))))"

definition sys_chdir :: "'a file_state_scheme \<Rightarrow> (u64, 'a file_state_scheme) res" where
  "sys_chdir s = with_proc s (\<lambda>p.
     andthen (begin_op s) (\<lambda>_ s.
     andthen (argstr 0 MAXPATH s) (\<lambda>(r0, path) s.
     andthen (if r0 < 0 then Done None s else namei (cstr path) s) (\<lambda>ipo s.
     case ipo of None \<Rightarrow> andthen (end_op s) (\<lambda>_ s. Done (- 1) s)
     | Some ip \<Rightarrow>
         andthen (ilock (Some ip) s) (\<lambda>_ s.
         if itype (inode_at s ip) \<noteq> T_DIR
         then andthen (iunlockput ip s) (\<lambda>_ s. andthen (end_op s) (\<lambda>_ s. Done (- 1) s))
         else
           andthen (iunlock (Some ip) s) (\<lambda>_ s.
           andthen (case cwd (proc_at s p) of None \<Rightarrow> Panic ''kerneltrap'' | Some d \<Rightarrow> iput d s) (\<lambda>_ s.
           andthen (end_op s) (\<lambda>_ s.
           Done 0 (upd_proc p (\<lambda>q. q\<lparr>cwd := Some ip\<rparr>) s))))))))) "

fun kfree_all :: "u64 list \<Rightarrow> 'a kmem_state_scheme \<Rightarrow> (unit, 'a kmem_state_scheme) res" where
  "kfree_all [] s = Done () s"
| "kfree_all (a # as) s = andthen (kfree a s) (\<lambda>_ s. kfree_all as s)"

text \<open>The argument loop of \<open>sys_exec\<close>, with \<open>k\<close> slots of \<open>argv\<close> left: success, the pages in use and the strings.\<close>

fun sys_exec_args :: "u64 \<Rightarrow> nat \<Rightarrow> nat \<Rightarrow> u64 list \<Rightarrow> u8 list list \<Rightarrow> 'a file_state_scheme \<Rightarrow> (bool \<times> u64 list \<times> u8 list list, 'a file_state_scheme) res" where
  "sys_exec_args uargv i 0 pgs strs s = Done (False, pgs, strs) s"
| "sys_exec_args uargv i (Suc k) pgs strs s =
     andthen (fetchaddr (uargv + 8 * of_nat i) s) (\<lambda>r s.
     case r of None \<Rightarrow> Done (False, pgs, strs) s
     | Some uarg \<Rightarrow>
         if uarg = 0 then Done (True, pgs, strs) s
         else andthen (kalloc s) (\<lambda>a s.
         if a = 0 then Done (False, pgs, strs) s
         else andthen (fetchstr uarg 4096 s) (\<lambda>(r, buf) s.
              let s = s\<lparr>mem := mem_write (mem s) a buf\<rparr> in
              if r < 0 then Done (False, pgs @ [a], strs) s
              else sys_exec_args uargv (Suc i) k (pgs @ [a]) (strs @ [cstr buf]) s)))"

definition sys_exec :: "'a file_state_scheme \<Rightarrow> (u64, 'a file_state_scheme) res" where
  "sys_exec s =
     andthen (argstr 0 MAXPATH s) (\<lambda>(r0, path) s.
     if r0 < 0 then Done (- 1) s
     else andthen (argaddr 1 s) (\<lambda>uargv s.
     andthen (sys_exec_args uargv 0 MAXARG [] [] s) (\<lambda>(ok, pgs, argv) s.
     if ok
     then andthen (exec (cstr path) argv s) (\<lambda>ret s.
          andthen (kfree_all pgs s) (\<lambda>_ s. Done (word_of_int ret) s))
     else andthen (kfree_all pgs s) (\<lambda>_ s. Done (- 1) s))))"

definition sys_pipe :: "'a file_state_scheme \<Rightarrow> (u64, 'a file_state_scheme) res" where
  "sys_pipe s = with_proc s (\<lambda>p.
     let clear = (\<lambda>fd. upd_proc p (\<lambda>q. q\<lparr>ofile := (ofile q)[nat fd := None]\<rparr>)) in
     andthen (argaddr 0 s) (\<lambda>fdarray s.
     andthen (pipealloc s) (\<lambda>r s.
     case r of None \<Rightarrow> Done (- 1) s
     | Some (rf, wrf) \<Rightarrow>
         let close = (\<lambda>s. andthen (fileclose rf s) (\<lambda>_ s. andthen (fileclose wrf s) (\<lambda>_ s. Done (- 1) s))) in
         andthen (fdalloc rf s) (\<lambda>fd0 s.
         if fd0 < 0 then close s
         else andthen (fdalloc wrf s) (\<lambda>fd1 s.
         if fd1 < 0 then close (clear fd0 s)
         else andthen (copyout (pagetable (proc_at s p)) fdarray (word_le 4 (word_of_int fd0 :: u32)) s) (\<lambda>r s.
         andthen (if r < 0 then Done r s
                  else copyout (pagetable (proc_at s p)) (fdarray + 4) (word_le 4 (word_of_int fd1 :: u32)) s) (\<lambda>r s.
         if r < 0 then close (clear fd1 (clear fd0 s)) else Done 0 s)))))))"

end
