(* ===== verification/Shell.thy ===== *)
theory Shell
  imports Ulib Sysfile
begin

text \<open>
  The shell, \<open>user/sh.c\<close>: tokens, the recursive-descent parser, and the termination of its strings in place. The parser returns
  on every line, and the strings of a command are words of the line. Running the parsed commands is system calls only and is not
  modelled.
\<close>

section \<open>Commands\<close>

definition MAXARGS :: nat where "MAXARGS = 10"

text \<open>A string of the command line is kept by the positions of its first byte and of the byte after its last one, as the
  pointers \<open>argv[i]\<close> and \<open>eargv[i]\<close>, \<open>file\<close> and \<open>efile\<close> do. The allocation of the nodes succeeds.\<close>

datatype cmd =
    EXEC "(nat \<times> nat) list"
  | REDIR cmd nat nat int int
  | PIPE cmd cmd
  | LIST cmd cmd
  | BACK cmd

definition execcmd :: cmd where "execcmd = EXEC []"

definition redircmd :: "cmd \<Rightarrow> nat \<Rightarrow> nat \<Rightarrow> int \<Rightarrow> int \<Rightarrow> cmd" where "redircmd subcmd file efile mode fd = REDIR subcmd file efile mode fd"

definition pipecmd :: "cmd \<Rightarrow> cmd \<Rightarrow> cmd" where "pipecmd left right = PIPE left right"

definition listcmd :: "cmd \<Rightarrow> cmd \<Rightarrow> cmd" where "listcmd left right = LIST left right"

definition backcmd :: "cmd \<Rightarrow> cmd" where "backcmd subcmd = BACK subcmd"

lemmas cmd_defs = execcmd_def redircmd_def pipecmd_def listcmd_def backcmd_def

section \<open>Tokens\<close>

text \<open>The parser works on the bytes \<open>b\<close> of the line before its NUL, so \<open>es\<close> is the length of \<open>b\<close>; \<open>s\<close> is the position \<open>*ps\<close>.\<close>

definition whitespace :: "u8 list" where "whitespace = [32, 9, 13, 10, 11]"

definition symbols :: "u8 list" where "symbols = bytes_of ''<|>&;()''"

function skip_space :: "u8 list \<Rightarrow> nat \<Rightarrow> nat" where
  "skip_space b s = (if s < length b \<and> strchr whitespace (char_at b s) \<noteq> None then skip_space b (s + 1) else s)"
  by pat_completeness auto

termination by (relation "measure (\<lambda>(b, s). length b - s)") auto

function skip_word :: "u8 list \<Rightarrow> nat \<Rightarrow> nat" where
  "skip_word b s = (if s < length b \<and> strchr whitespace (char_at b s) = None \<and> strchr symbols (char_at b s) = None
     then skip_word b (s + 1) else s)"
  by pat_completeness auto

termination by (relation "measure (\<lambda>(b, s). length b - s)") auto

declare skip_space.simps [simp del] skip_word.simps [simp del]

text \<open>The token (0 at the end, \<open>a\<close> for a word, \<open>+\<close> for \<open>>>\<close>), its bounds, and the new position.\<close>

definition gettoken :: "u8 list \<Rightarrow> nat \<Rightarrow> u8 \<times> nat \<times> nat \<times> nat" where
  "gettoken b s =
     (let s = skip_space b s;
          q = s;
          c = char_at b s;
          (ret, s) =
            (if c = 0 then (c, s)
             else if c \<in> set (bytes_of ''|();&<'') then (c, s + 1)
             else if c = 62 then (if char_at b (s + 1) = 62 then (43, s + 2) else (c, s + 1))
             else (97, skip_word b s))
      in (ret, q, s, skip_space b s))"

definition peek :: "u8 list \<Rightarrow> u8 list \<Rightarrow> nat \<Rightarrow> bool \<times> nat" where
  "peek b toks s = (let s = skip_space b s in (char_at b s \<noteq> 0 \<and> strchr toks (char_at b s) \<noteq> None, s))"

lemma strchr_iff: "0 \<notin> set xs \<Longrightarrow> strchr xs c \<noteq> None \<longleftrightarrow> c \<in> set xs"
  by (simp add: strchr_no_nul)

lemma whitespace_iff: "strchr whitespace c \<noteq> None \<longleftrightarrow> c \<in> {32, 9, 13, 10, 11}"
  by (subst strchr_iff) (auto simp: whitespace_def)

lemma symbols_eq: "symbols = [60, 124, 62, 38, 59, 40, 41]"
  by code_simp

lemma symbols_iff: "strchr symbols c \<noteq> None \<longleftrightarrow> c \<in> {60, 124, 62, 38, 59, 40, 41}"
  by (subst strchr_iff) (auto simp: symbols_eq)

lemma single_symbols: "set (bytes_of ''|();&<'') = {124, 40, 41, 59, 38, 60}"
  by code_simp

lemma skip_space_le: "s \<le> skip_space b s"
  by (induction b s rule: skip_space.induct) (subst skip_space.simps, auto)

lemma skip_word_le: "s \<le> skip_word b s"
  by (induction b s rule: skip_word.induct) (subst skip_word.simps, auto)

lemma skip_space_stop: "skip_space b s < length b \<Longrightarrow> strchr whitespace (char_at b (skip_space b s)) = None"
proof (induction b s rule: skip_space.induct)
  case (1 b s)
  then show ?case using skip_space.simps [of b s] by (cases "s < length b \<and> strchr whitespace (char_at b s) \<noteq> None") auto
qed

lemma skip_space_idem: "skip_space b (skip_space b s) = skip_space b s"
  using skip_space_stop [of b s] by (subst skip_space.simps) auto

lemma char_at_less: "char_at b s \<noteq> 0 \<Longrightarrow> s < length b"
  by (simp add: char_at_def split: if_splits)

lemma skip_word_less:
  "s < length b \<Longrightarrow> strchr whitespace (char_at b s) = None \<Longrightarrow> strchr symbols (char_at b s) = None \<Longrightarrow> s < skip_word b s"
  using skip_word_le [of "s + 1" b] by (subst skip_word.simps) simp

text \<open>\<open>gettoken\<close> moves on, past the end of the token if there is one.\<close>

lemma gettoken_moves:
  assumes "gettoken b s = (ret, q, e, s')"
  shows "s \<le> q" "q \<le> e" "e \<le> s'" "ret = 0 \<longleftrightarrow> q = e" "ret \<noteq> 0 \<Longrightarrow> q < length b" "q = skip_space b s" "s' = skip_space b e"
proof -
  let ?q = "skip_space b s"
  let ?c = "char_at b ?q"
  have q: "q = ?q" "s' = skip_space b e" using assms by (auto simp: gettoken_def Let_def split: prod.splits)
  show "q = skip_space b s" "s' = skip_space b e" by fact+
  show "s \<le> q" using skip_space_le q by simp
  show "e \<le> s'" using skip_space_le q by simp
  have "q \<le> e \<and> (ret = 0 \<longleftrightarrow> q = e) \<and> (ret \<noteq> 0 \<longrightarrow> q < length b)"
  proof (cases "?c = 0")
    case True
    then show ?thesis using assms by (auto simp: gettoken_def Let_def)
  next
    case False
    then have l: "?q < length b" by (rule char_at_less)
    have "?q < skip_word b ?q" if "?c \<notin> {60, 124, 62, 38, 59, 40, 41}"
      using that symbols_iff [of ?c] by (intro skip_word_less l skip_space_stop) auto
    then show ?thesis using assms False l q by (auto simp: gettoken_def Let_def single_symbols split: if_splits)
  qed
  then show "q \<le> e" "ret = 0 \<longleftrightarrow> q = e" "ret \<noteq> 0 \<Longrightarrow> q < length b" by blast+
qed

lemma peek_moves: "peek b toks s = (t, s') \<Longrightarrow> s \<le> s' \<and> (t \<longrightarrow> s' < length b) \<and> s' = skip_space b s"
  using skip_space_le [of s b] by (auto simp: peek_def Let_def dest: char_at_less)

lemma peek_gettoken:
  assumes "peek b toks s = (True, s')" and "gettoken b s' = (ret, q, e, s'')"
  shows "s < s''" "s'' \<le> length b \<Longrightarrow> length b - s'' < length b - s" "s < length b"
proof -
  have c: "char_at b s' \<noteq> 0" "s' = skip_space b s" using assms(1) by (auto simp: peek_def Let_def)
  then have "ret \<noteq> 0" using assms(2) skip_space_idem [of b s] by (auto simp: gettoken_def Let_def split: if_splits)
  then show l: "s < s''" using gettoken_moves [OF assms(2)] skip_space_le [of s b] c(2) by linarith
  show "s < length b" using char_at_less [OF c(1)] c(2) skip_space_le [of s b] by simp
  then show "s'' \<le> length b \<Longrightarrow> length b - s'' < length b - s" using l by simp
qed

section \<open>The parser\<close>

lemma redir_moves:
  assumes "(t, s1) = peek b toks s" and t and "(r, u, v, s2) = gettoken b s1" and "(r', u', v', s3) = gettoken b s2"
  shows "s < s3 \<and> s < length b"
proof -
  have p: "peek b toks s = (True, s1)" using assms(1,2) by simp
  show ?thesis using peek_gettoken [OF p assms(3) [symmetric]] gettoken_moves [OF assms(4) [symmetric]] by simp
qed

lemma redir_less:
  "(True, s1) = peek b toks s \<Longrightarrow> (r, u, v, s2) = gettoken b s1 \<Longrightarrow> (r', u', v', s3) = gettoken b s2 \<Longrightarrow> length b - s3 < length b - s"
  using redir_moves [of True s1 b toks s r u v s2 r' u' v' s3] by (simp add: diff_less_mono2)

text \<open>An outcome \<open>Done c s\<close> is the command and the position after it; \<open>Panic\<close> is the shell's own \<open>panic\<close>, which exits.\<close>

function parseredirs :: "cmd \<Rightarrow> u8 list \<Rightarrow> nat \<Rightarrow> (cmd, nat) res" where
  "parseredirs c b s =
     (case peek b (bytes_of ''<>'') s of (t, s) \<Rightarrow>
      if t
      then case gettoken b s of (tok, _, _, s) \<Rightarrow>
           case gettoken b s of (ret, q, eq, s) \<Rightarrow>
           if ret \<noteq> 97 then Panic ''missing file for redirection''
           else parseredirs
             (if tok = 60 then redircmd c q eq O_RDONLY 0
              else if tok = 62 then redircmd c q eq (O_WRONLY OR O_CREATE OR O_TRUNC) 1
              else if tok = 43 then redircmd c q eq (O_WRONLY OR O_CREATE) 1
              else c) b s
      else Done c s)"
  by pat_completeness auto

termination
  by (relation "measure (\<lambda>(_, b, s). length b - s)") (auto intro: redir_less)

declare parseredirs.simps [simp del]

lemma tok_less: "(True, s1) = peek b toks s \<Longrightarrow> (r, u, v, s2) = gettoken b s1 \<Longrightarrow> length b - s2 < length b - s"
  using peek_gettoken [of b toks s s1 r u v s2] by (simp add: diff_less_mono2)

text \<open>The loop of \<open>parseline\<close> over \<open>&\<close>.\<close>

function parse_backs :: "cmd \<Rightarrow> u8 list \<Rightarrow> nat \<Rightarrow> cmd \<times> nat" where
  "parse_backs c b s =
     (case peek b (bytes_of ''&'') s of (t, s) \<Rightarrow>
      if t then case gettoken b s of (_, _, _, s) \<Rightarrow> parse_backs (backcmd c) b s else (c, s))"
  by pat_completeness auto

termination
  by (relation "measure (\<lambda>(_, b, s). length b - s)") (auto intro: tok_less)

declare parse_backs.simps [simp del]

lemma parseredirs_moves: "parseredirs c b s = Done r s' \<Longrightarrow> s \<le> s'"
proof (induction c b s rule: parseredirs.induct)
  case (1 c b s)
  obtain t s1 where p: "peek b (bytes_of ''<>'') s = (t, s1)" by (cases "peek b (bytes_of ''<>'') s")
  obtain tok u v s2 where g: "gettoken b s1 = (tok, u, v, s2)" by (cases "gettoken b s1")
  obtain ret q eq s3 where h: "gettoken b s2 = (ret, q, eq, s3)" by (cases "gettoken b s2")
  have m: "s \<le> s1" "s1 \<le> s2" "s2 \<le> s3" using peek_moves [OF p] gettoken_moves(1-3) [OF g] gettoken_moves(1-3) [OF h] by auto
  show ?case
  proof (cases t)
    case True
    then show ?thesis using "1.IH" [OF p [symmetric] True g [symmetric] refl refl h [symmetric] refl refl] "1.prems" m
      parseredirs.simps [of c b s] p g h by (auto split: if_splits)
  next
    case False
    then show ?thesis using "1.prems" m parseredirs.simps [of c b s] p by simp
  qed
qed

text \<open>\<open>cmd->argv\<close> and \<open>cmd->eargv\<close> of the \<open>execcmd\<close> that the redirections wrap.\<close>

fun set_argv :: "(nat \<times> nat) list \<Rightarrow> cmd \<Rightarrow> cmd" where
  "set_argv args (EXEC _) = EXEC args"
| "set_argv args (REDIR c q eq mode fd) = REDIR (set_argv args c) q eq mode fd"
| "set_argv args c = c"

lemma arg_less:
  assumes "(t, s1) = peek b toks s" and "(tok, q, e, s2) = gettoken b s1" and "tok \<noteq> 0" and "parseredirs c b s2 = Done r s3"
  shows "length b - s3 < length b - s"
proof -
  note g = gettoken_moves [OF assms(2) [symmetric]]
  have "q < e" "q < length b" using g(2,4,5) assms(3) by auto
  then have "s < s3" "s < length b" using g peek_moves [OF assms(1) [symmetric]] parseredirs_moves [OF assms(4)] by auto
  then show ?thesis by simp
qed

text \<open>The loop of \<open>parseexec\<close>.\<close>

function parse_args :: "cmd \<Rightarrow> (nat \<times> nat) list \<Rightarrow> u8 list \<Rightarrow> nat \<Rightarrow> (cmd, nat) res" where
  "parse_args ret args b s =
     (case peek b (bytes_of ''|)&;'') s of (t, s) \<Rightarrow>
      if t then Done (set_argv args ret) s
      else case gettoken b s of (tok, q, eq, s) \<Rightarrow>
           if tok = 0 then Done (set_argv args ret) s
           else if tok \<noteq> 97 then Panic ''syntax''
           else let args = args @ [(q, eq)] in
                if length args \<ge> MAXARGS then Panic ''too many args''
                else andthen (parseredirs ret b s) (\<lambda>ret s. parse_args ret args b s))"
  by pat_completeness auto

termination
  by (relation "measure (\<lambda>(_, _, b, s). length b - s)") (auto intro: arg_less)

declare parse_args.simps [simp del]

text \<open>The grammar. The first argument bounds the depth of the recursion; out of it, the outcome is \<open>Hang\<close>. Each nesting
  level has consumed a byte of the line and passes through four functions.\<close>

fun parseline :: "nat \<Rightarrow> u8 list \<Rightarrow> nat \<Rightarrow> (cmd, nat) res"
  and parsepipe :: "nat \<Rightarrow> u8 list \<Rightarrow> nat \<Rightarrow> (cmd, nat) res"
  and parseexec :: "nat \<Rightarrow> u8 list \<Rightarrow> nat \<Rightarrow> (cmd, nat) res"
  and parseblock :: "nat \<Rightarrow> u8 list \<Rightarrow> nat \<Rightarrow> (cmd, nat) res" where
  "parseline 0 b s = Hang"
| "parseline (Suc n) b s =
     andthen (parsepipe n b s) (\<lambda>c s.
     case parse_backs c b s of (c, s) \<Rightarrow>
     case peek b (bytes_of '';'') s of (t, s) \<Rightarrow>
     if t
     then case gettoken b s of (_, _, _, s) \<Rightarrow> andthen (parseline n b s) (\<lambda>r s. Done (listcmd c r) s)
     else Done c s)"
| "parsepipe 0 b s = Hang"
| "parsepipe (Suc n) b s =
     andthen (parseexec n b s) (\<lambda>c s.
     case peek b (bytes_of ''|'') s of (t, s) \<Rightarrow>
     if t
     then case gettoken b s of (_, _, _, s) \<Rightarrow> andthen (parsepipe n b s) (\<lambda>r s. Done (pipecmd c r) s)
     else Done c s)"
| "parseexec 0 b s = Hang"
| "parseexec (Suc n) b s =
     (case peek b (bytes_of ''('') s of (t, s) \<Rightarrow>
      if t then parseblock n b s
      else andthen (parseredirs execcmd b s) (\<lambda>ret s. parse_args ret [] b s))"
| "parseblock 0 b s = Hang"
| "parseblock (Suc n) b s =
     (case peek b (bytes_of ''('') s of (t, s) \<Rightarrow>
      if \<not> t then Panic ''parseblock''
      else case gettoken b s of (_, _, _, s) \<Rightarrow>
           andthen (parseline n b s) (\<lambda>c s.
           case peek b (bytes_of '')'') s of (t, s) \<Rightarrow>
           if \<not> t then Panic ''syntax - missing )''
           else case gettoken b s of (_, _, _, s) \<Rightarrow> parseredirs c b s))"

fun nulterminate :: "cmd \<Rightarrow> u8 list \<Rightarrow> u8 list" where
  "nulterminate (EXEC args) l = foldl (\<lambda>l (_, eq). l[eq := 0]) l args"
| "nulterminate (REDIR c q eq mode fd) l = (nulterminate c l)[eq := 0]"
| "nulterminate (PIPE left right) l = nulterminate right (nulterminate left l)"
| "nulterminate (LIST left right) l = nulterminate right (nulterminate left l)"
| "nulterminate (BACK c) l = nulterminate c l"

text \<open>\<open>parsecmd\<close> on the array \<open>l\<close>: the command, and the array with its strings terminated.\<close>

definition parsecmd :: "u8 list \<Rightarrow> (cmd \<times> u8 list, nat) res" where
  "parsecmd l =
     (let b = cstr l in
      andthen (parseline (4 * length b + 4) b 0) (\<lambda>c s.
      case peek b [] s of (_, s) \<Rightarrow>
      if s \<noteq> length b then Panic ''syntax'' else Done (c, nulterminate c l) s))"

text \<open>\<open>getcmd\<close>, after the prompt: 0 and a line, or -1 at the end of the input.\<close>

definition getcmd :: "nat \<Rightarrow> u8 list list \<Rightarrow> int \<times> u8 list \<times> u8 list list" where
  "getcmd nbuf fd =
     (let (buf, fd) = gets (replicate nbuf 0) nbuf fd
      in (if char_at buf 0 = 0 then - 1 else 0, buf, fd))"

section \<open>The parser terminates\<close>

lemma redir_chars: "bytes_of ''<>'' = [60, 62]" "bytes_of ''&'' = [38]" "bytes_of '';'' = [59]" "bytes_of ''|'' = [124]"
  "bytes_of ''('' = [40]" "bytes_of '')'' = [41]" "bytes_of ''|)&;'' = [124, 41, 38, 59]"
  by code_simp+

lemma peek_iff: "0 \<notin> set toks \<Longrightarrow> peek b toks s = (t, s') \<longleftrightarrow> s' = skip_space b s \<and> t = (char_at b s' \<in> set toks)"
  using strchr_iff [of toks] by (auto simp: peek_def Let_def)

text \<open>How a redirection is parsed.\<close>

definition redir_of :: "u8 \<Rightarrow> cmd \<Rightarrow> nat \<Rightarrow> nat \<Rightarrow> cmd" where
  "redir_of tok c q eq = (if tok = 60 then REDIR c q eq O_RDONLY 0
     else if tok = 62 then REDIR c q eq (O_WRONLY OR O_CREATE OR O_TRUNC) 1 else REDIR c q eq (O_WRONLY OR O_CREATE) 1)"

lemma parseredirs_cases [case_names stop bad more]:
  obtains s1 where "peek b [60, 62] s = (False, s1)" "parseredirs c b s = Done c s1"
  | m where "parseredirs c b s = Panic m"
  | s1 tok u v s2 q eq s3 where "peek b [60, 62] s = (True, s1)" "gettoken b s1 = (tok, u, v, s2)" "gettoken b s2 = (97, q, eq, s3)"
      "parseredirs c b s = parseredirs (redir_of tok c q eq) b s3" "length b - s3 < length b - s" "s < s3"
proof -
  obtain t s1 where p: "peek b [60, 62] s = (t, s1)" by (cases "peek b [60, 62] s")
  obtain tok u v s2 where g: "gettoken b s1 = (tok, u, v, s2)" by (cases "gettoken b s1")
  obtain ret q eq s3 where h: "gettoken b s2 = (ret, q, eq, s3)" by (cases "gettoken b s2")
  show ?thesis
  proof (cases "t \<and> ret = 97")
    case True
    then have "char_at b s1 \<in> {60, 62}" "s1 = skip_space b s" using p by (auto simp: peek_iff)
    then have "tok \<in> {60, 62, 43}" using g skip_space_idem [of b s] by (auto simp: gettoken_def Let_def single_symbols split: if_splits)
    then have "parseredirs c b s = parseredirs (redir_of tok c q eq) b s3"
      using True p g h by (subst parseredirs.simps) (auto simp: redir_chars redir_of_def redircmd_def)
    moreover have p': "peek b [60, 62] s = (True, s1)" using p True by simp
    ultimately show ?thesis using True g h redir_moves [OF p' [symmetric] _ g [symmetric] h [symmetric]]
      redir_less [OF p' [symmetric] g [symmetric] h [symmetric]] that(3) by blast
  next
    case False
    then show ?thesis using that(1,2) p g h parseredirs.simps [of c b s] by (cases t) (auto simp: redir_chars)
  qed
qed

lemma parseredirs_outcome: "(\<exists>m. parseredirs c b s = Panic m) \<or> (\<exists>r s'. parseredirs c b s = Done r s' \<and> s \<le> s')"
proof (induction "length b - s" arbitrary: c s rule: less_induct)
  case less
  show ?case
  proof (cases b s c rule: parseredirs_cases)
    case (stop s1)
    then show ?thesis using peek_moves [OF stop(1)] by auto
  next
    case (more s1 tok u v s2 q eq s3)
    then show ?thesis using less [OF more(5), of "redir_of tok c q eq"] by auto
  qed blast
qed

lemma parse_args_cases [case_names stop bad more]:
  obtains "parse_args ret args b s = Done (set_argv args ret) (skip_space b s)"
  | m where "parse_args ret args b s = Panic m"
  | s1 q eq s2 c s3 where "peek b [124, 41, 38, 59] s = (False, s1)" "gettoken b s1 = (97, q, eq, s2)" "Suc (length args) < MAXARGS"
      "parseredirs ret b s2 = Done c s3" "parse_args ret args b s = parse_args c (args @ [(q, eq)]) b s3" "length b - s3 < length b - s" "s < s3"
proof -
  obtain t s1 where p: "peek b [124, 41, 38, 59] s = (t, s1)" by (cases "peek b [124, 41, 38, 59] s")
  obtain tok q eq s2 where g: "gettoken b s1 = (tok, q, eq, s2)" by (cases "gettoken b s1")
  have step: "parse_args ret args b s =
      (if t then Done (set_argv args ret) s1 else if tok = 0 then Done (set_argv args ret) s2 else if tok \<noteq> 97 then Panic ''syntax''
       else if MAXARGS \<le> Suc (length args) then Panic ''too many args''
       else andthen (parseredirs ret b s2) (\<lambda>ret s. parse_args ret (args @ [(q, eq)]) b s))"
    by (subst parse_args.simps) (simp add: redir_chars p g Let_def)
  have e: "s1 = skip_space b s" using peek_moves [OF p] by simp
  have e0: "s2 = skip_space b s" if "tok = 0"
  proof -
    have "s2 = skip_space b (skip_space b s1)" using gettoken_moves(4,6,7) [OF g] that by simp
    then show ?thesis unfolding e by (simp only: skip_space_idem)
  qed
  show ?thesis
  proof (cases "\<not> t \<and> tok = 97 \<and> Suc (length args) < MAXARGS")
    case False
    then show ?thesis using that(1,2) step e e0 by (auto split: if_splits)
  next
    case True
    then have run: "parse_args ret args b s = andthen (parseredirs ret b s2) (\<lambda>ret s. parse_args ret (args @ [(q, eq)]) b s)"
      using step by simp
    have "tok \<noteq> 0" using True by simp
    show ?thesis
    proof (cases "\<exists>c s3. parseredirs ret b s2 = Done c s3")
      case True
      then obtain c s3 where r: "parseredirs ret b s2 = Done c s3" by blast
      have "s < s3" using arg_less [OF p [symmetric] g [symmetric] \<open>tok \<noteq> 0\<close> r] by simp
      then show ?thesis using that(3) p g r run \<open>\<not> t \<and> tok = 97 \<and> Suc (length args) < MAXARGS\<close>
        arg_less [OF p [symmetric] g [symmetric] \<open>tok \<noteq> 0\<close> r] by simp
    next
      case False
      then show ?thesis using parseredirs_outcome [of ret b s2] run that(2) by auto
    qed
  qed
qed

lemma parse_args_outcome: "(\<exists>m. parse_args ret args b s = Panic m) \<or> (\<exists>r s'. parse_args ret args b s = Done r s' \<and> s \<le> s')"
proof (induction "length b - s" arbitrary: ret args s rule: less_induct)
  case less
  show ?case
  proof (cases rule: parse_args_cases [of ret args b s])
    case stop
    then show ?thesis using skip_space_le [of s b] by auto
  next
    case (more s1 q eq s2 c s3)
    then show ?thesis using less [OF more(6), of c "args @ [(q, eq)]"] by auto
  qed auto
qed

lemma parse_backs_moves: "parse_backs c b s = (r, s') \<Longrightarrow> s \<le> s'"
proof (induction "length b - s" arbitrary: c s rule: less_induct)
  case less
  obtain t s1 where p: "peek b (bytes_of ''&'') s = (t, s1)" by (cases "peek b (bytes_of ''&'') s")
  obtain tok u v s2 where g: "gettoken b s1 = (tok, u, v, s2)" by (cases "gettoken b s1")
  have m: "s \<le> s1" "s1 \<le> s2" using peek_moves [OF p] gettoken_moves(1-3) [OF g] by auto
  show ?case
  proof (cases t)
    case True
    have "length b - s2 < length b - s" using tok_less [of s1 b _ s tok u v s2] p g True by metis
    then show ?thesis using less.hyps [of s2 "backcmd c"] less.prems True m parse_backs.simps [of c b s] p g by simp
  next
    case False
    then show ?thesis using less.prems m parse_backs.simps [of c b s] p by simp
  qed
qed

text \<open>A separator that is there, or not.\<close>

definition sep :: "u8 list \<Rightarrow> u8 list \<Rightarrow> nat \<Rightarrow> (nat \<Rightarrow> 'a) \<Rightarrow> (nat \<Rightarrow> 'a) \<Rightarrow> 'a" where
  "sep b toks s f g = (case peek b toks s of (t, s) \<Rightarrow> if t then case gettoken b s of (_, _, _, s) \<Rightarrow> f s else g s)"

lemma sep_cases [case_names yes no]:
  obtains s1 u v w s2 where "peek b toks s = (True, s1)" "gettoken b s1 = (u, v, w, s2)" "sep b toks s f g = f s2" "s < s2" "s < length b"
  | s1 where "peek b toks s = (False, s1)" "sep b toks s f g = g s1" "s \<le> s1"
proof -
  obtain t s1 where p: "peek b toks s = (t, s1)" by (cases "peek b toks s")
  obtain u v w s2 where g: "gettoken b s1 = (u, v, w, s2)" by (cases "gettoken b s1")
  show ?thesis
  proof (cases t)
    case True
    then show ?thesis using that(1) p g peek_gettoken [of b toks s s1 u v w s2] by (simp add: sep_def)
  next
    case False
    then show ?thesis using that(2) p peek_moves [OF p] by (simp add: sep_def)
  qed
qed

lemma if_flip: "(if \<not> p then x else y) = (if p then y else x)"
  by simp

lemma parseline_Suc:
  "parseline (Suc n) b s = andthen (parsepipe n b s) (\<lambda>c s. case parse_backs c b s of (c, s) \<Rightarrow>
     sep b [59] s (\<lambda>s. andthen (parseline n b s) (\<lambda>r s. Done (LIST c r) s)) (Done c))"
  unfolding parseline.simps sep_def redir_chars cmd_defs ..

lemma parsepipe_Suc:
  "parsepipe (Suc n) b s = andthen (parseexec n b s) (\<lambda>c s.
     sep b [124] s (\<lambda>s. andthen (parsepipe n b s) (\<lambda>r s. Done (PIPE c r) s)) (Done c))"
  unfolding parsepipe.simps sep_def redir_chars cmd_defs ..

lemma parseblock_Suc:
  "parseblock (Suc n) b s = sep b [40] s (\<lambda>s. andthen (parseline n b s) (\<lambda>c s. sep b [41] s (parseredirs c b) (\<lambda>_. Panic ''syntax - missing )'')))
     (\<lambda>_. Panic ''parseblock'')"
  unfolding parseblock.simps sep_def redir_chars if_flip ..

declare parseline.simps(2) [simp del] parsepipe.simps(2) [simp del] parseblock.simps(2) [simp del]

text \<open>What holds of every outcome of a parser started at \<open>s\<close>: no parser moves back, and with enough fuel, \<open>k\<close> more than four
  for each byte to go, none runs out of it.\<close>

definition ends :: "('a, 's) res \<Rightarrow> bool" where
  "ends m \<longleftrightarrow> (\<exists>r s. m = Done r s) \<or> (\<exists>e. m = Panic e)"

lemma ends_simps [simp]: "ends (Done r s)" "ends (Panic e)" "\<not> ends (Switch s)" "\<not> ends Hang"
  by (simp_all add: ends_def)

definition parses :: "u8 list \<Rightarrow> nat \<Rightarrow> nat \<Rightarrow> nat \<Rightarrow> (cmd, nat) res \<Rightarrow> bool" where
  "parses b k n s m \<longleftrightarrow> (\<forall>r s'. m = Done r s' \<longrightarrow> s \<le> s') \<and> (4 * (length b - s) + k \<le> n \<longrightarrow> ends m)"

lemma parses_sep:
  assumes "\<And>s2. s < s2 \<Longrightarrow> s < length b \<Longrightarrow> parses b k n s2 (f s2)" and "\<And>s1. s \<le> s1 \<Longrightarrow> parses b j n s1 (g s1)" and "k \<le> 4 + j"
  shows "parses b j n s (sep b toks s f g)"
proof (cases rule: sep_cases [of b toks s f g])
  case (yes s1 u v w s2)
  have "4 * (length b - s2) + k \<le> 4 * (length b - s) + j" using yes(4,5) assms(3) by simp
  then show ?thesis using assms(1) [OF yes(4,5)] yes by (fastforce simp: parses_def)
next
  case (no s1)
  then show ?thesis using assms(2) [OF no(3)] by (fastforce simp: parses_def)
qed

lemma parses_andthen:
  assumes "parses b k n s m" and "\<And>c s1. s \<le> s1 \<Longrightarrow> parses b j n s1 (f c s1)" and "j \<le> k"
  shows "parses b k n s (andthen m f)"
proof (cases m)
  case (Done c s1)
  then have "s \<le> s1" using assms(1) by (simp add: parses_def)
  then show ?thesis using assms(2) [of s1 c] assms(3) Done by (fastforce simp: parses_def)
qed (use assms(1) in \<open>simp_all add: parses_def\<close>)

lemma parses_weaken: "parses b k n s m \<Longrightarrow> s0 \<le> s \<Longrightarrow> parses b k n s0 m"
  by (auto simp: parses_def intro: order_trans)

lemma parses_step: "parses b k n s m \<Longrightarrow> parses b (Suc k) (Suc n) s m"
  by (simp add: parses_def)

lemma parses_simps [simp]: "parses b k n s (Panic m)" "parses b k n s (Done c s)"
  by (simp_all add: parses_def)

lemma parses_loops: "parses b k n s (parseredirs c b s)" "parses b k n s (parse_args c args b s)"
  using parseredirs_outcome [of c b s] parse_args_outcome [of c args b s] by (auto simp: parses_def)

lemma parses_map: "parses b k n s m \<Longrightarrow> parses b k n s (andthen m (\<lambda>c s. Done (f c) s))"
  by (rule parses_andthen [where j = k]) simp_all

lemma parse_run:
  "parses b 4 n s (parseline n b s) \<and> parses b 3 n s (parsepipe n b s) \<and> parses b 2 n s (parseexec n b s) \<and> parses b 1 n s (parseblock n b s)"
proof (induction n arbitrary: s)
  case 0
  show ?case by (simp add: parses_def)
next
  case (Suc n)
  have u: "parses b 5 (Suc n) s (parseline n b s)" "parses b 4 (Suc n) s (parsepipe n b s)" "parses b 3 (Suc n) s (parseexec n b s)"
    "parses b 2 (Suc n) s (parseblock n b s)" for s
    using Suc [of s] parses_step [of b _ n s] by (simp_all add: numeral_eq_Suc)
  have "parses b 1 (Suc n) s (case parse_backs c b s of (c, s) \<Rightarrow>
     sep b [59] s (\<lambda>s. andthen (parseline n b s) (\<lambda>r s. Done (LIST c r) s)) (Done c))" for c s
  proof (cases "parse_backs c b s")
    case (Pair c2 s2)
    have "parses b 1 (Suc n) s2 (sep b [59] s2 (\<lambda>s. andthen (parseline n b s) (\<lambda>r s. Done (LIST c2 r) s)) (Done c2))"
      by (rule parses_sep [where k = 5]) (simp_all add: parses_map u)
    then show ?thesis using Pair parses_weaken parse_backs_moves [OF Pair] by simp
  qed
  then have 1: "parses b 4 (Suc n) s (parseline (Suc n) b s)"
    unfolding parseline_Suc by (intro parses_andthen [where j = 1] u) simp_all
  have "parses b 0 (Suc n) s (sep b [124] s (\<lambda>s. andthen (parsepipe n b s) (\<lambda>r s. Done (PIPE c r) s)) (Done c))" for c s
    by (rule parses_sep [where k = 4]) (simp_all add: parses_map u)
  then have 2: "parses b 3 (Suc n) s (parsepipe (Suc n) b s)"
    unfolding parsepipe_Suc by (intro parses_andthen [where j = 0] u) simp_all
  have 3: "parses b 2 (Suc n) s (parseexec (Suc n) b s)"
  proof (cases "peek b [40] s")
    case (Pair t s1)
    have "parses b 2 (Suc n) s1 (andthen (parseredirs execcmd b s1) (\<lambda>ret s. parse_args ret [] b s))"
      by (intro parses_andthen [where j = 2] parses_loops) simp
    then show ?thesis using Pair u(4) [of s1] peek_moves [OF Pair] by (auto simp: redir_chars intro: parses_weaken)
  qed
  have "parses b 0 (Suc n) s (sep b [41] s (parseredirs c b) (\<lambda>_. Panic m))" for c s m
    by (rule parses_sep [where k = 0]) (simp_all add: parses_loops)
  then have "parses b 5 (Suc n) s (andthen (parseline n b s) (\<lambda>c s. sep b [41] s (parseredirs c b) (\<lambda>_. Panic m)))" for s m
    by (intro parses_andthen [where j = 0] u) simp_all
  then have 4: "parses b 1 (Suc n) s (parseblock (Suc n) b s)"
    unfolding parseblock_Suc by (intro parses_sep [where k = 5]) simp_all
  show ?case using 1 2 3 4 by blast
qed

text \<open>C14: the parser of the shell terminates on every line: it returns a command or stops with a message, and the bound on the
  depth of its recursion, four for each byte of the line and four more, is never reached.\<close>

theorem parsecmd_terminates: "(\<exists>c l' s. parsecmd l = Done (c, l') s) \<or> (\<exists>m. parsecmd l = Panic m)"
proof -
  have "ends (parseline (4 * length (cstr l) + 4) (cstr l) 0)" using parse_run [of "cstr l" _ 0] by (simp add: parses_def)
  then show ?thesis
    by (cases "parseline (4 * length (cstr l) + 4) (cstr l) 0") (auto simp: parsecmd_def Let_def split: prod.splits)
qed

section \<open>The strings of a command\<close>

fun words :: "cmd \<Rightarrow> (nat \<times> nat) list" where
  "words (EXEC args) = args"
| "words (REDIR c q eq mode fd) = words c @ [(q, eq)]"
| "words (PIPE l r) = words l @ words r"
| "words (LIST l r) = words l @ words r"
| "words (BACK c) = words c"

definition word_char :: "u8 \<Rightarrow> bool" where
  "word_char c \<longleftrightarrow> c \<noteq> 0 \<and> strchr whitespace c = None \<and> strchr symbols c = None"

text \<open>A longest run of the bytes that make words.\<close>

definition is_word :: "u8 list \<Rightarrow> nat \<times> nat \<Rightarrow> bool" where
  "is_word b w \<longleftrightarrow> fst w < snd w \<and> snd w \<le> length b \<and> (\<forall>i. fst w \<le> i \<and> i < snd w \<longrightarrow> word_char (b ! i))
     \<and> (snd w < length b \<longrightarrow> \<not> word_char (b ! snd w)) \<and> (0 < fst w \<longrightarrow> \<not> word_char (b ! (fst w - 1)))"

lemma skip_word_chars:
  "s \<le> length b \<Longrightarrow> 0 \<notin> set b \<Longrightarrow> skip_word b s \<le> length b \<and> (\<forall>i. s \<le> i \<and> i < skip_word b s \<longrightarrow> word_char (b ! i))
     \<and> (skip_word b s < length b \<longrightarrow> \<not> word_char (b ! skip_word b s))"
proof (induction "length b - s" arbitrary: s)
  case 0
  then show ?case by (subst (1 2 3 4) skip_word.simps) auto
next
  case (Suc n)
  have l: "s < length b" using Suc.hyps(2) by simp
  then have "b ! s \<noteq> 0" using Suc.prems(2) by (metis nth_mem)
  with l have n: "b ! s \<noteq> 0" "char_at b s = b ! s" "s < length b" by (simp_all add: char_at_def)
  show ?case
  proof (cases "word_char (b ! s)")
    case True
    then have e: "skip_word b s = skip_word b (s + 1)" using n by (subst skip_word.simps) (simp add: word_char_def)
    have "s \<le> i \<and> i < j \<longleftrightarrow> (i = s \<and> s < j) \<or> (s + 1 \<le> i \<and> i < j)" for i j by auto
    then show ?thesis using Suc.hyps(1) [of "s + 1"] Suc.hyps(2) Suc.prems n True unfolding e by auto
  next
    case False
    then have e: "skip_word b s = s" using n by (subst skip_word.simps) (auto simp: word_char_def)
    show ?thesis unfolding e using False n by auto
  qed
qed

text \<open>The words that start between two positions, and the positions that are not inside a word.\<close>

definition words_in :: "u8 list \<Rightarrow> nat \<Rightarrow> nat \<Rightarrow> (nat \<times> nat) set" where
  "words_in b s s' = {w. is_word b w \<and> s \<le> fst w \<and> fst w < s'}"

definition at_break :: "u8 list \<Rightarrow> nat \<Rightarrow> bool" where
  "at_break b s \<longleftrightarrow> s = 0 \<or> length b \<le> s \<or> \<not> word_char (b ! (s - 1)) \<or> \<not> word_char (b ! s)"

lemma words_in_split: "s \<le> s' \<Longrightarrow> s' \<le> s'' \<Longrightarrow> words_in b s s'' = words_in b s s' \<union> words_in b s' s''"
  by (auto simp: words_in_def)

lemma words_in_none: "\<forall>i. s \<le> i \<and> i < s' \<longrightarrow> \<not> word_char (b ! i) \<Longrightarrow> words_in b s s' = {}"
  by (force simp: words_in_def is_word_def)

text \<open>A parser goes from \<open>s\<close> to \<open>s'\<close>, from one break to another, and takes the words \<open>W\<close>.\<close>

definition takes :: "u8 list \<Rightarrow> nat \<Rightarrow> nat \<Rightarrow> (nat \<times> nat) set \<Rightarrow> bool" where
  "takes b s s' W \<longleftrightarrow> s \<le> s' \<and> (at_break b s \<longrightarrow> at_break b s' \<and> words_in b s s' = W)"

lemma takes_trans: "takes b s s' V \<Longrightarrow> takes b s' s'' W \<Longrightarrow> takes b s s'' (V \<union> W)"
  using words_in_split [of s s' s'' b] by (auto simp: takes_def)

lemma takes_refl: "takes b s s {}"
  by (simp add: takes_def words_in_def)

lemma skip_space_chars: "s \<le> i \<Longrightarrow> i < skip_space b s \<Longrightarrow> \<not> word_char (b ! i)"
proof (induction b s rule: skip_space.induct)
  case (1 b s)
  show ?case
  proof (cases "s < length b \<and> strchr whitespace (char_at b s) \<noteq> None")
    case True
    then have "skip_space b s = skip_space b (s + 1)" by (subst skip_space.simps) simp
    moreover have "\<not> word_char (b ! s)" using True by (auto simp: word_char_def char_at_def)
    ultimately show ?thesis using "1.IH" [OF True] "1.prems" by (cases "i = s") auto
  next
    case False
    then have "skip_space b s = s" by (subst skip_space.simps) auto
    then show ?thesis using "1.prems" by simp
  qed
qed

lemma takes_blank: "takes b s (skip_space b s) {}"
proof -
  have "at_break b (skip_space b s)" if "at_break b s"
  proof (cases "skip_space b s = s")
    case False
    then have "\<not> word_char (b ! (skip_space b s - 1))" using skip_space_le [of s b] by (intro skip_space_chars [of s]) simp_all
    then show ?thesis by (simp add: at_break_def)
  qed (use that in simp)
  then show ?thesis using skip_space_le [of s b] skip_space_chars [of s _ b] by (auto simp: takes_def intro!: words_in_none)
qed

lemma takes_peek: "peek b toks s = (t, s') \<Longrightarrow> takes b s s' {}"
  using peek_moves [of b toks s t s'] takes_blank [of b s] by simp

lemma symbol_no_word: "c \<in> {60, 124, 62, 38, 59, 40, 41} \<Longrightarrow> \<not> word_char c"
  using symbols_iff [of c] by (simp add: word_char_def)

lemma takes_symbol: "s < length b \<Longrightarrow> \<not> word_char (b ! s) \<Longrightarrow> takes b s (s + 1) {}"
  by (auto simp: takes_def at_break_def intro!: words_in_none) (metis le_less_Suc_eq)

text \<open>A token that is no word takes none, a word takes itself.\<close>

lemma takes_word:
  assumes z: "0 \<notin> set b" and q: "q < skip_word b q" "q < length b"
  shows "takes b q (skip_word b q) {(q, skip_word b q)}"
proof -
  let ?e = "skip_word b q"
  have w: "?e \<le> length b" "\<forall>i. q \<le> i \<and> i < ?e \<longrightarrow> word_char (b ! i)" "?e < length b \<longrightarrow> \<not> word_char (b ! ?e)"
    using skip_word_chars [of q b] z q(2) by simp_all
  have "at_break b ?e" using w(1,3) by (auto simp: at_break_def)
  moreover have "words_in b q ?e = {(q, ?e)}" if "at_break b q"
  proof -
    have "word_char (b ! q)" using w(2) q by simp
    then have "0 < q \<longrightarrow> \<not> word_char (b ! (q - 1))" using that q(2) by (auto simp: at_break_def)
    then have iw: "is_word b (q, ?e)" unfolding is_word_def fst_conv snd_conv using w q(1) by blast
    have uniq: "v = (q, ?e)" if v: "is_word b v" "q \<le> fst v" "fst v < ?e" for v
    proof -
      have "fst v = q"
      proof (rule ccontr)
        assume "fst v \<noteq> q"
        then have "q \<le> fst v - 1" "fst v - 1 < ?e" "0 < fst v" using v(2,3) by linarith+
        then have "word_char (b ! (fst v - 1))" "0 < fst v" using w(2) by blast+
        then show False using v(1) by (simp add: is_word_def)
      qed
      moreover have "snd v = ?e"
      proof (cases "snd v" ?e rule: linorder_cases)
        case less
        moreover have "q < snd v" using v(1) \<open>fst v = q\<close> by (simp add: is_word_def)
        ultimately have "word_char (b ! snd v)" "snd v < length b" using w(1,2) by simp_all
        then show ?thesis using v(1) unfolding is_word_def by blast
      next
        case greater
        then have "word_char (b ! ?e)" "?e < length b" using v(1) q(1) \<open>fst v = q\<close> unfolding is_word_def by (blast intro: less_imp_le, simp)
        then show ?thesis using w(3) by simp
      qed
      ultimately show ?thesis by (simp add: prod_eq_iff)
    qed
    show ?thesis
    proof (intro set_eqI iffI)
      fix v
      assume "v \<in> words_in b q ?e"
      then have "is_word b v" "q \<le> fst v" "fst v < ?e" by (simp_all add: words_in_def)
      then have "v = (q, ?e)" by (rule uniq)
      then show "v \<in> {(q, ?e)}" by simp
    next
      fix v
      assume "v \<in> {(q, ?e)}"
      then have "v = (q, ?e)" by simp
      then show "v \<in> words_in b q ?e" using iw q(1) by (simp add: words_in_def)
    qed
  qed
  ultimately show ?thesis using q by (simp add: takes_def)
qed

lemma takes_token:
  assumes g: "gettoken b s = (ret, q, e, s')" and z: "0 \<notin> set b"
  shows "takes b s s' (if ret = 97 then {(q, e)} else {})"
proof -
  let ?c = "char_at b q"
  have q: "q = skip_space b s" "s' = skip_space b e" using gettoken_moves [OF g] by simp_all
  have "takes b q e (if ret = 97 then {(q, e)} else {})"
  proof (cases "?c = 0")
    case True
    then have "ret = 0" "e = q" using g q by (auto simp: gettoken_def Let_def)
    then show ?thesis by (simp add: takes_refl)
  next
    case c: False
    then have l: "q < length b" "?c = b ! q" using char_at_less [OF c] by (simp_all add: char_at_def)
    show ?thesis
    proof (cases "?c \<in> {60, 124, 62, 38, 59, 40, 41}")
      case True
      then have one: "takes b q (q + 1) {}" using l symbol_no_word by (intro takes_symbol) simp_all
      have "ret \<noteq> 97" "e = q + 1 \<or> e = q + 2 \<and> char_at b (q + 1) = 62"
        using g q True c by (auto simp: gettoken_def Let_def single_symbols split: if_splits)
      moreover have "takes b q (q + 2) {}" if two: "char_at b (q + 1) = 62"
      proof -
        have "q + 1 < length b" "b ! (q + 1) = 62" using two char_at_less [of b "q + 1"] by (auto simp: char_at_def split: if_splits)
        then have "takes b (q + 1) (q + 1 + 1) {}" using symbol_no_word by (intro takes_symbol) simp_all
        from takes_trans [OF one this] show ?thesis by (simp add: numeral_2_eq_2)
      qed
      ultimately show ?thesis using one by auto
    next
      case False
      then have r: "ret = 97" "e = skip_word b q" using g q c by (auto simp: gettoken_def Let_def single_symbols split: if_splits)
      have "q < e" using gettoken_moves(2,4) [OF g] r by auto
      then show ?thesis using takes_word [OF z, of q] l r by simp
    qed
  qed
  from takes_trans [OF takes_trans [OF takes_blank [of b s, folded q(1)] this] takes_blank [of b e, folded q(2)]] show ?thesis by simp
qed

text \<open>A separator takes no words.\<close>

lemma takes_sep:
  assumes p: "peek b toks s = (True, s1)" and g: "gettoken b s1 = (r, q, e, s2)" and z: "0 \<notin> set b" "set toks \<subseteq> {60, 124, 62, 38, 59, 40, 41}"
  shows "takes b s s2 {}"
proof -
  have "0 \<notin> set toks" using z(2) by auto
  then have c: "char_at b s1 \<in> {60, 124, 62, 38, 59, 40, 41}" "s1 = skip_space b s" using p z(2) by (auto simp: peek_iff)
  then have "skip_space b s1 = s1" by (simp add: skip_space_idem)
  then have "r \<noteq> 97" using g c(1) by (auto simp: gettoken_def Let_def single_symbols split: if_splits)
  then show ?thesis using takes_trans [OF takes_peek [OF p] takes_token [OF g z(1)]] by simp
qed

section \<open>The parser takes all words\<close>

text \<open>The command that the redirections of \<open>parseexec\<close> wrap, before its arguments are entered.\<close>

fun bare :: "cmd \<Rightarrow> bool" where
  "bare (EXEC args) \<longleftrightarrow> args = []"
| "bare (REDIR c q eq mode fd) \<longleftrightarrow> bare c"
| "bare c \<longleftrightarrow> False"

lemma words_set_argv: "bare c \<Longrightarrow> set (words (set_argv args c)) = set args \<union> set (words c)"
  by (induction args c rule: set_argv.induct) auto

lemma words_redir_of: "set (words (redir_of tok c q eq)) = insert (q, eq) (set (words c))" "bare (redir_of tok c q eq) = bare c"
  by (auto simp: redir_of_def)

text \<open>An outcome with the words \<open>V\<close> and those that the parser passed.\<close>

definition yields :: "u8 list \<Rightarrow> nat \<Rightarrow> (nat \<times> nat) set \<Rightarrow> (cmd, nat) res \<Rightarrow> bool" where
  "yields b s V m \<longleftrightarrow> (\<forall>r s'. m = Done r s' \<longrightarrow> (\<exists>W. takes b s s' W \<and> set (words r) = V \<union> W))"

lemma yields_simps [simp]: "yields b s V (Panic m)" "yields b s V Hang" "yields b s V (Switch t)"
  by (simp_all add: yields_def)

lemma yields_Done: "takes b s s' W \<Longrightarrow> set (words r) = V \<union> W \<Longrightarrow> yields b s V (Done r s')"
  by (auto simp: yields_def)

lemma yields_after: "takes b s s1 U \<Longrightarrow> yields b s1 V m \<Longrightarrow> V = V' \<union> U \<Longrightarrow> yields b s V' m"
  unfolding yields_def by (metis takes_trans Un_assoc)

lemma yields_andthen:
  assumes "yields b s V m" and "\<And>c s1 U. set (words c) = V \<union> U \<Longrightarrow> yields b s1 (V \<union> U) (f c s1)"
  shows "yields b s V (andthen m f)"
proof (cases m)
  case (Done c s1)
  then obtain W where W: "takes b s s1 W" "set (words c) = V \<union> W" using assms(1) by (auto simp: yields_def)
  then show ?thesis using yields_after [OF W(1) assms(2) [OF W(2)]] Done by simp
qed (simp_all add: yields_def)

lemma yields_sep:
  assumes "0 \<notin> set b" "set toks \<subseteq> {60, 124, 62, 38, 59, 40, 41}" and "\<And>s2. yields b s2 V (f s2)" and "\<And>s1. yields b s1 V (g s1)"
  shows "yields b s V (sep b toks s f g)"
proof (cases rule: sep_cases [of b toks s f g])
  case (yes s1 u v w s2)
  then show ?thesis using yields_after [OF takes_sep [OF yes(1,2) assms(1,2)] assms(3)] by simp
next
  case (no s1)
  then show ?thesis using yields_after [OF takes_peek [OF no(1)] assms(4)] by simp
qed

lemma parseredirs_yields: "0 \<notin> set b \<Longrightarrow> yields b s (set (words c)) (parseredirs c b s)"
proof (induction "length b - s" arbitrary: c s rule: less_induct)
  case less
  show ?case
  proof (cases rule: parseredirs_cases [of b s c])
    case (stop s1)
    then show ?thesis using takes_peek [OF stop(1)] by (auto intro: yields_Done)
  next
    case (more s1 tok u v s2 q eq s3)
    have "takes b s s2 {}" using more(1,2) less.prems by (rule takes_sep) simp
    from takes_trans [OF this takes_token [OF more(3) less.prems]] have "takes b s s3 {(q, eq)}" by simp
    moreover have "yields b s3 (set (words (redir_of tok c q eq))) (parseredirs (redir_of tok c q eq) b s3)"
      by (rule less.hyps [OF more(5) less.prems])
    ultimately show ?thesis unfolding more(4) by (rule yields_after) (auto simp: words_redir_of)
  qed simp
qed

lemma parseredirs_bare: "parseredirs c b s = Done r s' \<Longrightarrow> bare c \<Longrightarrow> bare r"
proof (induction "length b - s" arbitrary: c s rule: less_induct)
  case less
  show ?case
  proof (cases rule: parseredirs_cases [of b s c])
    case (more s1 tok u v s2 q eq s3)
    then show ?thesis using less.hyps [OF more(5), of "redir_of tok c q eq"] less.prems by (simp add: words_redir_of)
  qed (use less.prems in auto)
qed

lemma parse_args_yields: "0 \<notin> set b \<Longrightarrow> bare c \<Longrightarrow> yields b s (set args \<union> set (words c)) (parse_args c args b s)"
proof (induction "length b - s" arbitrary: c args s rule: less_induct)
  case less
  show ?case
  proof (cases rule: parse_args_cases [of c args b s])
    case stop
    then show ?thesis using takes_blank [of b s] words_set_argv [OF less.prems(2), of args] by (auto intro: yields_Done)
  next
    case (more s1 q eq s2 c' s3)
    have a: "takes b s s2 {(q, eq)}" using takes_trans [OF takes_peek [OF more(1)] takes_token [OF more(2) less.prems(1)]] by simp
    obtain W where W: "takes b s2 s3 W" "set (words c') = set (words c) \<union> W"
      using parseredirs_yields [OF less.prems(1), of s2 c] more(4) by (auto simp: yields_def)
    have "yields b s3 (set (args @ [(q, eq)]) \<union> set (words c')) (parse_args c' (args @ [(q, eq)]) b s3)"
      by (rule less.hyps [OF more(6) less.prems(1) parseredirs_bare [OF more(4) less.prems(2)]])
    with takes_trans [OF a W(1)] show ?thesis unfolding more(5) by (rule yields_after) (auto simp: W(2))
  qed simp
qed

lemma parse_backs_takes: "parse_backs c b s = (r, s') \<Longrightarrow> 0 \<notin> set b \<Longrightarrow> takes b s s' {} \<and> words r = words c"
proof (induction "length b - s" arbitrary: c s rule: less_induct)
  case less
  obtain t s1 where p: "peek b [38] s = (t, s1)" by (cases "peek b [38] s")
  obtain tok u v s2 where g: "gettoken b s1 = (tok, u, v, s2)" by (cases "gettoken b s1")
  show ?case
  proof (cases t)
    case True
    have l: "length b - s2 < length b - s" using tok_less [of s1 b _ s tok u v s2] p g True by metis
    have "takes b s s2 {}" using p g less.prems(2) True by (intro takes_sep [of b "[38]" s s1]) simp_all
    moreover have "takes b s2 s' {} \<and> words r = words (backcmd c)"
      using less.hyps [OF l] less.prems True parse_backs.simps [of c b s] p g by (simp add: redir_chars)
    ultimately show ?thesis using takes_trans [of b s s2 "{}" s' "{}"] by (simp add: backcmd_def)
  next
    case False
    then show ?thesis using less.prems parse_backs.simps [of c b s] p takes_peek [OF p] by (simp add: redir_chars)
  qed
qed

lemma yields_pair:
  "yields b s V m \<Longrightarrow> set (words c) = U \<union> V' \<Longrightarrow> V = {} \<Longrightarrow> (\<And>r. set (words (f c r)) = set (words c) \<union> set (words r)) \<Longrightarrow>
   yields b s (U \<union> V') (andthen m (\<lambda>r s. Done (f c r) s))"
  by (cases m) (auto simp: yields_def)

lemma parse_yields:
  assumes z: "0 \<notin> set b"
  shows "yields b s {} (parseline n b s) \<and> yields b s {} (parsepipe n b s) \<and> yields b s {} (parseexec n b s) \<and> yields b s {} (parseblock n b s)"
proof (induction n arbitrary: s)
  case (Suc n)
  have u: "yields b s {} (parseline n b s)" "yields b s {} (parsepipe n b s)" "yields b s {} (parseexec n b s)" "yields b s {} (parseblock n b s)" for s
    using Suc by blast+
  have "yields b s ({} \<union> U) (case parse_backs c b s of (c, s) \<Rightarrow>
     sep b [59] s (\<lambda>s. andthen (parseline n b s) (\<lambda>r s. Done (LIST c r) s)) (Done c))" if c: "set (words c) = {} \<union> U" for c s U
  proof (cases "parse_backs c b s")
    case (Pair c2 s2)
    have k: "takes b s s2 {}" "words c2 = words c" using parse_backs_takes [OF Pair z] by simp_all
    have "yields b s2 ({} \<union> U) (sep b [59] s2 (\<lambda>s. andthen (parseline n b s) (\<lambda>r s. Done (LIST c2 r) s)) (Done c2))"
      using c k(2) by (intro yields_sep z yields_pair [OF u(1)] yields_Done [OF takes_refl]) simp_all
    then show ?thesis using Pair yields_after [OF k(1)] by simp
  qed
  then have 1: "yields b s {} (parseline (Suc n) b s)"
    unfolding parseline_Suc by (rule yields_andthen [OF u(2)])
  have "yields b s ({} \<union> U) (sep b [124] s (\<lambda>s. andthen (parsepipe n b s) (\<lambda>r s. Done (PIPE c r) s)) (Done c))" if "set (words c) = {} \<union> U" for c s U
    using that by (intro yields_sep z yields_pair [OF u(2)] yields_Done [OF takes_refl]) simp_all
  then have 2: "yields b s {} (parsepipe (Suc n) b s)"
    unfolding parsepipe_Suc by (rule yields_andthen [OF u(3)])
  have "yields b s {} (andthen (parseredirs execcmd b s) (\<lambda>ret s. parse_args ret [] b s))" for s
  proof (cases "parseredirs execcmd b s")
    case (Done c s1)
    obtain W where W: "takes b s s1 W" "set (words c) = W"
      using parseredirs_yields [OF z, of s execcmd] Done by (auto simp: yields_def execcmd_def)
    have "bare c" using parseredirs_bare [OF Done] by (simp add: execcmd_def)
    then have "yields b s1 (set (words c)) (parse_args c [] b s1)" using parse_args_yields [OF z, of c s1 "[]"] by simp
    then show ?thesis using yields_after [OF W(1)] W(2) Done by simp
  qed simp_all
  then have 3: "yields b s {} (parseexec (Suc n) b s)"
    using u(4) yields_after [OF takes_peek [of b "[40]" s]] by (auto simp: redir_chars split: prod.splits)
  have "yields b s ({} \<union> U) (sep b [41] s (parseredirs c b) (\<lambda>_. Panic m))" if "set (words c) = {} \<union> U" for c s m U
    using that parseredirs_yields [OF z, of _ c] by (intro yields_sep z) simp_all
  then have "yields b s {} (andthen (parseline n b s) (\<lambda>c s. sep b [41] s (parseredirs c b) (\<lambda>_. Panic m)))" for s m
    by (rule yields_andthen [OF u(1)])
  then have 4: "yields b s {} (parseblock (Suc n) b s)"
    unfolding parseblock_Suc by (intro yields_sep z) simp_all
  show ?case using 1 2 3 4 by blast
qed simp

text \<open>Terminating one string leaves the others alone.\<close>

definition word_ends :: "(nat \<times> nat) list \<Rightarrow> u8 list \<Rightarrow> u8 list" where
  "word_ends ws l = foldl (\<lambda>l w. l[snd w := 0]) l ws"

lemma word_ends_append: "word_ends (ws @ vs) l = word_ends vs (word_ends ws l)"
  by (simp add: word_ends_def)

lemma nulterminate_ends: "nulterminate c l = word_ends (words c) l"
  by (induction c arbitrary: l) (simp_all add: word_ends_append, simp_all add: word_ends_def case_prod_unfold)

lemma word_ends_nth: "i < length l \<Longrightarrow> word_ends ws l ! i = (if \<exists>w\<in>set ws. snd w = i then 0 else l ! i) \<and> length (word_ends ws l) = length l"
  by (induction ws arbitrary: l) (auto simp: word_ends_def)

lemma cstr_Nil: "xs = [] \<or> hd xs = 0 \<Longrightarrow> cstr xs = []"
  by (cases xs) (auto simp: cstr_def)

lemma string_of_word:
  assumes ws: "\<forall>v\<in>set ws. is_word (cstr l) v" and w: "w \<in> set ws"
  shows "cstr (drop (fst w) (word_ends ws l)) = take (snd w - fst w) (drop (fst w) l)"
proof -
  let ?b = "cstr l" and ?l = "word_ends ws l" and ?n = "snd w - fst w"
  have len: "length ?l = length l" by (induction ws arbitrary: l) (auto simp: word_ends_def)
  have le: "length ?b \<le> length l" by (simp add: cstr_def length_takeWhile_le)
  have bl: "?b ! i = l ! i" if "i < length ?b" for i using that by (simp add: cstr_def takeWhile_nth)
  have iw: "is_word ?b w" using ws w by blast
  have same: "?l ! (fst w + i) = l ! (fst w + i)" "?l ! (fst w + i) \<noteq> 0" if "i < ?n" for i
  proof -
    let ?i = "fst w + i"
    have i: "?i < length ?b" "word_char (?b ! ?i)" using iw that by (auto simp: is_word_def)
    have "\<not> (\<exists>v\<in>set ws. snd v = ?i)" using ws i by (auto simp: is_word_def)
    then show "?l ! ?i = l ! ?i" using word_ends_nth [of ?i l ws] i(1) le by simp
    then show "?l ! ?i \<noteq> 0" using bl [OF i(1)] i(2) by (simp add: word_char_def)
  qed
  have d: "drop (fst w) ?l = take ?n (drop (fst w) l) @ drop ?n (drop (fst w) ?l)"
  proof -
    have "take ?n (drop (fst w) ?l) = take ?n (drop (fst w) l)"
      using same(1) len iw le by (intro nth_equalityI) (auto simp: is_word_def)
    then show ?thesis by (metis append_take_drop_id)
  qed
  have nz: "\<forall>x\<in>set (take ?n (drop (fst w) l)). x \<noteq> 0"
    using same iw le by (auto simp: in_set_conv_nth is_word_def)
  have "drop ?n (drop (fst w) ?l) = [] \<or> hd (drop ?n (drop (fst w) ?l)) = 0"
  proof (cases "snd w < length l")
    case True
    then have "?l ! snd w = 0" using word_ends_nth [of "snd w" l ws] w by auto
    then show ?thesis using iw True len by (simp add: is_word_def hd_drop_conv_nth)
  next
    case False
    then show ?thesis using iw len by (simp add: is_word_def)
  qed
  then have "cstr (drop ?n (drop (fst w) ?l)) = []" by (rule cstr_Nil)
  then show ?thesis using nz by (subst d) (simp add: cstr_def)
qed

text \<open>C16: the strings of a parsed command. When \<open>parsecmd\<close> accepts a line, the arguments and file names of the command are exactly
  the words of the line, the longest runs of bytes that are neither blanks nor symbols; and after the termination in place the
  string that starts at the position of each is exactly that word.\<close>

theorem parsecmd_strings:
  assumes "parsecmd l = Done (c, l') s"
  shows "set (words c) = {w. is_word (cstr l) w} \<and> (\<forall>(q, e)\<in>set (words c). cstr (drop q l') = take (e - q) (drop q l))"
proof -
  let ?b = "cstr l"
  have z: "0 \<notin> set ?b" by (auto simp: cstr_def dest: set_takeWhileD)
  obtain c' s1 where d: "parseline (4 * length ?b + 4) ?b 0 = Done c' s1"
    "(case peek ?b [] s1 of (_, s) \<Rightarrow> if s \<noteq> length ?b then Panic ''syntax'' else Done (c', nulterminate c' l) s) = Done (c, l') s"
    using assms unfolding parsecmd_def Let_def andthen_eq_Done by blast
  obtain t s2 where pk: "peek ?b [] s1 = (t, s2)" by (cases "peek ?b [] s1")
  then have p: "parseline (4 * length ?b + 4) ?b 0 = Done c s1" "l' = nulterminate c l" "s2 = length ?b"
    using d by (auto split: if_splits)
  obtain W where W: "takes ?b 0 s1 W" "set (words c) = W" using conjunct1 [OF parse_yields [OF z, of 0 "4 * length ?b + 4"]] p(1) by (auto simp: yields_def)
  have "takes ?b 0 (length ?b) W" using takes_trans [OF W(1) takes_peek [OF pk]] p(3) by simp
  then have "W = words_in ?b 0 (length ?b)" by (simp add: takes_def at_break_def)
  also have "\<dots> = {w. is_word ?b w}" by (auto simp: words_in_def is_word_def)
  finally have ws: "set (words c) = {w. is_word ?b w}" using W(2) by simp
  then have "cstr (drop (fst w) l') = take (snd w - fst w) (drop (fst w) l)" if "w \<in> set (words c)" for w
    using string_of_word [of "words c" l w] that p(2) by (simp add: nulterminate_ends)
  with ws show ?thesis by auto
qed

text \<open>The line \<open>ls a > b\<close>.\<close>

definition example_line :: "u8 list" where
  "example_line = bytes_of ''ls a > b'' @ [0]"

lemma example_parse:
  "parsecmd example_line = Done (REDIR (EXEC [(0, 2), (3, 4)]) 7 8 0x601 1, bytes_of ''ls'' @ [0] @ bytes_of ''a'' @ [0] @ bytes_of ''> b'' @ [0]) 8"
  by code_simp

theorem parsecmd_strings_witness:
  "\<exists>c l' s. parsecmd example_line = Done (c, l') s \<and> words c = [(0, 2), (3, 4), (7, 8)] \<and> cstr (drop 3 l') = bytes_of ''a''
     \<and> is_word (cstr example_line) (7, 8)"
proof -
  have "take (4 - 3) (drop 3 example_line) = bytes_of ''a''" by code_simp
  moreover note f = parsecmd_strings [OF example_parse]
  have "(7, 8) \<in> set (words (REDIR (EXEC [(0, 2), (3, 4)]) 7 8 0x601 1))" by simp
  then have "is_word (cstr example_line) (7, 8)" unfolding conjunct1 [OF f] by (rule CollectD)
  moreover have "cstr (drop 3 (bytes_of ''ls'' @ [0] @ bytes_of ''a'' @ [0] @ bytes_of ''> b'' @ [0])) = take (4 - 3) (drop 3 example_line)"
    using bspec [OF conjunct2 [OF f], of "(3, 4)"] by (simp del: drop_append drop_Cons_numeral)
  ultimately show ?thesis using example_parse by (intro exI conjI) (assumption, simp_all)
qed

end
