(* ===== verification/Mmap.thy ===== *)
theory Mmap
  imports Sysfile
begin

text \<open>
  Memory-mapped files, the last part of \<open>kernel/sysfile.c\<close>: \<open>mmap\<close>, the page-fault handler and \<open>munmap\<close>.
\<close>

text \<open>The first entry of the region table, from \<open>i\<close> on, that satisfies a condition.\<close>

fun vma_scan :: "(mmapitem \<Rightarrow> bool) \<Rightarrow> mmapitem list \<Rightarrow> nat \<Rightarrow> nat \<Rightarrow> nat option" where
  "vma_scan P vs i 0 = None"
| "vma_scan P vs i (Suc k) = (if P (vs ! i) then Some i else vma_scan P vs (Suc i) k)"

definition sys_mmap :: "'a file_state_scheme \<Rightarrow> (u64, 'a file_state_scheme) res" where
  "sys_mmap s =
     andthen (argaddr 0 s) (\<lambda>a s.
     andthen (argint 1 s) (\<lambda>len s.
     andthen (argint 2 s) (\<lambda>prt s.
     andthen (argint 3 s) (\<lambda>flg s.
     andthen (argfd 4 s) (\<lambda>r s.
     case r of None \<Rightarrow> Done 0xffffffffffffffff s
     | Some (fd, f) \<Rightarrow>
       andthen (argint 5 s) (\<lambda>offset s.
       if a \<noteq> 0 \<or> offset \<noteq> 0 \<or> len < 0 then Done 0xffffffffffffffff s
       else if \<not> writable (file_at s f) \<and> prt AND PROT_WRITE \<noteq> 0 \<and> flg = MAP_SHARED
       then Done 0xffffffffffffffff s
       else with_proc s (\<lambda>p.
         case vma_scan (\<lambda>v. used v = 0) (vma (proc_at s p)) 0 MAXMMAPITEM of
           None \<Rightarrow> Panic ''no empty mmapitem!''
         | Some i \<Rightarrow>
             let s = upd_vma p i (\<lambda>v. v\<lparr>used := 1, vlength := len, flags := flg, prot := prt, voffset := 0,
                       vfd := fd, vfile := Some f, addr := sz (proc_at s p)\<rparr>) s
             in andthen (filedup f s) (\<lambda>_ s.
                let s = upd_proc p (\<lambda>q. q\<lparr>sz := sz q + word_of_int len\<rparr>) s
                in Done (addr (vma (proc_at s p) ! i)) s))))))))"

text \<open>\<open>va\<close> is an \<open>int\<close>: the low 32 bits of the fault address, compared after sign extension.\<close>

definition mmap_flags :: "int \<Rightarrow> u64" where
  "mmap_flags prt =
     PTE_U OR (if prt AND PROT_READ \<noteq> 0 then PTE_R else 0)
           OR (if prt AND PROT_WRITE \<noteq> 0 then PTE_W else 0)
           OR (if prt AND PROT_EXEC \<noteq> 0 then PTE_X else 0)"

definition mmap_handler :: "u32 \<Rightarrow> u64 \<Rightarrow> 'a file_state_scheme \<Rightarrow> (int, 'a file_state_scheme) res" where
  "mmap_handler va32 cause s = with_proc s (\<lambda>p.
     let va = scast va32 :: u64 in
     case vma_scan (\<lambda>v. used v = 1 \<and> va \<ge> addr v \<and> va < addr v + word_of_int (vlength v)) (vma (proc_at s p)) 0 MAXMMAPITEM of
       None \<Rightarrow> Done (- 1) s
     | Some i \<Rightarrow>
       let v = vma (proc_at s p) ! i in
       case vfile v of None \<Rightarrow> Panic ''kerneltrap''
       | Some f \<Rightarrow>
         if cause = 13 \<and> \<not> readable (file_at s f) then Done (- 1) s
         else if cause = 15 \<and> \<not> writable (file_at s f) then Done (- 1) s
         else andthen (kalloc s) (\<lambda>pa s.
         if pa = 0 then Done (- 1) s
         else
           let s = s\<lparr>mem := memset (mem s) pa 0 4096\<rparr> in
           andthen (ilock (fip (file_at s f)) s) (\<lambda>_ s.
           case fip (file_at s f) of None \<Rightarrow> Panic ''ilock''
           | Some ip \<Rightarrow>
             let offset = word_of_int (voffset v) + ucast (PGROUNDDOWN (va - addr v)) :: u32 in
             andthen (readi ip (PhysDst pa) offset 4096 s) (\<lambda>(readbytes, _) s.
             if readbytes = 0
             then andthen (iunlock (Some ip) s) (\<lambda>_ s. andthen (kfree pa s) (\<lambda>_ s. Done (- 1) s))
             else andthen (iunlock (Some ip) s) (\<lambda>_ s.
                  andthen (mappages (pagetable (proc_at s p)) (PGROUNDDOWN va) PGSIZE pa (mmap_flags (prot v)) s) (\<lambda>r s.
                  if r \<noteq> 0 then andthen (kfree pa s) (\<lambda>_ s. Done (- 1) s) else Done 0 s))))))"

text \<open>The search of \<open>sys_munmap\<close>: the entry and its new address and length.\<close>

fun munmap_scan :: "u64 \<Rightarrow> int \<Rightarrow> mmapitem list \<Rightarrow> nat \<Rightarrow> nat \<Rightarrow> (nat \<times> mmapitem) option" where
  "munmap_scan a len vs i 0 = None"
| "munmap_scan a len vs i (Suc k) =
     (let v = vs ! i in
      if used v \<noteq> 0 \<and> vlength v \<ge> len
      then if addr v = a then Some (i, v\<lparr>addr := addr v + word_of_int len, vlength := vlength v - len\<rparr>)
           else if addr v + word_of_int len = addr v + word_of_int (vlength v)
           then Some (i, v\<lparr>vlength := vlength v - len\<rparr>)
           else munmap_scan a len vs (Suc i) k
      else munmap_scan a len vs (Suc i) k)"

definition sys_munmap :: "'a file_state_scheme \<Rightarrow> (u64, 'a file_state_scheme) res" where
  "sys_munmap s =
     andthen (argaddr 0 s) (\<lambda>a s.
     andthen (argint 1 s) (\<lambda>len s.
     with_proc s (\<lambda>p.
     case munmap_scan a len (vma (proc_at s p)) 0 MAXMMAPITEM of
       None \<Rightarrow> Done (- 1) s
     | Some (i, v) \<Rightarrow>
         let s = upd_vma p i (\<lambda>_. v) s in
         case vfile v of None \<Rightarrow> Panic ''kerneltrap''
         | Some f \<Rightarrow>
           andthen (if flags v = MAP_SHARED \<and> prot v AND PROT_WRITE \<noteq> 0
                    then andthen (filewrite f a len s) (\<lambda>_ s. Done () s) else Done () s) (\<lambda>_ s.
           andthen (uvmunmap (pagetable (proc_at s p)) a (word_of_int (cdiv len 4096)) True s) (\<lambda>_ s.
           if vlength (vma (proc_at s p) ! i) = 0
           then andthen (fileclose f s) (\<lambda>_ s. Done 0 (upd_vma p i (\<lambda>v. v\<lparr>used := 0\<rparr>) s))
           else Done 0 s)))))"

end
