(* ===== verification/Mmap_Regions.thy ===== *)
theory Mmap_Regions
  imports Mmap Pipe_Queue
begin

text \<open>
  The table of mapped regions of a process: \<open>mmap\<close> keeps it well formed, and what the search of \<open>munmap\<close> makes of it.
\<close>

declare NBUF_def [simp del]

text \<open>The regions of a process are well formed: each lies below the size of the process and has a file, and no two overlap.\<close>

definition region_ok :: "u64 \<Rightarrow> mmapitem \<Rightarrow> bool" where
  "region_ok z v \<longleftrightarrow> used v = 0 \<or> used v = 1 \<and> 0 \<le> vlength v \<and> uint (addr v) + vlength v \<le> uint z \<and> vfile v \<noteq> None \<and> voffset v = 0"

definition apart :: "mmapitem \<Rightarrow> mmapitem \<Rightarrow> bool" where
  "apart v w \<longleftrightarrow> used v = 0 \<or> used w = 0 \<or> uint (addr v) + vlength v \<le> uint (addr w) \<or> uint (addr w) + vlength w \<le> uint (addr v)"

definition regions_ok :: "proc \<Rightarrow> bool" where
  "regions_ok q \<longleftrightarrow> length (vma q) = MAXMMAPITEM \<and> (\<forall>i<MAXMMAPITEM. region_ok (sz q) (vma q ! i))
     \<and> (\<forall>i<MAXMMAPITEM. \<forall>j<MAXMMAPITEM. i \<noteq> j \<longrightarrow> apart (vma q ! i) (vma q ! j))"

text \<open>The arguments of a system call \<open>mmap(0, len, prt, flg, fd, 0)\<close>, with the open file \<open>f\<close> that \<open>fd\<close> stands for.\<close>

definition mmap_args :: "'a file_state_scheme \<Rightarrow> int \<Rightarrow> int \<Rightarrow> int \<Rightarrow> int \<Rightarrow> nat \<Rightarrow> bool" where
  "mmap_args s len prt flg fd f \<longleftrightarrow> argaddr 0 s = Done 0 s \<and> argint 1 s = Done len s \<and> argint 2 s = Done prt s \<and> argint 3 s = Done flg s
     \<and> argfd 4 s = Done (Some (fd, f)) s \<and> argint 5 s = Done 0 s"

lemma vma_scan_find: "vma_scan P vs i k = find (\<lambda>j. P (vs ! j)) [i..<i + k]"
proof (induction P vs i k rule: vma_scan.induct)
  case (2 P vs i k)
  then show ?case unfolding upt_step by simp
qed simp

lemma regions_ok_add:
  assumes ok: "regions_ok q" and i: "i < MAXMMAPITEM" and n: "0 \<le> len" "uint (sz q) + len < 2 ^ 64"
    and v: "used v = 1" "addr v = sz q" "vlength v = len" "vfile v \<noteq> None" "voffset v = 0"
  shows "regions_ok (q\<lparr>vma := (vma q)[i := v], sz := sz q + word_of_int len\<rparr>)"
proof -
  have s: "uint (sz q + word_of_int len) = uint (sz q) + len"
  proof -
    have "len < 2 ^ 64" using n uint_ge_0 [of "sz q"] by linarith
    then have "uint (word_of_int len :: u64) = len" using n(1) by (simp add: uint_word_of_int)
    then show ?thesis using n by (simp add: uint_word_ariths)
  qed
  have old: "region_ok (sz q) (vma q ! j)" "j \<noteq> k \<Longrightarrow> apart (vma q ! j) (vma q ! k)" if "j < MAXMMAPITEM" "k < MAXMMAPITEM" for j k
    using ok that by (simp_all add: regions_ok_def)
  have len: "length (vma q) = MAXMMAPITEM" using ok by (simp add: regions_ok_def)
  have grow: "region_ok (sz q + word_of_int len) w" if "region_ok (sz q) w" for w using that n(1) s by (auto simp: region_ok_def)
  have new: "region_ok (sz q + word_of_int len) v" using v n s by (simp add: region_ok_def)
  have ap: "apart v w \<and> apart w v" if "region_ok (sz q) w" for w using that v by (auto simp: region_ok_def apart_def)
  show ?thesis unfolding regions_ok_def using len i old grow new ap by (auto simp: nth_list_update)
qed

lemma filedup_Done:
  assumes "held s = {}" and "0 < fref (file_at s f)"
  shows "filedup f s = Done f (upd_file f (\<lambda>x. x\<lparr>fref := fref x + 1\<rparr>) s)"
proof -
  have "s\<lparr>held := {}\<rparr> = s" using assms(1) by simp
  then show ?thesis using assms by (simp add: filedup_def upd_file_def)
qed

lemma upd_vma_fields:
  "held (upd_vma p i g s) = held s" "files (upd_vma p i g s) = files s" "cur (upd_vma p i g s) = cur s"
  "procs (upd_vma p i g s) = (procs s)[p := (proc_at s p)\<lparr>vma := (vma (proc_at s p))[i := g (vma (proc_at s p) ! i)]\<rparr>]"
  by (simp_all add: upd_vma_def upd_proc_def)

text \<open>C18: \<open>mmap\<close> keeps the regions of a process well formed. It returns the old size of the process and enters the region of the
  given length from there on, for the given file with one more reference, in a free entry; all other entries stay as they
  were, and the size grows by the length. With no free entry the kernel panics.\<close>

theorem sys_mmap_regions:
  assumes c: "calm s" "cur s = Some p" and ok: "regions_ok (proc_at s p)" and a: "mmap_args s len prt flg fd f"
    and n: "0 \<le> len" "uint (sz (proc_at s p)) + len < 2 ^ 64" and f: "0 < fref (file_at s f)"
    and w: "writable (file_at s f) \<or> prt AND PROT_WRITE = 0 \<or> flg \<noteq> MAP_SHARED"
  shows "if \<exists>i<MAXMMAPITEM. used (vma (proc_at s p) ! i) = 0
    then returns (sys_mmap s) (\<lambda>r t. r = sz (proc_at s p) \<and> regions_ok (proc_at t p) \<and> sz (proc_at t p) = sz (proc_at s p) + word_of_int len
      \<and> files t = (files s)[f := (file_at s f)\<lparr>fref := fref (file_at s f) + 1\<rparr>]
      \<and> (\<exists>i<MAXMMAPITEM. used (vma (proc_at s p) ! i) = 0 \<and> vma (proc_at t p) = (vma (proc_at s p))[i := \<lparr>used = 1, addr = sz (proc_at s p),
            vlength = len, prot = prt, flags = flg, vfd = fd, vfile = Some f, voffset = 0\<rparr>]))
    else sys_mmap s = Panic ''no empty mmapitem!''"
proof -
  let ?q = "proc_at s p"
  have p: "p < length (procs s)" "held s = {}" using c by (auto simp: calm_def)
  have args: "argaddr 0 s = Done 0 s" "argint 1 s = Done len s" "argint 2 s = Done prt s" "argint 3 s = Done flg s"
    "argfd 4 s = Done (Some (fd, f)) s" "argint 5 s = Done 0 s" using a by (simp_all add: mmap_args_def)
  have wr: "(\<not> writable (file_at s f) \<and> prt AND PROT_WRITE \<noteq> 0 \<and> flg = MAP_SHARED) = False" using w by blast
  show ?thesis
  proof (cases "vma_scan (\<lambda>v. used v = 0) (vma ?q) 0 MAXMMAPITEM")
    case None
    then have "\<not> (\<exists>i<MAXMMAPITEM. used (vma ?q ! i) = 0)" by (auto simp: vma_scan_find find_None_iff)
    then show ?thesis using None n(1) c(2) by (simp add: sys_mmap_def args wr with_proc_def del: One_nat_def)
  next
    case (Some i)
    then have i: "i < MAXMMAPITEM" "used (vma ?q ! i) = 0" by (auto simp: vma_scan_find find_Some_iff)
    let ?v = "\<lparr>used = 1, addr = sz ?q, vlength = len, prot = prt, flags = flg, vfd = fd, vfile = Some f, voffset = 0\<rparr>"
    have e: "(vma ?q ! i)\<lparr>used := 1, vlength := len, flags := flg, prot := prt, voffset := 0, vfd := fd, vfile := Some f, addr := sz ?q\<rparr> = ?v"
      by (cases "vma ?q ! i") simp
    have r: "regions_ok (?q\<lparr>vma := (vma ?q)[i := ?v], sz := sz ?q + word_of_int len\<rparr>)"
      using n i(1) by (intro regions_ok_add [OF ok]) simp_all
    have len: "length (vma ?q) = MAXMMAPITEM" using ok by (simp add: regions_ok_def)
    let ?s1 = "upd_vma p i (\<lambda>v. v\<lparr>used := 1, vlength := len, flags := flg, prot := prt, voffset := 0, vfd := fd, vfile := Some f, addr := sz ?q\<rparr>) s"
    let ?s2 = "upd_file f (\<lambda>x. x\<lparr>fref := fref x + 1\<rparr>) ?s1"
    let ?s3 = "upd_proc p (\<lambda>q. q\<lparr>sz := sz q + word_of_int len\<rparr>) ?s2"
    have d: "filedup f ?s1 = Done f ?s2" using p f by (intro filedup_Done) (simp_all add: upd_vma_fields)
    have q1: "proc_at ?s1 p = ?q\<lparr>vma := (vma ?q)[i := ?v]\<rparr>" using p by (simp add: upd_vma_fields e)
    have q2: "procs ?s2 = procs ?s1" "files ?s2 = (files s)[f := (file_at s f)\<lparr>fref := fref (file_at s f) + 1\<rparr>]"
      by (simp_all add: upd_file_def upd_vma_fields)
    have q3: "proc_at ?s3 p = ?q\<lparr>vma := (vma ?q)[i := ?v], sz := sz ?q + word_of_int len\<rparr>" "files ?s3 = files ?s2"
      using p q1 q2(1) by (simp_all add: upd_vma_fields) (simp add: upd_proc_def)
    have run: "sys_mmap s = Done (addr (vma (proc_at ?s3 p) ! i)) ?s3"
      using Some n(1) c(2) d by (simp add: sys_mmap_def args wr with_proc_def Let_def del: One_nat_def)
    have "returns (sys_mmap s) (\<lambda>r t. r = sz ?q \<and> proc_at t p = ?q\<lparr>vma := (vma ?q)[i := ?v], sz := sz ?q + word_of_int len\<rparr>
        \<and> files t = (files s)[f := (file_at s f)\<lparr>fref := fref (file_at s f) + 1\<rparr>])"
      unfolding run returns_simps q3 q2(2) using len i(1) by simp
    then show ?thesis using i r by (auto simp: run)
  qed
qed

text \<open>A process that maps one page of its open file 0.\<close>

definition example_map :: file_state where
  "example_map = example_file\<lparr>mem := (\<lambda>a. if a = 121 then 16 else 0), procs := (procs example_procs)[1 := example_proc\<lparr>ofile := (replicate 16 None)[0 := Some 0]\<rparr>],
     files := [\<lparr>ftype = FD_INODE, fref = 1, readable = True, writable = False, fpipe = 0, fip = Some 0, foff = 0, fmajor = 0\<rparr>]\<rparr>"

lemma example_map_simps:
  "held example_map = {}" "cur example_map = Some 1" "length (procs example_map) = 64" "mem example_map = (\<lambda>a. if a = 121 then 16 else 0)"
  "proc_at example_map (Suc 0) = example_proc\<lparr>ofile := (replicate 16 None)[0 := Some 0]\<rparr>"
  "files example_map = [\<lparr>ftype = FD_INODE, fref = 1, readable = True, writable = False, fpipe = 0, fip = Some 0, foff = 0, fmajor = 0\<rparr>]"
  by (simp_all add: example_map_def example_procs_def)

lemma example_map_args: "mmap_args example_map 4096 0 0 0 0"
proof -
  have l: "load64 (\<lambda>a. if a = 121 then 16 else 0) 112 = 0" "load64 (\<lambda>a. if a = 121 then 16 else 0) 120 = 4096"
    "load64 (\<lambda>a. if a = 121 then 16 else 0) 128 = 0" "load64 (\<lambda>a. if a = 121 then 16 else 0) 136 = 0"
    "load64 (\<lambda>a. if a = 121 then 16 else 0) 144 = 0" "load64 (\<lambda>a. if a = 121 then 16 else 0) 152 = 0"
    by code_simp+
  then show ?thesis
    by (simp add: mmap_args_def argfd_def argint_def argaddr_def argraw_def with_proc_def tf_get_def example_map_simps TF_a0_def TF_a1_def TF_a2_def
      TF_a3_def TF_a4_def TF_a5_def example_proc_def)
qed

lemma example_map_regions: "regions_ok (proc_at example_map 1)"
  by (simp add: regions_ok_def region_ok_def apart_def example_map_simps example_proc_def unused_mmapitem_def)

theorem sys_mmap_regions_witness:
  "returns (sys_mmap example_map) (\<lambda>r t. r = 0 \<and> regions_ok (proc_at t 1) \<and> sz (proc_at t 1) = 4096)"
proof -
  have "\<exists>i<MAXMMAPITEM. used (vma (proc_at example_map 1) ! i) = 0"
    by (intro exI [of _ 0]) (simp add: example_map_simps example_proc_def unused_mmapitem_def MAXMMAPITEM_def)
  then show ?thesis
    using sys_mmap_regions [OF _ _ example_map_regions example_map_args]
    by (simp add: calm_def example_map_simps) (auto simp: example_proc_def elim!: returns_mono)
qed

lemma munmap_scan_skip:
  "\<forall>j<d. used (vs ! (i + j)) = 0 \<or> vlength (vs ! (i + j)) < len \<Longrightarrow> munmap_scan a len vs i (d + k) = munmap_scan a len vs (i + d) k"
proof (induction d arbitrary: i)
  case (Suc d)
  have "\<forall>j<d. used (vs ! (Suc i + j)) = 0 \<or> vlength (vs ! (Suc i + j)) < len" using Suc.prems by force
  then have "munmap_scan a len vs (Suc i) (d + k) = munmap_scan a len vs (Suc i + d) k" by (rule Suc.IH)
  moreover have "used (vs ! i) = 0 \<or> vlength (vs ! i) < len" using Suc.prems by force
  ultimately show ?case by (auto simp: Let_def)
qed simp



end
