(* ===== verification/Trap.thy ===== *)
theory Trap
  imports Mmap
begin

text \<open>
  Traps and system calls: \<open>kernel/trap.c\<close>, \<open>kernel/sysproc.c\<close>, the dispatch of \<open>kernel/syscall.c\<close>, the
  interrupt controller \<open>kernel/plic.c\<close>, and the boot sequence \<open>kernel/main.c\<close>.
\<close>

text \<open>
  The supervisor registers of the hart that runs, the interrupt controller (\<open>plic_pending\<close> lists the
  requests it will hand out, \<open>plic_out\<close> the writes to it) and the clock. \<open>kernelvec\<close>, \<open>uservec\<close>, \<open>userret\<close> and
  \<open>usertrap_pc\<close> are addresses of assembly and C code.
\<close>

record trap_state = file_state +
  ticks :: u32
  first :: bool
  hartid :: nat
  scause :: u64
  sepc :: u64
  stval :: u64
  sstatus_reg :: u64
  stvec :: u64
  sip :: u64
  kernelvec :: u64
  uservec :: u64
  userret :: u64
  usertrap_pc :: u64
  plic_pending :: "u32 list"
  plic_out :: "(u64 \<times> u32) list"

definition trapinit :: "'a trap_state_scheme \<Rightarrow> 'a trap_state_scheme" where
  "trapinit s = s\<lparr>held := held s - {L_tick}\<rparr>"

definition trapinithart :: "'a trap_state_scheme \<Rightarrow> 'a trap_state_scheme" where
  "trapinithart s = s\<lparr>stvec := kernelvec s\<rparr>"

definition PLIC_SENABLE :: "nat \<Rightarrow> u64" where
  "PLIC_SENABLE hart = PLIC + 0x2080 + of_nat hart * 0x100"

definition PLIC_SPRIORITY :: "nat \<Rightarrow> u64" where
  "PLIC_SPRIORITY hart = PLIC + 0x201000 + of_nat hart * 0x2000"

definition PLIC_SCLAIM :: "nat \<Rightarrow> u64" where
  "PLIC_SCLAIM hart = PLIC + 0x201004 + of_nat hart * 0x2000"

definition plic_write :: "u64 \<Rightarrow> u32 \<Rightarrow> 'a trap_state_scheme \<Rightarrow> 'a trap_state_scheme" where
  "plic_write r v s = s\<lparr>plic_out := plic_out s @ [(r, v)]\<rparr>"

definition plicinit :: "'a trap_state_scheme \<Rightarrow> 'a trap_state_scheme" where
  "plicinit s = plic_write (PLIC + of_nat VIRTIO0_IRQ * 4) 1 (plic_write (PLIC + of_nat UART0_IRQ * 4) 1 s)"

definition plicinithart :: "'a trap_state_scheme \<Rightarrow> 'a trap_state_scheme" where
  "plicinithart s =
     plic_write (PLIC_SPRIORITY (hartid s)) 0
       (plic_write (PLIC_SENABLE (hartid s)) (push_bit UART0_IRQ 1 OR push_bit VIRTIO0_IRQ 1) s)"

definition plic_claim :: "'a trap_state_scheme \<Rightarrow> u32 \<times> 'a trap_state_scheme" where
  "plic_claim s = (case plic_pending s of [] \<Rightarrow> (0, s) | i # is \<Rightarrow> (i, s\<lparr>plic_pending := is\<rparr>))"

definition plic_complete :: "u32 \<Rightarrow> 'a trap_state_scheme \<Rightarrow> 'a trap_state_scheme" where
  "plic_complete irq s = plic_write (PLIC_SCLAIM (hartid s)) irq s"

definition clockintr :: "'a trap_state_scheme \<Rightarrow> (unit, 'a trap_state_scheme) res" where
  "clockintr s =
     andthen (acquire L_tick s) (\<lambda>_ s.
     andthen (wakeup Ch_ticks (s\<lparr>ticks := ticks s + 1\<rparr>)) (\<lambda>_ s.
     release L_tick s))"

definition devintr :: "'a trap_state_scheme \<Rightarrow> (int, 'a trap_state_scheme) res" where
  "devintr s =
     (if scause s AND 0x8000000000000000 \<noteq> 0 \<and> scause s AND 0xff = 9
      then case plic_claim s of (irq, s) \<Rightarrow>
        andthen (if irq = of_nat UART0_IRQ then uartintr s
                 else if irq = of_nat VIRTIO0_IRQ then virtio_disk_intr s
                 else if irq \<noteq> 0 then printf (Some (bytes_of ''unexpected interrupt irq=%d\<newline>'')) [AInt irq] s
                 else Done () s) (\<lambda>_ s.
        Done 1 (if irq \<noteq> 0 then plic_complete irq s else s))
      else if scause s = 0x8000000000000001
      then andthen (if hartid s = 0 then clockintr s else Done () s) (\<lambda>_ s.
           Done 2 (s\<lparr>sip := sip s AND NOT 2\<rparr>))
      else Done 0 s)"

section \<open>System calls of sysproc.c\<close>

definition sys_exit :: "'a trap_state_scheme \<Rightarrow> (u64, 'a trap_state_scheme) res" where
  "sys_exit s = andthen (argint 0 s) (\<lambda>n s. andthen (exit n s) (\<lambda>_ s. Done 0 s))"

definition sys_getpid :: "'a trap_state_scheme \<Rightarrow> (u64, 'a trap_state_scheme) res" where
  "sys_getpid s = with_proc s (\<lambda>p. Done (word_of_int (pid (proc_at s p))) s)"

definition sys_fork :: "'a trap_state_scheme \<Rightarrow> (u64, 'a trap_state_scheme) res" where
  "sys_fork s = andthen (fork s) (\<lambda>r s. Done (word_of_int r) s)"

definition sys_wait :: "'a trap_state_scheme \<Rightarrow> (u64, 'a trap_state_scheme) res" where
  "sys_wait s = andthen (argaddr 0 s) (\<lambda>a s. andthen (wait a s) (\<lambda>r s. Done (word_of_int r) s))"

text \<open>The old size goes through an \<open>int\<close>.\<close>

definition sys_sbrk :: "'a trap_state_scheme \<Rightarrow> (u64, 'a trap_state_scheme) res" where
  "sys_sbrk s =
     andthen (argint 0 s) (\<lambda>n s. with_proc s (\<lambda>p.
     let a = scast (ucast (sz (proc_at s p)) :: u32) in
     andthen (growproc n s) (\<lambda>r s. Done (if r < 0 then - 1 else a) s)))"

text \<open>\<open>ticks - ticks0 < n\<close> compares as unsigned.\<close>

definition sys_sleep_loop :: "u32 \<Rightarrow> u32 \<Rightarrow> 'a trap_state_scheme \<Rightarrow> (u64, 'a trap_state_scheme) res" where
  "sys_sleep_loop ticks0 n s =
     (if ticks s - ticks0 < n
      then with_proc s (\<lambda>p.
        if killed (proc_at s p) then andthen (release L_tick s) (\<lambda>_ s. Done (- 1) s)
        else andthen (sleep Ch_ticks L_tick s) (\<lambda>_ s. Done 0 s))
      else andthen (release L_tick s) (\<lambda>_ s. Done 0 s))"

definition sys_sleep :: "'a trap_state_scheme \<Rightarrow> (u64, 'a trap_state_scheme) res" where
  "sys_sleep s =
     andthen (argint 0 s) (\<lambda>n s.
     andthen (acquire L_tick s) (\<lambda>_ s. sys_sleep_loop (ticks s) (word_of_int n) s))"

definition sys_sleep_resume :: "u32 \<Rightarrow> u32 \<Rightarrow> 'a trap_state_scheme \<Rightarrow> (u64, 'a trap_state_scheme) res" where
  "sys_sleep_resume ticks0 n s = andthen (sleep_return L_tick s) (\<lambda>_ s. sys_sleep_loop ticks0 n s)"

definition sys_kill :: "'a trap_state_scheme \<Rightarrow> (u64, 'a trap_state_scheme) res" where
  "sys_kill s = andthen (argint 0 s) (\<lambda>n s. andthen (kill n s) (\<lambda>r s. Done (word_of_int r) s))"

definition sys_uptime :: "'a trap_state_scheme \<Rightarrow> (u64, 'a trap_state_scheme) res" where
  "sys_uptime s =
     andthen (acquire L_tick s) (\<lambda>_ s.
     let xticks = ticks s in
     andthen (release L_tick s) (\<lambda>_ s. Done (ucast xticks) s))"

section \<open>System call dispatch and traps\<close>

datatype sysno =
    SYS_fork | SYS_exit | SYS_wait | SYS_pipe | SYS_read | SYS_kill | SYS_exec | SYS_fstat | SYS_chdir
  | SYS_dup | SYS_getpid | SYS_sbrk | SYS_sleep | SYS_uptime | SYS_open | SYS_write | SYS_mknod
  | SYS_unlink | SYS_link | SYS_mkdir | SYS_close | SYS_mmap | SYS_munmap

definition syscall_numbers :: "sysno list" where
  "syscall_numbers = [SYS_fork, SYS_exit, SYS_wait, SYS_pipe, SYS_read, SYS_kill, SYS_exec, SYS_fstat, SYS_chdir,
     SYS_dup, SYS_getpid, SYS_sbrk, SYS_sleep, SYS_uptime, SYS_open, SYS_write, SYS_mknod,
     SYS_unlink, SYS_link, SYS_mkdir, SYS_close, SYS_mmap, SYS_munmap]"

fun syscalls :: "sysno \<Rightarrow> 'a trap_state_scheme \<Rightarrow> (u64, 'a trap_state_scheme) res" where
  "syscalls SYS_fork s = sys_fork s"
| "syscalls SYS_exit s = sys_exit s"
| "syscalls SYS_wait s = sys_wait s"
| "syscalls SYS_pipe s = sys_pipe s"
| "syscalls SYS_read s = sys_read s"
| "syscalls SYS_kill s = sys_kill s"
| "syscalls SYS_exec s = sys_exec s"
| "syscalls SYS_fstat s = sys_fstat s"
| "syscalls SYS_chdir s = sys_chdir s"
| "syscalls SYS_dup s = sys_dup s"
| "syscalls SYS_getpid s = sys_getpid s"
| "syscalls SYS_sbrk s = sys_sbrk s"
| "syscalls SYS_sleep s = sys_sleep s"
| "syscalls SYS_uptime s = sys_uptime s"
| "syscalls SYS_open s = sys_open s"
| "syscalls SYS_write s = sys_write s"
| "syscalls SYS_mknod s = sys_mknod s"
| "syscalls SYS_unlink s = sys_unlink s"
| "syscalls SYS_link s = sys_link s"
| "syscalls SYS_mkdir s = sys_mkdir s"
| "syscalls SYS_close s = sys_close s"
| "syscalls SYS_mmap s = sys_mmap s"
| "syscalls SYS_munmap s = sys_munmap s"

definition syscall :: "'a trap_state_scheme \<Rightarrow> (unit, 'a trap_state_scheme) res" where
  "syscall s = with_proc s (\<lambda>p.
     let num = sint (ucast (tf_get s p TF_a7) :: u32) in
     if num > 0 \<and> num < 24
     then andthen (syscalls (syscall_numbers ! nat (num - 1)) s) (\<lambda>r s. Done () (tf_set p TF_a0 r s))
     else andthen (printf (Some (bytes_of ''%d %s: unknown sys call %d\<newline>''))
            [AInt (word_of_int (pid (proc_at s p))), AStr (Some (cstr (pname (proc_at s p)))), AInt (word_of_int num)] s) (\<lambda>_ s.
          Done () (tf_set p TF_a0 (- 1) s)))"

text \<open>The values \<open>userret\<close> is called with: the trapframe address and the user page table.\<close>

definition usertrapret :: "'a trap_state_scheme \<Rightarrow> (u64 \<times> u64 \<times> u64, 'a trap_state_scheme) res" where
  "usertrapret s = with_proc s (\<lambda>p.
     let s = s\<lparr>ien := False\<rparr>;
         s = s\<lparr>stvec := TRAMPOLINE + (uservec s - trampoline s)\<rparr>;
         s = tf_set p TF_kernel_satp (satp s) s;
         s = tf_set p TF_kernel_sp (kstack (proc_at s p) + PGSIZE) s;
         s = tf_set p TF_kernel_trap (usertrap_pc s) s;
         s = tf_set p TF_kernel_hartid (of_nat (hartid s)) s;
         s = s\<lparr>sstatus_reg := (sstatus_reg s AND NOT SSTATUS_SPP) OR SSTATUS_SPIE\<rparr>;
         s = s\<lparr>sepc := tf_get s p TF_epc\<rparr>
     in Done (TRAMPOLINE + (userret s - trampoline s), TRAPFRAME, MAKE_SATP (pagetable (proc_at s p))) s)"

definition forkret :: "'a trap_state_scheme \<Rightarrow> (u64 \<times> u64 \<times> u64, 'a trap_state_scheme) res" where
  "forkret s = with_proc s (\<lambda>p.
     andthen (release (L_proc p) s) (\<lambda>_ s.
     andthen (if first s then fsinit ROOTDEV (s\<lparr>first := False\<rparr>) else Done () s) (\<lambda>_ s.
     usertrapret s)))"

definition usertrap_fault :: "nat \<Rightarrow> 'a trap_state_scheme \<Rightarrow> (unit, 'a trap_state_scheme) res" where
  "usertrap_fault p s =
     (let kill_it = upd_proc p (\<lambda>q. q\<lparr>killed := True\<rparr>) in
      if PGROUNDUP (tf_get s p TF_sp) - 1 < stval s \<and> stval s < sz (proc_at s p)
      then andthen (mmap_handler (ucast (stval s)) (scause s) s) (\<lambda>r s. Done () (if r \<noteq> 0 then kill_it s else s))
      else Done () (kill_it s))"

definition usertrap :: "'a trap_state_scheme \<Rightarrow> (u64 \<times> u64 \<times> u64, 'a trap_state_scheme) res" where
  "usertrap s =
     (if sstatus_reg s AND SSTATUS_SPP \<noteq> 0 then Panic ''usertrap: not from user mode''
      else
        let s = s\<lparr>stvec := kernelvec s\<rparr> in
        with_proc s (\<lambda>p.
        let s = tf_set p TF_epc (sepc s) s in
        andthen
          (if scause s = 8
           then andthen (if killed (proc_at s p) then exit (- 1) s else Done () s) (\<lambda>_ s.
                let s = tf_set p TF_epc (tf_get s p TF_epc + 4) s;
                    s = s\<lparr>ien := True\<rparr>
                in andthen (syscall s) (\<lambda>_ s. Done 0 s))
           else andthen (devintr s) (\<lambda>which_dev s.
                if which_dev \<noteq> 0 then Done which_dev s
                else if scause s = 13 \<or> scause s = 15
                then andthen (usertrap_fault p s) (\<lambda>_ s. Done 0 s)
                else
                  andthen (printf (Some (bytes_of ''usertrap(): unexpected scause %p pid=%d\<newline>''))
                    [APtr (scause s), AInt (word_of_int (pid (proc_at s p)))] s) (\<lambda>_ s.
                  andthen (printf (Some (bytes_of ''            sepc=%p stval=%p\<newline>'')) [APtr (sepc s), APtr (stval s)] s) (\<lambda>_ s.
                  Done 0 (upd_proc p (\<lambda>q. q\<lparr>killed := True\<rparr>) s))))) (\<lambda>which_dev s.
        andthen (if killed (proc_at s p) then exit (- 1) s else Done () s) (\<lambda>_ s.
        andthen (if which_dev = 2 then yield s else Done () s) (\<lambda>_ s.
        usertrapret s)))))"

definition kerneltrap :: "'a trap_state_scheme \<Rightarrow> (unit, 'a trap_state_scheme) res" where
  "kerneltrap s =
     (let epc0 = sepc s; st0 = sstatus_reg s; cause0 = scause s in
      if st0 AND SSTATUS_SPP = 0 then Panic ''kerneltrap: not from supervisor mode''
      else if intr_enabled s then Panic ''kerneltrap: interrupts enabled''
      else andthen (devintr s) (\<lambda>which_dev s.
      if which_dev = 0
      then andthen (printf (Some (bytes_of ''scause %p\<newline>'')) [APtr cause0] s) (\<lambda>_ s.
           andthen (printf (Some (bytes_of ''sepc=%p stval=%p\<newline>'')) [APtr (sepc s), APtr (stval s)] s) (\<lambda>_ s.
           Panic ''kerneltrap''))
      else andthen (case cur s of None \<Rightarrow> Done () s
             | Some p \<Rightarrow> if which_dev = 2 \<and> pstate (proc_at s p) = RUNNING then yield s else Done () s) (\<lambda>_ s.
           Done () (s\<lparr>sepc := epc0, sstatus_reg := st0\<rparr>))))"

section \<open>Boot\<close>

text \<open>
  \<open>main\<close> of hart 0 up to \<open>started = 1\<close>, and of the other harts from there on; both then enter the
  scheduler. \<open>pages\<close> is the address of \<open>disk.pages\<close>.
\<close>

definition main_boot :: "u64 \<Rightarrow> 'a trap_state_scheme \<Rightarrow> (unit, 'a trap_state_scheme) res" where
  "main_boot pages s =
     andthen (printf (Some [10]) [] (printfinit (consoleinit s))) (\<lambda>_ s.
     andthen (printf (Some (bytes_of ''xv6 kernel is booting\<newline>'')) [] s) (\<lambda>_ s.
     andthen (printf (Some [10]) [] s) (\<lambda>_ s.
     andthen (kinit s) (\<lambda>_ s.
     andthen (kvminit s) (\<lambda>_ s.
     let s = fileinit (iinit (binit (plicinithart (plicinit (trapinithart (trapinit (procinit (kvminithart s))))))))
     in andthen (virtio_disk_init pages s) (\<lambda>_ s.
        userinit s))))))"

definition main_other :: "'a trap_state_scheme \<Rightarrow> (unit, 'a trap_state_scheme) res" where
  "main_other s =
     andthen (printf (Some (bytes_of ''hart %d starting\<newline>'')) [AInt (of_nat (hartid s))] s) (\<lambda>_ s.
     Done () (plicinithart (trapinithart (kvminithart s))))"

end
