(* ===== verification/Spec2Isabelle.thy ===== *)
theory Spec2Isabelle
  imports Sleep_Wakeup Uart_Ring Console_Line Pipe_Queue Fs_Path Grep Shell Mmap_Regions Trap
begin

text \<open>
  A verification library for the xv6 kernel of this repository (\<open>src/kernel\<close>), a RISC-V teaching
  operating system with memory-mapped files.
\<close>

end
